(* ===== verification/Ops_Prelude.thy ===== *)
theory Ops_Prelude
  imports Main "HOL-Library.Word" "HOL-Library.Char_ord"
begin

text \<open>
  Shared vocabulary of the development: the Go types the indexer's code is written in and the
  operations of the Go language and standard library it uses.

  \<^item> \<open>u64\<close> values (block numbers, cursors, counts) are naturals below \<open>2 ^ 64\<close>; the Go operators
    \<open>+\<close> and \<open>-\<close> on \<open>uint64\<close> are \<open>u64_add\<close> and \<open>u64_sub\<close>, which wrap around.  The collection
    \<open>u64_simps\<close> holds the conditional rewrite rules that remove the wrap-around under a bound.
  \<^item> A Go \<open>string\<close> is a \<open>string\<close> (a list of bytes), a \<open>[]byte\<close> is a list of \<open>8 word\<close>.
  \<^item> A fallible call returns a value of the sum type \<open>'e + 'a\<close>, \<open>Inl\<close> being the error.
\<close>

section \<open>Machine integers\<close>

named_theorems u64_simps

type_synonym u64 = nat

definition u64_add :: "u64 \<Rightarrow> u64 \<Rightarrow> u64" where
  "u64_add a b = (a + b) mod 2 ^ 64"

definition u64_sub :: "u64 \<Rightarrow> u64 \<Rightarrow> u64" where
  "u64_sub a b = (a + (2 ^ 64 - b mod 2 ^ 64)) mod 2 ^ 64"

definition is_u64 :: "nat \<Rightarrow> bool" where
  "is_u64 n \<longleftrightarrow> n < 2 ^ 64"

lemma u64_add_no_wrap [u64_simps]: "a + b < 2 ^ 64 \<Longrightarrow> u64_add a b = a + b"
  by (simp add: u64_add_def)

lemma u64_sub_no_wrap [u64_simps]:
  assumes "b \<le> a" and "a < 2 ^ 64"
  shows "u64_sub a b = a - b"
proof -
  have eq: "a + (2 ^ 64 - b mod 2 ^ 64) = (a - b) + 2 ^ 64"
    using assms by simp
  show ?thesis
    unfolding u64_sub_def eq mod_add_self2 using assms by simp
qed

lemma u64_add_bound [simp]: "u64_add a b < 2 ^ 64"
  by (simp add: u64_add_def)

lemma u64_sub_bound [simp]: "u64_sub a b < 2 ^ 64"
  by (simp add: u64_sub_def)

lemma u64_sub_self [simp]: "u64_sub a a = 0" if "a < 2 ^ 64"
  using that by (simp add: u64_sub_no_wrap)

text \<open>The underflow of a \<open>uint64\<close> subtraction: one below zero is the greatest value.\<close>

lemma u64_sub_underflow: "u64_sub 0 1 = 2 ^ 64 - 1"
  by (simp add: u64_sub_def)

section \<open>Results\<close>

fun bind_result :: "'e + 'a \<Rightarrow> ('a \<Rightarrow> 'e + 'b) \<Rightarrow> 'e + 'b" where
  "bind_result (Inl e) f = Inl e"
| "bind_result (Inr a) f = f a"

lemma bind_result_Inr [simp]:
  "bind_result r f = Inr b \<longleftrightarrow> (\<exists>a. r = Inr a \<and> f a = Inr b)"
  by (cases r) auto

section \<open>Bytes and strings\<close>

type_synonym byte = "8 word"
type_synonym bytes = "byte list"

text \<open>The bytes of a string, and the string of some bytes (Go's conversions between the two).\<close>

definition byte_of_char :: "char \<Rightarrow> byte" where
  "byte_of_char c = word_of_nat (of_char c)"

definition string_of_bytes :: "bytes \<Rightarrow> string" where
  "string_of_bytes = map (\<lambda>b. char_of (unat b))"

definition bytes_of_string :: "string \<Rightarrow> bytes" where
  "bytes_of_string = map byte_of_char"

lemma unat_byte_bound [simp]: "unat (b :: byte) < 256"
  using unsigned_less [of b] by simp

lemma char_of_byte_of_char [simp]: "char_of (unat (byte_of_char c)) = c"
  by (simp add: byte_of_char_def unat_of_nat take_bit_eq_mod)

section \<open>Slices\<close>

text \<open>\<open>xs[lo:hi]\<close>; \<open>None\<close> is the run-time panic on bounds out of range.\<close>

definition go_slice :: "'a list \<Rightarrow> nat \<Rightarrow> nat \<Rightarrow> 'a list option" where
  "go_slice xs lo hi = (if lo \<le> hi \<and> hi \<le> length xs then Some (take (hi - lo) (drop lo xs)) else None)"

lemma length_go_slice: "go_slice xs lo hi = Some ys \<Longrightarrow> length ys = hi - lo"
  by (auto simp: go_slice_def split: if_splits)

section \<open>Block intervals\<close>

text \<open>
  Several loops walk an interval of blocks a batch at a time.  \<open>batches\<close> is what they visit: from
  \<open>lo\<close> to \<open>hi\<close>, \<open>n\<close> blocks at a time, the last batch cut at \<open>hi\<close>.
\<close>

function batches :: "nat \<Rightarrow> nat \<Rightarrow> nat \<Rightarrow> (nat \<times> nat) list" where
  "batches n lo hi =
     (if n = 0 \<or> hi < lo then [] else (lo, min (lo + n - 1) hi) # batches n (lo + n) hi)"
  by pat_completeness auto
termination by (relation "measure (\<lambda>(n, lo, hi). Suc hi - lo)") auto

declare batches.simps [simp del]

definition cover :: "(nat \<times> nat) list \<Rightarrow> nat set" where
  "cover rs = (\<Union>(a, b) \<in> set rs. {a..b})"

lemma cover_simps [simp]:
  "cover [] = {}" "cover ((a, b) # rs) = {a..b} \<union> cover rs" "cover (rs @ qs) = cover rs \<union> cover qs"
  by (auto simp: cover_def)

lemma cover_iff: "n \<in> cover rs \<longleftrightarrow> (\<exists>a b. (a, b) \<in> set rs \<and> a \<le> n \<and> n \<le> b)"
  by (fastforce simp: cover_def)

text \<open>The batches cover the interval and nothing else, and each is non-empty and at most \<open>n\<close> long.\<close>

lemma cover_batches: "0 < n \<Longrightarrow> cover (batches n lo hi) = {lo..hi}"
proof (induction n lo hi rule: batches.induct)
  case (1 n lo hi)
  show ?case
  proof (cases "hi < lo")
    case True
    then show ?thesis by (simp add: batches.simps)
  next
    case False
    then have "cover (batches n lo hi) = {lo..min (lo + n - 1) hi} \<union> {lo + n..hi}"
      using 1 by (simp add: batches.simps [of n lo hi])
    also have "\<dots> = {lo..hi}"
      using False \<open>0 < n\<close> by auto
    finally show ?thesis .
  qed
qed

lemma batches_bounds:
  "(a, b) \<in> set (batches n lo hi) \<Longrightarrow> lo \<le> a \<and> a \<le> b \<and> b \<le> hi \<and> b - a < n"
proof (induction n lo hi rule: batches.induct)
  case (1 n lo hi)
  then show ?case
    by (force simp: batches.simps [of n lo hi] split: if_splits)
qed

end
