(* ===== verification/Eth_Common.thy ===== *)
theory Eth_Common
  imports Ops_Prelude
begin

text \<open>
  \<open>pkg/eth/common\<close> and \<open>pkg/eth/hexutil\<close>: addresses and hashes, their hexadecimal text, and the
  JSON number and byte-string forms a node answers with.

  \<open>Address\<close> and \<open>Hash\<close> are byte lists of length \<open>AddressLength\<close> and \<open>HashLength\<close> (\<open>is_Address\<close>,
  \<open>is_Hash\<close>).  Keccak-256 (golang.org/x/crypto/sha3) is a parameter of \<open>Address_Hex\<close>.  The JSON
  layer (encoding/json) is modelled by the value it hands to the decoder: a string, a number or
  neither (\<open>json_value\<close>).
\<close>

section \<open>Hexadecimal text (encoding/hex)\<close>

definition hex_digit :: "nat \<Rightarrow> char" where
  "hex_digit n = (if n < 10 then char_of (48 + n) else char_of (87 + n))"

definition from_hex_char :: "char \<Rightarrow> nat option" where
  "from_hex_char c =
     (let k = of_char c in
      if 48 \<le> k \<and> k \<le> 57 then Some (k - 48)
      else if 97 \<le> k \<and> k \<le> 102 then Some (k - 87)
      else if 65 \<le> k \<and> k \<le> 70 then Some (k - 55)
      else None)"

fun hex_EncodeToString :: "bytes \<Rightarrow> string" where
  "hex_EncodeToString [] = []"
| "hex_EncodeToString (b # bs) =
     hex_digit (unat b div 16) # hex_digit (unat b mod 16) # hex_EncodeToString bs"

text \<open>\<open>None\<close> is the decoder's error: an odd length or a byte that is no hexadecimal digit.\<close>

fun hex_DecodeString :: "string \<Rightarrow> bytes option" where
  "hex_DecodeString [] = Some []"
| "hex_DecodeString [c] = None"
| "hex_DecodeString (a # b # s) =
     (case (from_hex_char a, from_hex_char b, hex_DecodeString s) of
        (Some x, Some y, Some bs) \<Rightarrow> Some (word_of_nat (16 * x + y) # bs)
      | _ \<Rightarrow> None)"

section \<open>Go string functions (strings)\<close>

definition to_lower_char :: "char \<Rightarrow> char" where
  "to_lower_char c = (let k = of_char c :: nat in if 65 \<le> k \<and> k \<le> 90 then char_of (k + 32) else c)"

text \<open>\<open>strings.ToLower\<close> and \<open>strings.EqualFold\<close> on ASCII text.\<close>

definition ToLower :: "string \<Rightarrow> string" where
  "ToLower = map to_lower_char"

definition EqualFold :: "string \<Rightarrow> string \<Rightarrow> bool" where
  "EqualFold s t \<longleftrightarrow> ToLower s = ToLower t"

definition TrimPrefix :: "string \<Rightarrow> string \<Rightarrow> string" where
  "TrimPrefix s p = (if take (length p) s = p then drop (length p) s else s)"

definition is_space_char :: "char \<Rightarrow> bool" where
  "is_space_char c = (let k = of_char c :: nat in k = 32 \<or> (9 \<le> k \<and> k \<le> 13))"

text \<open>\<open>strings.TrimSpace\<close> on ASCII text.\<close>

definition TrimSpace :: "string \<Rightarrow> string" where
  "TrimSpace s = rev (dropWhile is_space_char (rev (dropWhile is_space_char s)))"

section \<open>pkg/eth/common\<close>

definition AddressLength :: nat where "AddressLength = 20"
definition HashLength :: nat where "HashLength = 32"

definition is_Address :: "bytes \<Rightarrow> bool" where "is_Address a \<longleftrightarrow> length a = AddressLength"
definition is_Hash :: "bytes \<Rightarrow> bool" where "is_Hash h \<longleftrightarrow> length h = HashLength"

definition zero_Address :: bytes where "zero_Address = replicate AddressLength 0"
definition zero_Hash :: bytes where "zero_Hash = replicate HashLength 0"

text \<open>
  \<open>setBytes\<close> on a fresh zero array of \<open>n\<close> bytes: the last \<open>n\<close> bytes of \<open>b\<close>, copied to the end.
\<close>

definition setBytes :: "nat \<Rightarrow> bytes \<Rightarrow> bytes" where
  "setBytes n b =
     (let b' = (if n < length b then drop (length b - n) b else b)
      in replicate (n - length b') 0 @ b')"

definition BytesToAddress :: "bytes \<Rightarrow> bytes" where
  "BytesToAddress b = setBytes AddressLength b"

definition BytesToHash :: "bytes \<Rightarrow> bytes" where
  "BytesToHash b = setBytes HashLength b"

definition Bytes2Hex :: "bytes \<Rightarrow> string" where
  "Bytes2Hex b = hex_EncodeToString b"

text \<open>\<open>FromHex\<close>: a nil slice is the empty list.\<close>

definition FromHex :: "string \<Rightarrow> bytes" where
  "FromHex s =
     (if length s = 0 then []
      else let s1 = (if 2 \<le> length s \<and> (take 2 s = ''0x'' \<or> take 2 s = ''0X'') then drop 2 s else s)
           in if length s1 = 0 then []
              else let s2 = (if length s1 mod 2 \<noteq> 0 then CHR ''0'' # s1 else s1)
                   in case hex_DecodeString s2 of None \<Rightarrow> [] | Some b \<Rightarrow> b)"

definition HexToAddress :: "string \<Rightarrow> bytes" where
  "HexToAddress s = BytesToAddress (FromHex s)"

definition HexToHash :: "string \<Rightarrow> bytes" where
  "HexToHash s = BytesToHash (FromHex s)"

definition Hash_Hex :: "bytes \<Rightarrow> string" where
  "Hash_Hex h = ''0x'' @ hex_EncodeToString h"

text \<open>
  \<open>Address.Hex\<close>: the EIP-55 checksum.  The loop over the unchecksummed digits, \<open>i\<close> the index of
  the digit; \<open>hash\<close> is the Keccak-256 of the digits.
\<close>

fun checksum_loop :: "bytes \<Rightarrow> nat \<Rightarrow> string \<Rightarrow> string" where
  "checksum_loop hash i [] = []"
| "checksum_loop hash i (c # cs) =
     (let k = of_char c :: nat in
      if 48 \<le> k \<and> k \<le> 57 then c
      else let hashByte = hash ! (i div 2);
               nibble = (if i mod 2 = 0 then drop_bit 4 hashByte else take_bit 4 hashByte)
           in if 8 \<le> unat nibble then char_of (k - 32) else c) # checksum_loop hash (Suc i) cs"

definition Address_Hex :: "(bytes \<Rightarrow> bytes) \<Rightarrow> bytes \<Rightarrow> string" where
  "Address_Hex keccak a =
     (let unchecksummed = hex_EncodeToString a;
          hash = keccak (bytes_of_string unchecksummed)
      in ''0x'' @ checksum_loop hash 0 unchecksummed)"

definition LeftPadBytes :: "bytes \<Rightarrow> nat \<Rightarrow> bytes" where
  "LeftPadBytes b n = (if n \<le> length b then b else replicate (n - length b) 0 @ b)"

definition isHexChar :: "byte \<Rightarrow> bool" where
  "isHexChar c \<longleftrightarrow> (48 \<le> c \<and> c \<le> 57) \<or> (97 \<le> c \<and> c \<le> 102) \<or> (65 \<le> c \<and> c \<le> 70)"

text \<open>
  A \<open>range\<close> loop over a Go string yields its UTF-8 code points; a byte sequence that is no UTF-8
  encoding yields U+FFFD for one byte.  \<open>next_rune\<close> is the code point and the number of bytes read.
\<close>

definition is_cont :: "nat \<Rightarrow> bool" where
  "is_cont k \<longleftrightarrow> 128 \<le> k \<and> k \<le> 191"

fun next_rune :: "nat list \<Rightarrow> nat \<times> nat" where
  "next_rune (a # s) =
     (if a < 128 then (a, 1)
      else case s of
        [] \<Rightarrow> (65533, 1)
      | b # s1 \<Rightarrow>
          if 194 \<le> a \<and> a \<le> 223 \<and> is_cont b then ((a - 192) * 64 + (b - 128), 2)
          else (case s1 of
            [] \<Rightarrow> (65533, 1)
          | c # s2 \<Rightarrow>
              if 224 \<le> a \<and> a \<le> 239 \<and> is_cont b \<and> is_cont c \<and> (a = 224 \<longrightarrow> 160 \<le> b) \<and> (a = 237 \<longrightarrow> b \<le> 159)
              then ((a - 224) * 4096 + (b - 128) * 64 + (c - 128), 3)
              else (case s2 of
                [] \<Rightarrow> (65533, 1)
              | d # _ \<Rightarrow>
                  if 240 \<le> a \<and> a \<le> 244 \<and> is_cont b \<and> is_cont c \<and> is_cont d
                     \<and> (a = 240 \<longrightarrow> 144 \<le> b) \<and> (a = 244 \<longrightarrow> b \<le> 143)
                  then ((a - 240) * 262144 + (b - 128) * 4096 + (c - 128) * 64 + (d - 128), 4)
                  else (65533, 1))))"
| "next_rune [] = (65533, 1)"

lemma next_rune_width: "1 \<le> snd (next_rune s)"
  by (induction s rule: next_rune.induct) (auto split: list.splits)

function runes :: "nat list \<Rightarrow> nat list" where
  "runes s = (if s = [] then [] else fst (next_rune s) # runes (drop (snd (next_rune s)) s))"
  by pat_completeness auto
termination
proof (relation "measure length")
  fix s :: "nat list"
  assume "s \<noteq> []"
  then show "(drop (snd (next_rune s)) s, s) \<in> measure length"
    using next_rune_width [of s] by (cases s) auto
qed simp

declare runes.simps [simp del]

text \<open>\<open>IsHexAddress\<close>: \<open>byte(c)\<close> keeps the low eight bits of the code point.\<close>

definition IsHexAddress :: "string \<Rightarrow> bool" where
  "IsHexAddress s =
     (if length s \<noteq> 42 then False
      else if take 2 s \<noteq> ''0x'' \<and> take 2 s \<noteq> ''0X'' then False
      else list_all (\<lambda>c. isHexChar (word_of_nat c)) (runes (map of_char (drop 2 s))))"

section \<open>JSON values and pkg/eth/hexutil\<close>

datatype json_value = JNull | JString string | JNumber int | JOther

text \<open>\<open>json.Unmarshal\<close> into a Go string, and into a \<open>uint64\<close>: \<open>null\<close> leaves the zero value.\<close>

fun json_into_string :: "json_value \<Rightarrow> string option" where
  "json_into_string (JString s) = Some s"
| "json_into_string JNull = Some []"
| "json_into_string _ = None"

fun json_into_uint64 :: "json_value \<Rightarrow> u64 option" where
  "json_into_uint64 (JNumber i) = (if 0 \<le> i \<and> i < 2 ^ 64 then Some (nat i) else None)"
| "json_into_uint64 JNull = Some 0"
| "json_into_uint64 _ = None"

datatype codec_error = InvalidJSON | InvalidHex | InvalidLength nat

definition Address_UnmarshalJSON :: "bytes \<Rightarrow> json_value \<Rightarrow> codec_error + bytes" where
  "Address_UnmarshalJSON a data =
     (if data = JNull then Inr a
      else case json_into_string data of
        None \<Rightarrow> Inl InvalidJSON
      | Some s \<Rightarrow> (let decoded = FromHex s in
          if length decoded \<noteq> AddressLength then Inl (InvalidLength (length decoded)) else Inr decoded))"

definition Hash_UnmarshalJSON :: "bytes \<Rightarrow> json_value \<Rightarrow> codec_error + bytes" where
  "Hash_UnmarshalJSON h data =
     (if data = JNull then Inr h
      else case json_into_string data of
        None \<Rightarrow> Inl InvalidJSON
      | Some s \<Rightarrow> (let decoded = FromHex s in
          if length decoded \<noteq> HashLength then Inl (InvalidLength (length decoded)) else Inr decoded))"

text \<open>\<open>strconv.FormatUint\<close> and \<open>big.Int.Text\<close>: the digits of a number in a base.\<close>

fun nat_text :: "nat \<Rightarrow> nat \<Rightarrow> string" where
  "nat_text base n =
     (if n < base \<or> base < 2 then [hex_digit n]
      else nat_text base (n div base) @ [hex_digit (n mod base)])"

declare nat_text.simps [simp del]

definition int_text :: "nat \<Rightarrow> int \<Rightarrow> string" where
  "int_text base i = (if i < 0 then CHR ''-'' # nat_text base (nat (- i)) else nat_text base (nat i))"

fun parse_digits :: "nat \<Rightarrow> nat \<Rightarrow> string \<Rightarrow> nat option" where
  "parse_digits base acc [] = Some acc"
| "parse_digits base acc (c # cs) =
     (case from_hex_char c of
        None \<Rightarrow> None
      | Some d \<Rightarrow> if d < base then parse_digits base (base * acc + d) cs else None)"

text \<open>\<open>strconv.ParseUint(s, 16, 64)\<close> and \<open>big.Int.SetString(s, 16)\<close>.\<close>

definition ParseUint16_64 :: "string \<Rightarrow> u64 option" where
  "ParseUint16_64 s =
     (if s = [] then None
      else case parse_digits 16 0 s of None \<Rightarrow> None | Some n \<Rightarrow> if n < 2 ^ 64 then Some n else None)"

definition SetString16 :: "string \<Rightarrow> int option" where
  "SetString16 s =
     (let neg = (s \<noteq> [] \<and> hd s = CHR ''-'');
          digits = (if s \<noteq> [] \<and> (hd s = CHR ''-'' \<or> hd s = CHR ''+'') then tl s else s)
      in if digits = [] then None
         else case parse_digits 16 0 digits of
                None \<Rightarrow> None
              | Some n \<Rightarrow> Some (if neg then - int n else int n))"

definition trim_0x :: "string \<Rightarrow> string" where
  "trim_0x s = TrimPrefix (TrimPrefix s ''0x'') ''0X''"

definition Big_MarshalJSON :: "int \<Rightarrow> string" where
  "Big_MarshalJSON i = (if i = 0 then ''0x0'' else ''0x'' @ int_text 16 i)"

definition Big_UnmarshalJSON :: "json_value \<Rightarrow> codec_error + int" where
  "Big_UnmarshalJSON data =
     (case json_into_string data of
        None \<Rightarrow> Inl InvalidJSON
      | Some s0 \<Rightarrow>
          (let s = TrimSpace s0 in
           if s = [] \<or> s = ''0x'' \<or> s = ''0x0'' then Inr 0
           else case SetString16 (trim_0x s) of None \<Rightarrow> Inl InvalidHex | Some i \<Rightarrow> Inr i))"

definition Uint64_MarshalJSON :: "u64 \<Rightarrow> string" where
  "Uint64_MarshalJSON u = ''0x'' @ nat_text 16 u"

definition Uint64_UnmarshalJSON :: "json_value \<Rightarrow> codec_error + u64" where
  "Uint64_UnmarshalJSON data =
     (case json_into_string data of
        None \<Rightarrow> (case json_into_uint64 data of None \<Rightarrow> Inl InvalidJSON | Some n \<Rightarrow> Inr n)
      | Some s0 \<Rightarrow>
          (let s = TrimSpace s0 in
           if s = [] \<or> s = ''0x'' \<or> s = ''0x0'' then Inr 0
           else case ParseUint16_64 (trim_0x s) of None \<Rightarrow> Inl InvalidHex | Some v \<Rightarrow> Inr v))"

definition Bytes_MarshalJSON :: "bytes \<Rightarrow> string" where
  "Bytes_MarshalJSON b = ''0x'' @ hex_EncodeToString b"

definition Bytes_UnmarshalJSON :: "json_value \<Rightarrow> codec_error + bytes" where
  "Bytes_UnmarshalJSON data =
     (case json_into_string data of
        None \<Rightarrow> Inl InvalidJSON
      | Some s0 \<Rightarrow>
          (let s = TrimSpace s0 in
           if s = [] \<or> s = ''0x'' then Inr []
           else let s1 = trim_0x s; s2 = (if length s1 mod 2 \<noteq> 0 then CHR ''0'' # s1 else s1)
                in case hex_DecodeString s2 of None \<Rightarrow> Inl InvalidHex | Some decoded \<Rightarrow> Inr decoded))"

section \<open>Hexadecimal text: lemmas\<close>

named_theorems hex_simps

lemma of_char_hex_digit:
  "n < 16 \<Longrightarrow> (of_char (hex_digit n) :: nat) = (if n < 10 then 48 + n else 87 + n)"
  by (simp add: hex_digit_def)

lemma from_hex_char_hex_digit [hex_simps]: "n < 16 \<Longrightarrow> from_hex_char (hex_digit n) = Some n"
  by (simp add: from_hex_char_def of_char_hex_digit)

lemma from_hex_char_bound: "from_hex_char c = Some n \<Longrightarrow> n < 16"
  by (auto simp: from_hex_char_def Let_def split: if_splits)

lemma word_of_nat_nibbles: "word_of_nat (16 * (unat b div 16) + unat b mod 16) = (b :: byte)"
  by (simp add: mult.commute)

lemma unat_byte_div_16 [simp]: "unat (b :: byte) div 16 < 16"
  by (rule less_mult_imp_div_less) simp

lemma hex_decode_encode [simp]: "hex_DecodeString (hex_EncodeToString b) = Some b"
proof (induction b)
  case (Cons b bs)
  then show ?case
    by (simp add: from_hex_char_hex_digit word_of_nat_nibbles del: of_nat_add of_nat_mult)
qed simp

lemma length_hex_encode [simp]: "length (hex_EncodeToString b) = 2 * length b"
  by (induction b) auto

lemma length_hex_decode: "hex_DecodeString s = Some b \<Longrightarrow> length s = 2 * length b"
  by (induction s arbitrary: b rule: hex_DecodeString.induct) (auto split: option.splits)

lemma hex_decode_Some_iff:
  "even (length s) \<Longrightarrow> (hex_DecodeString s = None) = (\<exists>c \<in> set s. from_hex_char c = None)"
  by (induction s rule: hex_DecodeString.induct) (auto split: option.splits)

text \<open>The decoder sees the digits' values only: two texts with the same values decode alike.\<close>

lemma hex_decode_cong:
  "map from_hex_char s = map from_hex_char t \<Longrightarrow> hex_DecodeString s = hex_DecodeString t"
proof (induction s arbitrary: t rule: hex_DecodeString.induct)
  case (2 c)
  then show ?case by (auto simp: map_eq_Cons_conv)
next
  case (3 a b s)
  then obtain a' b' t' where t: "t = a' # b' # t'" "from_hex_char a' = from_hex_char a"
    "from_hex_char b' = from_hex_char b" "map from_hex_char s = map from_hex_char t'"
    by (auto simp: map_eq_Cons_conv)
  then have "hex_DecodeString s = hex_DecodeString t'"
    using 3 by simp
  then show ?case
    using t by simp
qed simp

lemma FromHex_0x:
  assumes "even (length s)"
  shows "FromHex (''0x'' @ s) = (case hex_DecodeString s of None \<Rightarrow> [] | Some b \<Rightarrow> b)"
  using assms by (auto simp: FromHex_def Let_def split: option.splits)

lemma FromHex_encode [simp]: "FromHex (''0x'' @ hex_EncodeToString b) = b"
  by (subst FromHex_0x) auto

lemma length_setBytes [simp]: "length (setBytes n b) = n"
  by (auto simp: setBytes_def Let_def)

lemma setBytes_id: "length b = n \<Longrightarrow> setBytes n b = b"
  by (auto simp: setBytes_def)

lemma is_Hash_HexToHash [simp]: "is_Hash (HexToHash s)"
  by (simp add: HexToHash_def BytesToHash_def is_Hash_def)

lemma is_Address_HexToAddress [simp]: "is_Address (HexToAddress s)"
  by (simp add: HexToAddress_def BytesToAddress_def is_Address_def)

text \<open>A hash printed and read back is the same hash: what the reorg checks compare as text.\<close>

lemma HexToHash_Hash_Hex [simp]: "is_Hash h \<Longrightarrow> HexToHash (Hash_Hex h) = h"
  using FromHex_encode [of h]
  by (simp add: HexToHash_def BytesToHash_def Hash_Hex_def is_Hash_def setBytes_id)

lemma Hash_Hex_inj: "is_Hash g \<Longrightarrow> is_Hash h \<Longrightarrow> Hash_Hex g = Hash_Hex h \<longleftrightarrow> g = h"
  using HexToHash_Hash_Hex by metis

subsection \<open>The checksummed address\<close>

definition is_lower_hex :: "char \<Rightarrow> bool" where
  "is_lower_hex c \<longleftrightarrow> (\<exists>n < 16. c = hex_digit n)"

lemma hex_encode_lower: "c \<in> set (hex_EncodeToString b) \<Longrightarrow> is_lower_hex c"
proof (induction b)
  case (Cons b bs)
  have "is_lower_hex (hex_digit n)" if "n < 16" for n
    using that by (auto simp: is_lower_hex_def)
  with Cons show ?case
    by auto
qed simp

lemma upcase_from_hex:
  assumes "is_lower_hex c" and "\<not> (48 \<le> (of_char c :: nat) \<and> (of_char c :: nat) \<le> 57)"
  shows "from_hex_char (char_of (of_char c - 32 :: nat)) = from_hex_char c"
    and "to_lower_char (char_of (of_char c - 32 :: nat)) = c"
proof -
  obtain n where n: "n < 16" "c = hex_digit n"
    using assms(1) by (auto simp: is_lower_hex_def)
  with assms(2) have oc: "(of_char c :: nat) = 87 + n" "10 \<le> n"
    by (auto simp: of_char_hex_digit split: if_splits)
  show "from_hex_char (char_of (of_char c - 32 :: nat)) = from_hex_char c"
    using oc n(1) by (simp add: from_hex_char_def)
  have "char_of (of_char c :: nat) = c" by simp
  then show "to_lower_char (char_of (of_char c - 32 :: nat)) = c"
    using oc n(1) by (simp add: to_lower_char_def Let_def)
qed

lemma to_lower_hex: "is_lower_hex c \<Longrightarrow> to_lower_char c = c"
  by (auto simp: is_lower_hex_def to_lower_char_def Let_def of_char_hex_digit)

lemma checksum_loop_from_hex:
  "\<forall>c \<in> set cs. is_lower_hex c \<Longrightarrow>
   map from_hex_char (checksum_loop hash i cs) = map from_hex_char cs"
  by (induction cs arbitrary: i) (auto simp: Let_def upcase_from_hex)

lemma checksum_loop_lower:
  "\<forall>c \<in> set cs. is_lower_hex c \<Longrightarrow> ToLower (checksum_loop hash i cs) = cs"
  by (induction cs arbitrary: i) (auto simp: ToLower_def Let_def upcase_from_hex to_lower_hex)

lemma length_checksum_loop [simp]: "length (checksum_loop hash i cs) = length cs"
  by (induction cs arbitrary: i) (auto simp: Let_def)

lemma ToLower_0x: "ToLower (''0x'' @ s) = ''0x'' @ ToLower s"
  by (simp add: ToLower_def to_lower_char_def)

lemma ToLower_Address_Hex: "ToLower (Address_Hex keccak a) = ''0x'' @ hex_EncodeToString a"
  by (auto simp: Address_Hex_def Let_def ToLower_0x checksum_loop_lower hex_encode_lower
      simp del: append.simps)

lemma FromHex_Address_Hex: "FromHex (Address_Hex keccak a) = a"
proof -
  let ?h = "keccak (bytes_of_string (hex_EncodeToString a))"
  have "map from_hex_char (checksum_loop ?h 0 (hex_EncodeToString a))
      = map from_hex_char (hex_EncodeToString a)"
    by (rule checksum_loop_from_hex) (auto dest: hex_encode_lower)
  then have "hex_DecodeString (checksum_loop ?h 0 (hex_EncodeToString a)) = Some a"
    using hex_decode_cong hex_decode_encode by metis
  then show ?thesis
    unfolding Address_Hex_def Let_def by (subst FromHex_0x) auto
qed

lemma HexToAddress_Address_Hex: "is_Address a \<Longrightarrow> HexToAddress (Address_Hex keccak a) = a"
  by (simp add: HexToAddress_def BytesToAddress_def FromHex_Address_Hex is_Address_def setBytes_id)

subsection \<open>Numbers and byte strings\<close>

lemma parse_digits_append:
  "parse_digits base acc (s @ t) =
     (case parse_digits base acc s of None \<Rightarrow> None | Some n \<Rightarrow> parse_digits base n t)"
  by (induction base acc s rule: parse_digits.induct) (auto split: option.splits)

lemma nat_text_not_empty [simp]: "nat_text base n \<noteq> []"
  by (subst nat_text.simps) simp

text \<open>A number's digits, read back in the same base, are the number.\<close>

lemma parse_nat_text:
  assumes "2 \<le> base" and "base \<le> 16"
  shows "parse_digits base 0 (nat_text base n) = Some n"
proof (induction n rule: less_induct)
  case (less n)
  show ?case
  proof (cases "n < base")
    case True
    then show ?thesis
      using assms by (subst nat_text.simps) (simp add: from_hex_char_hex_digit)
  next
    case False
    then have "n div base < n"
      using assms by (intro div_less_dividend) auto
    then have "parse_digits base 0 (nat_text base (n div base)) = Some (n div base)"
      by (rule less)
    moreover have "n mod base < base" and "n mod base < 16"
      using assms mod_less_divisor [of base n] by linarith+
    ultimately show ?thesis
      using assms False
      by (subst nat_text.simps) (simp add: parse_digits_append from_hex_char_hex_digit)
  qed
qed

lemma nat_text_lower_hex: "2 \<le> base \<Longrightarrow> base \<le> 16 \<Longrightarrow> c \<in> set (nat_text base n) \<Longrightarrow> is_lower_hex c"
proof (induction n arbitrary: c rule: less_induct)
  case (less n)
  have digit: "is_lower_hex (hex_digit m)" if "m < 16" for m
    using that by (auto simp: is_lower_hex_def)
  have m: "n mod base < 16"
    using less.prems(1,2) mod_less_divisor [of base n] by linarith
  show ?case
  proof (cases "n < base")
    case True
    then show ?thesis
      using less.prems digit [of n] by (simp add: nat_text.simps [of base n])
  next
    case False
    then have "n div base < n"
      using less.prems by (intro div_less_dividend) auto
    then show ?thesis
      using False less.prems less.IH [of "n div base" c] digit [OF m]
      by (auto simp: nat_text.simps [of base n])
  qed
qed

lemma lower_hex_not_space: "is_lower_hex c \<Longrightarrow> \<not> is_space_char c"
  by (auto simp: is_lower_hex_def is_space_char_def Let_def of_char_hex_digit split: if_splits)

lemma lower_hex_not_X: "is_lower_hex c \<Longrightarrow> c \<noteq> CHR ''X'' \<and> c \<noteq> CHR ''x'' \<and> c \<noteq> CHR ''-'' \<and> c \<noteq> CHR ''+''"
proof -
  assume "is_lower_hex c"
  then obtain n where "(of_char c :: nat) = (if n < 10 then 48 + n else 87 + n)" "n < 16"
    by (auto simp: is_lower_hex_def of_char_hex_digit)
  then show ?thesis
    by (auto split: if_splits)
qed

lemma TrimSpace_id:
  assumes "s \<noteq> []" and "\<not> is_space_char (hd s)" and "\<not> is_space_char (last s)"
  shows "TrimSpace s = s"
proof -
  have "dropWhile is_space_char s = s"
    using assms by (cases s) auto
  moreover have "dropWhile is_space_char (rev s) = rev s"
    using assms by (cases "rev s") (auto simp: hd_rev [symmetric])
  ultimately show ?thesis
    by (simp add: TrimSpace_def)
qed

lemma space_chars: "\<not> is_space_char CHR ''0''" "\<not> is_space_char CHR ''x''"
  by (simp_all add: is_space_char_def)

lemma TrimSpace_0x:
  assumes "\<forall>c \<in> set s. \<not> is_space_char c"
  shows "TrimSpace (''0x'' @ s) = ''0x'' @ s"
  using assms by (intro TrimSpace_id) (auto simp: space_chars)

lemma trim_0x_prefix:
  assumes "\<forall>c \<in> set s. c \<noteq> CHR ''X''"
  shows "trim_0x (''0x'' @ s) = s"
proof -
  have "take 2 s \<noteq> ''0X''"
  proof
    assume "take 2 s = ''0X''"
    then have "CHR ''X'' \<in> set (take 2 s)" by simp
    then show False using assms by (auto dest: in_set_takeD)
  qed
  then show ?thesis
    by (simp add: trim_0x_def TrimPrefix_def numeral_2_eq_2)
qed

lemma Bytes_roundtrip: "Bytes_UnmarshalJSON (JString (Bytes_MarshalJSON b)) = Inr b"
proof (cases "b = []")
  case True
  then show ?thesis
    by (simp add: Bytes_UnmarshalJSON_def Bytes_MarshalJSON_def TrimSpace_def is_space_char_def)
next
  case False
  then have ne: "hex_EncodeToString b \<noteq> []"
    by (cases b) auto
  have "TrimSpace (''0x'' @ hex_EncodeToString b) = ''0x'' @ hex_EncodeToString b"
    by (rule TrimSpace_0x) (auto dest: hex_encode_lower lower_hex_not_space)
  moreover have "trim_0x (''0x'' @ hex_EncodeToString b) = hex_EncodeToString b"
    by (rule trim_0x_prefix) (auto dest: hex_encode_lower lower_hex_not_X)
  ultimately show ?thesis
    using ne by (simp add: Bytes_UnmarshalJSON_def Bytes_MarshalJSON_def Let_def)
qed

lemma Uint64_roundtrip:
  assumes "is_u64 u"
  shows "Uint64_UnmarshalJSON (JString (Uint64_MarshalJSON u)) = Inr u"
proof -
  have lower: "\<forall>c \<in> set (nat_text 16 u). is_lower_hex c"
    using nat_text_lower_hex [of 16] by auto
  have "TrimSpace (''0x'' @ nat_text 16 u) = ''0x'' @ nat_text 16 u"
    by (rule TrimSpace_0x) (use lower lower_hex_not_space in auto)
  moreover have "trim_0x (''0x'' @ nat_text 16 u) = nat_text 16 u"
    by (rule trim_0x_prefix) (use lower lower_hex_not_X in auto)
  moreover have "u = 0" if "nat_text 16 u = ''0''"
    using parse_nat_text [of 16 u] that by (simp add: from_hex_char_def)
  ultimately show ?thesis
    using assms
    by (auto simp: Uint64_UnmarshalJSON_def Uint64_MarshalJSON_def Let_def ParseUint16_64_def
        parse_nat_text is_u64_def)
qed

lemma SetString16_int_text: "SetString16 (int_text 16 i) = Some i"
proof (cases "i < 0")
  case True
  then show ?thesis
    by (simp add: SetString16_def int_text_def Let_def parse_nat_text)
next
  case False
  have "is_lower_hex (hd (nat_text 16 (nat i)))"
    using nat_text_lower_hex [of 16 _ "nat i"] by simp
  then show ?thesis
    using False lower_hex_not_X
    by (auto simp: SetString16_def int_text_def Let_def parse_nat_text)
qed

lemma Big_roundtrip: "Big_UnmarshalJSON (JString (Big_MarshalJSON i)) = Inr i"
proof (cases "i = 0")
  case True
  then show ?thesis
    by (simp add: Big_UnmarshalJSON_def Big_MarshalJSON_def TrimSpace_def is_space_char_def)
next
  case False
  have chars: "\<forall>c \<in> set (int_text 16 i). is_lower_hex c \<or> c = CHR ''-''"
    using nat_text_lower_hex [of 16] by (auto simp: int_text_def)
  have "\<not> is_space_char CHR ''-''"
    by (simp add: is_space_char_def)
  then have "TrimSpace (''0x'' @ int_text 16 i) = ''0x'' @ int_text 16 i"
    by (intro TrimSpace_0x) (use chars lower_hex_not_space in auto)
  moreover have "trim_0x (''0x'' @ int_text 16 i) = int_text 16 i"
    by (rule trim_0x_prefix) (use chars lower_hex_not_X in auto)
  moreover have "int_text 16 i \<noteq> []" and "int_text 16 i \<noteq> ''0''"
    using SetString16_int_text [of i] False by (auto simp: SetString16_def from_hex_char_def)
  ultimately show ?thesis
    using False by (simp add: Big_UnmarshalJSON_def Big_MarshalJSON_def Let_def SetString16_int_text)
qed

subsection \<open>Address texts\<close>

lemma runes_ascii: "\<forall>k \<in> set s. k < 128 \<Longrightarrow> runes s = s"
proof (induction s)
  case (Cons k s)
  then show ?case
    by (simp add: runes.simps [of "k # s"])
qed (simp add: runes.simps)

lemma isHexChar_of_char: "isHexChar (word_of_nat (of_char c)) \<longleftrightarrow> from_hex_char c \<noteq> None"
proof -
  have "unat (word_of_nat (of_char c) :: byte) = of_char c"
    by (simp add: unat_of_nat)
  then show ?thesis
    by (auto simp: isHexChar_def from_hex_char_def word_le_nat_alt Let_def)
qed

text \<open>On ASCII text \<open>IsHexAddress\<close> accepts exactly a \<open>0x\<close> prefix and forty hexadecimal digits.\<close>

lemma IsHexAddress_ascii:
  assumes "\<forall>c \<in> set s. (of_char c :: nat) < 128"
  shows "IsHexAddress s \<longleftrightarrow> length s = 42 \<and> (take 2 s = ''0x'' \<or> take 2 s = ''0X'')
     \<and> (\<forall>c \<in> set (drop 2 s). from_hex_char c \<noteq> None)"
proof -
  have "runes (map of_char (drop 2 s)) = map of_char (drop 2 s)"
    using assms by (intro runes_ascii) (auto dest: in_set_dropD)
  then show ?thesis
    by (auto simp: IsHexAddress_def list_all_iff isHexChar_of_char)
qed

lemma IsHexAddress_decodes:
  assumes "\<forall>c \<in> set s. (of_char c :: nat) < 128" and "IsHexAddress s"
  shows "length (FromHex s) = AddressLength"
proof -
  have s: "length s = 42" "take 2 s = ''0x'' \<or> take 2 s = ''0X''"
    "\<forall>c \<in> set (drop 2 s). from_hex_char c \<noteq> None"
    using assms IsHexAddress_ascii by auto
  have even: "even (length (drop 2 s))"
    using s(1) by simp
  then obtain b where b: "hex_DecodeString (drop 2 s) = Some b"
    using s(3) hex_decode_Some_iff [OF even] by fastforce
  then have "length b = 20"
    using length_hex_decode [OF b] s(1) by simp
  moreover have "FromHex s = b"
    using s(1,2) b by (auto simp: FromHex_def Let_def)
  ultimately show ?thesis
    by (simp add: AddressLength_def)
qed

text \<open>
  Outside ASCII it accepts texts that are no address: the loop ranges over code points and keeps
  their low byte, and U+0130 ends in the byte of the digit 0.
\<close>

definition dotted_I_address :: string where
  "dotted_I_address = ''0x'' @ concat (replicate 20 [char_of (196 :: nat), char_of (176 :: nat)])"


text \<open>C2. On ASCII text \<open>IsHexAddress\<close> decides exactly the addresses with a \<open>0x\<close> or \<open>0X\<close> prefix and forty hex
  digits, and what it accepts decodes to twenty bytes.\<close>

theorem IsHexAddress_ascii_exact:
  assumes "\<forall>c \<in> set s. (of_char c :: nat) < 128"
  shows "(IsHexAddress s \<longleftrightarrow> length s = 42 \<and> (take 2 s = ''0x'' \<or> take 2 s = ''0X'')
     \<and> (\<forall>c \<in> set (drop 2 s). from_hex_char c \<noteq> None)) \<and>
   (IsHexAddress s \<longrightarrow> length (FromHex s) = AddressLength)"
  using IsHexAddress_ascii [OF assms] IsHexAddress_decodes [OF assms] by blast

definition sample_address :: string where
  "sample_address = ''0x'' @ replicate 40 (CHR ''a'')"

lemma IsHexAddress_ascii_exact_witness:
  "IsHexAddress sample_address \<and> length (FromHex sample_address) = 20"
proof -
  have "\<forall>c \<in> set sample_address. (of_char c :: nat) < 128" "IsHexAddress sample_address"
    by code_simp+
  then show ?thesis
    using IsHexAddress_ascii_exact [of sample_address] by (simp add: AddressLength_def)
qed

text \<open>C3. Addresses and hashes survive their text form: decoding what \<open>Hex\<close> printed gives the value back, for
  the checksummed address whatever the hash function decides about the case of its letters.\<close>

theorem hex_text_roundtrip:
  assumes "is_Address a" and "is_Hash h"
  shows "HexToAddress (Address_Hex keccak a) = a \<and> HexToHash (Hash_Hex h) = h"
  using assms by (simp add: HexToAddress_Address_Hex)

lemma hex_text_roundtrip_witness:
  "HexToAddress (Address_Hex (\<lambda>_. replicate 32 255) (replicate 20 171)) = replicate 20 171 \<and>
   HexToHash (Hash_Hex (replicate 32 205)) = replicate 32 205"
  by (rule hex_text_roundtrip) (simp_all add: is_Address_def is_Hash_def AddressLength_def HashLength_def)

text \<open>C4. The JSON quantities survive the round trip through their hex text: big integers of either sign,
  64-bit numbers and byte strings.\<close>

theorem hexutil_roundtrip:
  assumes "is_u64 u"
  shows "Big_UnmarshalJSON (JString (Big_MarshalJSON i)) = Inr i \<and>
    Uint64_UnmarshalJSON (JString (Uint64_MarshalJSON u)) = Inr u \<and>
    Bytes_UnmarshalJSON (JString (Bytes_MarshalJSON b)) = Inr b"
  using assms by (simp add: Big_roundtrip Uint64_roundtrip Bytes_roundtrip)

lemma hexutil_roundtrip_witness:
  "Big_UnmarshalJSON (JString (Big_MarshalJSON (-300))) = Inr (-300) \<and>
   Uint64_UnmarshalJSON (JString (Uint64_MarshalJSON 18446744073709551615)) = Inr 18446744073709551615 \<and>
   Bytes_UnmarshalJSON (JString (Bytes_MarshalJSON [1, 2])) = Inr [1, 2]"
  by (rule hexutil_roundtrip) (simp add: is_u64_def)

end
