(* ===== verification/World.thy ===== *)
theory World
  imports Eth_Common "HOL-Library.State_Monad"
begin

text \<open>
  What the indexer's loops act on: the database's tables, the node, and the ways calls to either can
  fail.  A Go function with a context, a database and a node is a \<open>(world, 'a) state\<close>; a Go result
  \<open>(v, err)\<close> is a value of \<open>'e + 'v\<close>, so the \<open>do\<close> blocks of the other theories follow the source
  statement by statement.

  \<^item> Every database call is one transaction and takes one entry of \<open>faults\<close>: \<open>Fine\<close> runs it, \<open>Refused\<close>
    fails it with nothing changed, \<open>AckLost\<close> commits it and then reports an error (the lost
    acknowledgement the realtime loop's comments describe).  An empty list means no more faults.
  \<^item> A node call takes the node's answer at that moment: the answers are functions of the number of
    node calls made so far (\<open>calls\<close>), so a chain may reorganise between any two calls.
\<close>

section \<open>Rows\<close>

text \<open>\<open>types.Block\<close> without \<open>CreatedAt\<close>, which the database sets and no code of the indexer reads.\<close>

record block =
  bNumber :: u64
  bHash :: string
  bParentHash :: string
  bTimestamp :: u64
  bGasUsed :: u64
  bGasLimit :: u64
  bBaseFeePerGas :: "u64 option"
  bTransactionCount :: nat
  bSize :: u64
  bDifficulty :: string
  bTotalDifficulty :: string
  bNonce :: string
  bMiner :: string
  bExtraData :: string
  bStateRoot :: string
  bTransactionsRoot :: string
  bReceiptsRoot :: string

record block_range =
  rID :: nat
  FromNumber :: u64
  ToNumber :: u64
  rCreatedAt :: nat

record indexer_progress =
  pID :: nat
  MinFetchedBlock :: u64
  MaxFetchedBlock :: u64
  BackfillComplete :: bool
  pUpdatedAt :: nat

text \<open>
  The rows of the history tables, with the columns the writer sets (ids and creation times are the
  database's).
\<close>

record transaction =
  txHash :: string
  txBlockNumber :: u64
  txBlockTimestamp :: "u64 option"
  txIndex :: nat
  txFrom :: string
  txTo :: "string option"
  txValue :: string
  txGasUsed :: u64
  txGasPrice :: u64
  txGasLimit :: "u64 option"
  txMaxFeePerGas :: "u64 option"
  txMaxPriorityFeePerGas :: "u64 option"
  txNonce :: "u64 option"
  txType :: nat
  txInputData :: string
  txStatus :: nat
  txError :: "string option"
  txRevertReason :: "string option"
  txCategories :: nat

record log_row =
  lgTxHash :: string
  lgLogIndex :: nat
  lgAddress :: string
  lgTopics :: "string list"
  lgData :: string
  lgBlockNumber :: u64
  lgTimestamp :: "u64 option"
  lgRemoved :: bool

record token_transfer =
  ttTxHash :: string
  ttLogIndex :: nat
  ttTokenAddress :: string
  ttFrom :: string
  ttTo :: string
  ttValue :: string
  ttBlockNumber :: u64
  ttTimestamp :: "u64 option"
  ttTransferType :: string
  ttTokenType :: string
  ttTokenID :: "string option"
  ttIsInternal :: bool

record internal_transaction =
  itTxHash :: string
  itBlockNumber :: u64
  itTraceAddress :: string
  itFrom :: string
  itTo :: "string option"
  itValue :: string
  itGas :: "u64 option"
  itGasUsed :: "u64 option"
  itInput :: "string option"
  itOutput :: "string option"
  itCallType :: string
  itError :: "string option"
  itTimestamp :: "u64 option"

record contract =
  coAddress :: string
  coBytecode :: string
  coBytecodeHash :: "string option"
  coCreator :: string
  coCreationTx :: string
  coBlockNumber :: u64

record token =
  tkAddress :: string
  tkSymbol :: string
  tkName :: "string option"
  tkDecimals :: int
  tkTokenType :: string
  tkTotalSupply :: "int option"
  tkHolderCount :: int
  tkTransferCount :: int
  tkL1Address :: "string option"
  tkBlockNumber :: u64
  tkCreationTx :: "string option"

record nft_token =
  nfTokenAddress :: string
  nfTokenID :: string
  nfOwner :: string
  nfTokenURI :: "string option"
  nfBlockNumber :: int

record op_deposit =
  odL2TxHash :: string
  odL1BlockNumber :: u64
  odL1BlockTimestamp :: "u64 option"
  odL1TxHash :: string
  odL1TxOrigin :: string

text \<open>
  The tables of statistics.  \<open>address_stats\<close> has one row per address; \<open>balances\<close> is the history of balance
  reads and \<open>token_balances_current\<close> the latest of each (token, holder); \<open>balance_rereads\<close> holds the requests
  to read a balance again after a revert, under the sequence \<open>balance_reorg_epoch\<close> (0 before its first
  use).  Days are counted from the epoch.
\<close>

record address_stat =
  asAddress :: string
  asTxCount :: int
  asInternalTxCount :: int
  asTokenTransferCount :: int
  asSentCount :: int
  asFirstSeen :: "u64 option"
  asLastSeen :: "u64 option"
  asIsContract :: bool

record balance =
  baAddress :: string
  baTokenAddress :: string
  baBlockNumber :: u64
  baBalance :: int
  baEpoch :: nat

text \<open>A (token, holder) pair, both in lower case, and a row of the two tables of balances.\<close>

type_synonym balance_key = "string \<times> string"

record balance_row =
  brKey :: balance_key
  brBlock :: u64
  brBalance :: int

record reread =
  reKey :: balance_key
  reEpoch :: nat
  reOpen :: bool
  reAttempts :: nat

record daily_acc =
  dayDate :: nat
  dayFirstBlock :: "int option"

text \<open>
  \<open>ledger_last_seen\<close> is what the closed spans of the ledger, and the backfill's open one, hold as the last
  block of an address.
\<close>

record address_tables =
  address_stats :: "address_stat list"
  ledger_reverted_address :: "string list"
  ledger_last_seen :: "string \<Rightarrow> u64 option"

record balance_tables =
  balances :: "balance_row list"
  token_balances_current :: "balance_row list"
  balance_reorg_epoch :: nat
  balance_rereads :: "reread list"

text \<open>
  \<open>daily_watermark\<close> is the one row of \<open>daily_stats_watermark\<close> (its last block and generation), if there is
  one.  The last three fields are the \<open>lateDays\<close> the process keeps in memory.
\<close>

record daily_tables =
  daily_watermark :: "(int \<times> nat) option"
  daily_stats_acc :: "daily_acc list"
  daily_active_addresses :: "(nat \<times> string) list"
  pruned_through_ts :: nat
  late_watermark :: "int option"
  late_days :: "nat list"
  late_searched :: bool

section \<open>The node's answers\<close>

record raw_transaction =
  rtHash :: bytes
  rtFrom :: bytes
  rtTo :: "bytes option"
  rtValue :: "int option"
  rtGas :: u64
  rtGasPrice :: "int option"
  rtInput :: bytes
  rtNonce :: "u64 option"
  rtType :: u64
  rtMaxFeePerGas :: "int option"
  rtMaxPriorityFeePerGas :: "int option"

record raw_block =
  rbNumber :: "int option"
  rbHash :: bytes
  rbParentHash :: bytes
  rbTimestamp :: u64
  rbGasUsed :: u64
  rbGasLimit :: u64
  rbBaseFeePerGas :: "int option"
  rbMiner :: bytes
  rbDifficulty :: "int option"
  rbTotalDifficulty :: "int option"
  rbSize :: u64
  rbNonce :: bytes
  rbExtraData :: bytes
  rbStateRoot :: bytes
  rbTransactionsRoot :: bytes
  rbReceiptsRoot :: bytes
  rbTransactions :: "raw_transaction list"

record log_entry =
  leAddress :: bytes
  leTopics :: "bytes list"
  leData :: bytes
  leIndex :: nat
  leRemoved :: bool

record receipt =
  rcStatus :: u64
  rcGasUsed :: u64
  rcContractAddress :: bytes
  rcLogs :: "log_entry list"

type_synonym receipts = "bytes \<Rightarrow> receipt option"

text \<open>
  Errors of a call to the node: a call that did not come back, with its text; an error the node answered
  with (\<open>rpclient.RPCError\<close>); and what the client makes of other answers.
\<close>

datatype rpc_error =
    Transport string | Answer int string | BlockNotAvailable | BlockNotFound | ReceiptNotFound
  | ReceiptsIncomplete u64 | ReceiptsNull u64 | ReceiptsUnavailable u64 | NotTraced | TraceTimedOut

text \<open>The call tracer's frames, and one transaction's entry in a block's traces.\<close>

datatype call_frame =
  CallFrame (cfType: string) (cfFrom: string) (cfTo: string) (cfValue: "int option") (cfGas: u64) (cfGasUsed: u64)
    (cfInput: string) (cfOutput: string) (cfError: string) (cfCalls: "call_frame list")

record trace_entry =
  teTxHash :: string
  teResult :: "call_frame option"
  teError :: string

text \<open>
  The methods of the node, as it answers them at the given call: \<open>eth_getBlockByNumber\<close>,
  \<open>eth_blockNumber\<close>, \<open>eth_getBlockReceipts\<close> (\<open>None\<close> for null), \<open>eth_getLogs\<close> of one block,
  \<open>eth_getTransactionReceipt\<close>, \<open>eth_call\<close> and \<open>eth_getCode\<close> (at latest when no block is given),
  \<open>debug_traceBlockByNumber\<close> and \<open>debug_traceTransaction\<close>.  Receipts and logs come with the hash of their
  transaction.
\<close>

record node =
  nodeBlock :: "nat \<Rightarrow> u64 \<Rightarrow> rpc_error + raw_block"
  nodeHead :: "nat \<Rightarrow> rpc_error + u64"
  nodeBlockReceipts :: "nat \<Rightarrow> u64 \<Rightarrow> rpc_error + (bytes \<times> receipt) list option"
  nodeLogs :: "nat \<Rightarrow> u64 \<Rightarrow> rpc_error + (bytes \<times> log_entry) list"
  nodeReceipt :: "nat \<Rightarrow> bytes \<Rightarrow> rpc_error + receipt option"
  nodeCall :: "nat \<Rightarrow> bytes \<Rightarrow> bytes \<Rightarrow> rpc_error + bytes"
  nodeCode :: "nat \<Rightarrow> bytes \<Rightarrow> u64 option \<Rightarrow> rpc_error + bytes"
  nodeTraceBlock :: "nat \<Rightarrow> u64 \<Rightarrow> rpc_error + trace_entry list"
  nodeTraceTx :: "nat \<Rightarrow> bytes \<Rightarrow> rpc_error + call_frame option"

text \<open>An item of the balance pool's queue (\<open>BalanceWork\<close>).\<close>

record balance_work =
  bwAddress :: bytes
  bwToken :: bytes
  bwBlock :: u64
  bwEpoch :: nat

section \<open>The world\<close>

text \<open>
  \<open>keccak256\<close> is the hash function of \<open>golang.org/x/crypto/sha3\<close>, which address checksums use.
  \<open>partition_of\<close> is the partition of the history tables a block's rows go to, which scopes their unique
  keys (migration 014); \<open>pruned_counts\<close> is what the pruned spans of the ledger hold for a token: its
  transfers and its supply.

  The last fields are the process's own: the two caches of known addresses, and the balance pool's epoch
  (\<open>None\<close> when the pool is off) and queue.  \<open>crashed\<close> is set where the code panics: what the model does after
  that is no behaviour of the program, so a claim about a run is a claim about the runs that do not crash.
\<close>

datatype db_error =
    ConnLost | UniqueViolation | CheckViolation | NoRows | StoredBlockDiffers u64 string string
  | LogIndexPerTransaction u64 nat | InvalidValue string | DayPruned u64 nat

datatype fault = Fine | Refused | AckLost

record world =
  blocks :: "block list"
  transactions :: "transaction list"
  logs :: "log_row list"
  token_transfers :: "token_transfer list"
  internal_transactions :: "internal_transaction list"
  contracts :: "contract list"
  tokens :: "token list"
  nft_tokens :: "nft_token list"
  op_deposits :: "op_deposit list"
  chain_counters :: "string \<rightharpoonup> int"
  addr :: address_tables
  bal :: balance_tables
  daily :: daily_tables
  keccak256 :: "bytes \<Rightarrow> bytes"
  partition_of :: "u64 \<Rightarrow> nat"
  pruned_counts :: "string \<Rightarrow> nat \<times> int"
  missing_block_ranges :: "block_range list"
  missing_seq :: nat
  indexer_progress_rows :: "indexer_progress list"
  pruned_through :: u64
  db_clock :: nat
  faults :: "fault list"
  node :: node
  calls :: nat
  ctx_done :: "nat \<Rightarrow> bool"
  sync_status :: "(u64 \<times> bool) option"
  token_cache :: "string list"
  contract_cache :: "string list"
  pool_epoch :: "nat option"
  pool_queue :: "balance_work list"
  crashed :: bool

type_synonym 'a dbm = "(world, db_error + 'a) state"
type_synonym 'a rpcm = "(world, rpc_error + 'a) state"

text \<open>A transaction: its body's error rolls it back; the fault of this call decides the rest.\<close>

definition run_tx :: "(world \<Rightarrow> db_error + 'a \<times> world) \<Rightarrow> 'a dbm" where
  "run_tx body = State (\<lambda>w.
     case faults w of
       [] \<Rightarrow> (case body w of Inl e \<Rightarrow> (Inl e, w) | Inr (a, w') \<Rightarrow> (Inr a, w'))
     | f # fs \<Rightarrow>
         (let w1 = w\<lparr>faults := fs\<rparr> in
          case f of
            Fine \<Rightarrow> (case body w1 of Inl e \<Rightarrow> (Inl e, w1) | Inr (a, w') \<Rightarrow> (Inr a, w'))
          | Refused \<Rightarrow> (Inl ConnLost, w1)
          | AckLost \<Rightarrow> (case body w1 of Inl e \<Rightarrow> (Inl e, w1) | Inr (a, w') \<Rightarrow> (Inl ConnLost, w'))))"

text \<open>A query: no change to the tables.\<close>

definition run_query :: "(world \<Rightarrow> 'a) \<Rightarrow> 'a dbm" where
  "run_query q = run_tx (\<lambda>w. Inr (q w, w))"

definition tx_of :: "(world \<Rightarrow> db_error + world) \<Rightarrow> unit dbm" where
  "tx_of f = run_tx (\<lambda>w. case f w of Inl e \<Rightarrow> Inl e | Inr w' \<Rightarrow> Inr ((), w'))"

text \<open>A call to the node, and a look at the context: answers are indexed by the number of calls so far.\<close>

definition run_call :: "(node \<Rightarrow> nat \<Rightarrow> 'a) \<Rightarrow> (world, 'a) state" where
  "run_call f = State (\<lambda>w. (f (node w) (calls w), w\<lparr>calls := calls w + 1\<rparr>))"

definition ctx_Err :: "(world, bool) state" where
  "ctx_Err = State (\<lambda>w. (ctx_done w (calls w), w\<lparr>calls := calls w + 1\<rparr>))"

section \<open>Reasoning about world programs\<close>

text \<open>
  \<open>keeps I m\<close>: running \<open>m\<close> preserves \<open>I\<close>, whatever the faults and the node do.  \<open>spec P m Q\<close>: from a
  world in \<open>P\<close>, \<open>m\<close> returns a value and a world in \<open>Q\<close>.  Programs are total functions, so both are
  total-correctness statements.
\<close>

named_theorems keeps_intros

definition keeps :: "(world \<Rightarrow> bool) \<Rightarrow> (world, 'a) state \<Rightarrow> bool" where
  "keeps I m \<longleftrightarrow> (\<forall>w. I w \<longrightarrow> I (snd (run_state m w)))"

definition spec :: "(world \<Rightarrow> bool) \<Rightarrow> (world, 'a) state \<Rightarrow> ('a \<Rightarrow> world \<Rightarrow> bool) \<Rightarrow> bool" where
  "spec P m Q \<longleftrightarrow> (\<forall>w. P w \<longrightarrow> Q (fst (run_state m w)) (snd (run_state m w)))"

lemma run_state_bind_split:
  "run_state (State_Monad.bind m f) w = run_state (f (fst (run_state m w))) (snd (run_state m w))"
  by (simp split: prod.split)

lemma keepsI: "(\<And>w. I w \<Longrightarrow> I (snd (run_state m w))) \<Longrightarrow> keeps I m"
  by (simp add: keeps_def)

lemma keepsD: "keeps I m \<Longrightarrow> I w \<Longrightarrow> I (snd (run_state m w))"
  by (simp add: keeps_def)

lemma keeps_return [keeps_intros]: "keeps I (State_Monad.return a)"
  by (simp add: keeps_def)

lemma keeps_bind [keeps_intros]:
  "keeps I m \<Longrightarrow> (\<And>a. keeps I (f a)) \<Longrightarrow> keeps I (State_Monad.bind m f)"
  by (simp add: keeps_def run_state_bind_split del: run_state_bind)

lemma keeps_if [keeps_intros]:
  "(b \<Longrightarrow> keeps I m) \<Longrightarrow> (\<not> b \<Longrightarrow> keeps I n) \<Longrightarrow> keeps I (if b then m else n)"
  by simp

lemma keeps_case_sum [keeps_intros]:
  "(\<And>e. r = Inl e \<Longrightarrow> keeps I (f e)) \<Longrightarrow> (\<And>a. r = Inr a \<Longrightarrow> keeps I (g a)) \<Longrightarrow>
   keeps I (case r of Inl e \<Rightarrow> f e | Inr a \<Rightarrow> g a)"
  by (cases r) auto

lemma keeps_case_option [keeps_intros]:
  "(r = None \<Longrightarrow> keeps I f) \<Longrightarrow> (\<And>a. r = Some a \<Longrightarrow> keeps I (g a)) \<Longrightarrow>
   keeps I (case r of None \<Rightarrow> f | Some a \<Rightarrow> g a)"
  by (cases r) auto

lemma keeps_case_prod [keeps_intros]:
  "(\<And>a b. p = (a, b) \<Longrightarrow> keeps I (f a b)) \<Longrightarrow> keeps I (case p of (a, b) \<Rightarrow> f a b)"
  by (cases p) auto

lemma keeps_Let [keeps_intros]: "(\<And>x. x = v \<Longrightarrow> keeps I (f x)) \<Longrightarrow> keeps I (Let v f)"
  by (simp add: Let_def)

text \<open>An invariant that does not read the fault list or the call count survives queries and calls.\<close>

definition table_inv :: "(world \<Rightarrow> bool) \<Rightarrow> bool" where
  "table_inv I \<longleftrightarrow> (\<forall>w fs k. I w \<longrightarrow> I (w\<lparr>faults := fs\<rparr>) \<and> I (w\<lparr>calls := k\<rparr>))"

lemma table_invD: "table_inv I \<Longrightarrow> I w \<Longrightarrow> I (w\<lparr>faults := fs\<rparr>)" "table_inv I \<Longrightarrow> I w \<Longrightarrow> I (w\<lparr>calls := k\<rparr>)"
  by (auto simp: table_inv_def)

text \<open>Rules for \<open>spec\<close>.\<close>

lemma spec_bind: "spec P m R \<Longrightarrow> (\<And>a. spec (R a) (f a) Q) \<Longrightarrow> spec P (State_Monad.bind m f) Q"
  by (simp add: spec_def run_state_bind_split del: run_state_bind)

lemma spec_return: "(\<And>w. P w \<Longrightarrow> Q a w) \<Longrightarrow> spec P (State_Monad.return a) Q"
  by (simp add: spec_def)

lemma spec_pure: "(F \<Longrightarrow> spec P m Q) \<Longrightarrow> spec (\<lambda>w. P w \<and> F) m Q"
  by (auto simp: spec_def)

lemma spec_run: "(\<And>w r w'. P w \<Longrightarrow> run_state m w = (r, w') \<Longrightarrow> Q r w') \<Longrightarrow> spec P m Q"
  by (auto simp: spec_def)

lemma specD: "spec P m Q \<Longrightarrow> P w \<Longrightarrow> run_state m w = (r, w') \<Longrightarrow> Q r w'"
  by (auto simp: spec_def dest: spec [of _ w])

lemma keeps_run_tx:
  assumes "table_inv I" and "\<And>w a w'. I w \<Longrightarrow> body w = Inr (a, w') \<Longrightarrow> I w'"
  shows "keeps I (run_tx body)"
proof (rule keepsI)
  fix w assume "I w"
  then have w1: "I (w\<lparr>faults := fs\<rparr>)" for fs
    using table_invD(1) [OF assms(1)] by simp
  have "I w'" if "body v = Inr (a, w')" "I v" for v a w'
    using assms(2) that by blast
  then show "I (snd (run_state (run_tx body) w))"
    using \<open>I w\<close> w1
    by (auto simp: run_tx_def Let_def split: list.splits fault.splits sum.splits)
qed

lemma keeps_run_query: "table_inv I \<Longrightarrow> keeps I (run_query q)"
  unfolding run_query_def by (rule keeps_run_tx) auto

lemma keeps_run_call: "table_inv I \<Longrightarrow> keeps I (run_call f)"
  by (auto simp: keeps_def run_call_def table_invD)

lemma keeps_ctx_Err: "table_inv I \<Longrightarrow> keeps I ctx_Err"
  by (auto simp: keeps_def ctx_Err_def table_invD)

lemma keeps_tx_of:
  "table_inv I \<Longrightarrow> (\<And>w w'. I w \<Longrightarrow> f w = Inr w' \<Longrightarrow> I w') \<Longrightarrow> keeps I (tx_of f)"
  unfolding tx_of_def by (rule keeps_run_tx) (auto split: sum.splits)

text \<open>A transaction changes the tables as its body says, or leaves them; success means it did.\<close>

lemma tx_of_cases:
  obtains (ok) w' where "f (w\<lparr>faults := tl (faults w)\<rparr>) = Inr w'" "run_state (tx_of f) w = (Inr (), w')"
  | (error) e where "f (w\<lparr>faults := tl (faults w)\<rparr>) = Inl e"
      "run_state (tx_of f) w = (Inl e, w\<lparr>faults := tl (faults w)\<rparr>)"
  | (refused) "run_state (tx_of f) w = (Inl ConnLost, w\<lparr>faults := tl (faults w)\<rparr>)" "faults w \<noteq> []"
  | (acklost) w' where "f (w\<lparr>faults := tl (faults w)\<rparr>) = Inr w'" "run_state (tx_of f) w = (Inl ConnLost, w')"
      "faults w \<noteq> []"
proof (cases "faults w")
  case Nil
  then have w: "w\<lparr>faults := []\<rparr> = w"
    by (cases w) simp
  show ?thesis
    using Nil by (cases "f w") (auto intro: ok error simp: tx_of_def run_tx_def w)
next
  case (Cons x xs)
  then show ?thesis
    by (cases x; cases "f (w\<lparr>faults := xs\<rparr>)")
      (auto intro: ok error refused acklost simp: tx_of_def run_tx_def Let_def)
qed

text \<open>A query's answer is the table's, or an error; the tables stay.\<close>

lemma run_query_cases:
  obtains (ok) "fst (run_state (run_query q) w) = Inr (q (w\<lparr>faults := tl (faults w)\<rparr>))"
    "snd (run_state (run_query q) w) = w\<lparr>faults := tl (faults w)\<rparr>"
  | (fail) "fst (run_state (run_query q) w) = Inl ConnLost"
    "snd (run_state (run_query q) w) = w\<lparr>faults := tl (faults w)\<rparr>" "faults w \<noteq> []"
proof (cases "faults w")
  case Nil
  then have w: "w\<lparr>faults := []\<rparr> = w"
    by (cases w) simp
  show ?thesis
    using Nil by (intro ok) (simp_all add: run_query_def run_tx_def w)
next
  case (Cons f fs)
  then show ?thesis
    by (cases f) (auto intro: ok fail simp: run_query_def run_tx_def Let_def)
qed

text \<open>With no fault pending, a database call runs its body and a query answers from the tables.\<close>

lemma run_tx_no_fault:
  "faults w = [] \<Longrightarrow> run_state (run_tx body) w =
     (case body w of Inl e \<Rightarrow> (Inl e, w) | Inr (a, w') \<Rightarrow> (Inr a, w'))"
  by (simp add: run_tx_def)

lemma run_query_no_fault: "faults w = [] \<Longrightarrow> run_state (run_query q) w = (Inr (q w), w)"
  by (simp add: run_query_def run_tx_def)

lemma run_state_run_call [simp]:
  "run_state (run_call f) w = (f (node w) (calls w), w\<lparr>calls := calls w + 1\<rparr>)"
  by (simp add: run_call_def)

lemma run_state_ctx_Err [simp]:
  "run_state ctx_Err w = (ctx_done w (calls w), w\<lparr>calls := calls w + 1\<rparr>)"
  by (simp add: ctx_Err_def)

lemma tx_of_no_fault:
  "faults w = [] \<Longrightarrow> run_state (tx_of f) w = (case f w of Inl e \<Rightarrow> (Inl e, w) | Inr w' \<Rightarrow> (Inr (), w'))"
  by (simp add: tx_of_def run_tx_no_fault split: sum.splits)

lemmas no_fault_simps = run_tx_no_fault run_query_no_fault tx_of_no_fault

section \<open>A sample\<close>

text \<open>An empty database and a quiet node at block 3: the input of many examples below.\<close>

definition sample_node :: node where
  "sample_node = \<lparr>nodeBlock = (\<lambda>_ _. Inl BlockNotAvailable), nodeHead = (\<lambda>_. Inr 3),
     nodeBlockReceipts = (\<lambda>_ _. Inr None), nodeLogs = (\<lambda>_ _. Inr []), nodeReceipt = (\<lambda>_ _. Inr None),
     nodeCall = (\<lambda>_ _ _. Inr []), nodeCode = (\<lambda>_ _ _. Inr []), nodeTraceBlock = (\<lambda>_ _. Inr []),
     nodeTraceTx = (\<lambda>_ _. Inr None)\<rparr>"

definition empty_world :: world where
  "empty_world = \<lparr>blocks = [], transactions = [], logs = [], token_transfers = [], internal_transactions = [],
     contracts = [], tokens = [], nft_tokens = [], op_deposits = [], chain_counters = Map.empty,
     addr = \<lparr>address_stats = [], ledger_reverted_address = [], ledger_last_seen = (\<lambda>_. None)\<rparr>,
     bal = \<lparr>balances = [], token_balances_current = [], balance_reorg_epoch = 0, balance_rereads = []\<rparr>,
     daily = \<lparr>daily_watermark = None, daily_stats_acc = [], daily_active_addresses = [], pruned_through_ts = 0,
              late_watermark = None, late_days = [], late_searched = False\<rparr>,
     keccak256 = (\<lambda>_. replicate 32 0), partition_of = (\<lambda>_. 0), pruned_counts = (\<lambda>_. (0, 0)), missing_block_ranges = [], missing_seq = 1,
     indexer_progress_rows = [], pruned_through = 0, db_clock = 0, faults = [], node = sample_node,
     calls = 0, ctx_done = (\<lambda>_. False), sync_status = None, token_cache = [], contract_cache = [], pool_epoch = None,
     pool_queue = [], crashed = False\<rparr>"

end
