(* ===== verification/Missing_Ranges.thy ===== *)
theory Missing_Ranges
  imports World
begin

text \<open>
  \<open>internal/db/missing_ranges.go\<close>: the table of block ranges catch-up still has to index, the
  collector's progress row, and the gap scan over the blocks table.

  A SQL statement is a function on the rows it names.  \<open>missing_block_ranges\<close> carries the table's
  constraints: \<open>CHECK (from_number <= to_number)\<close> and \<open>UNIQUE (from_number, to_number)\<close>
  (migration 001); \<open>wf_missing\<close> is what they and the serial id keep true.  \<open>mcover\<close> is what the table
  means: the set of blocks recorded as missing.
\<close>

section \<open>The table\<close>

definition history_from :: "world \<Rightarrow> nat" where
  "history_from w = (if 0 < pruned_through w then pruned_through w + 1 else 0)"

definition stored_number :: "world \<Rightarrow> nat \<Rightarrow> bool" where
  "stored_number w n \<longleftrightarrow> (\<exists>b \<in> set (blocks w). bNumber b = n)"

definition has_range :: "nat \<Rightarrow> nat \<Rightarrow> world \<Rightarrow> bool" where
  "has_range f t w \<longleftrightarrow> (\<exists>r \<in> set (missing_block_ranges w). FromNumber r = f \<and> ToNumber r = t)"

definition new_range :: "nat \<Rightarrow> nat \<Rightarrow> world \<Rightarrow> block_range" where
  "new_range f t w = \<lparr>rID = missing_seq w, FromNumber = f, ToNumber = t, rCreatedAt = db_clock w\<rparr>"

text \<open>\<open>INSERT ... VALUES (f, t)\<close>, plain and with \<open>ON CONFLICT DO NOTHING\<close>; the serial id is taken either way.\<close>

definition insert_range :: "nat \<Rightarrow> nat \<Rightarrow> world \<Rightarrow> db_error + world" where
  "insert_range f t w =
     (if t < f then Inl CheckViolation
      else if has_range f t w then Inl UniqueViolation
      else Inr (w\<lparr>missing_block_ranges := missing_block_ranges w @ [new_range f t w],
                  missing_seq := missing_seq w + 1\<rparr>))"

definition insert_range_or_nothing :: "nat \<Rightarrow> nat \<Rightarrow> world \<Rightarrow> db_error + world" where
  "insert_range_or_nothing f t w =
     (if t < f then Inl CheckViolation
      else if has_range f t w then Inr (w\<lparr>missing_seq := missing_seq w + 1\<rparr>)
      else Inr (w\<lparr>missing_block_ranges := missing_block_ranges w @ [new_range f t w],
                  missing_seq := missing_seq w + 1\<rparr>))"

definition delete_ranges :: "(block_range \<Rightarrow> bool) \<Rightarrow> world \<Rightarrow> world" where
  "delete_ranges p w = w\<lparr>missing_block_ranges := filter (\<lambda>r. \<not> p r) (missing_block_ranges w)\<rparr>"

section \<open>The progress row\<close>

definition zero_progress :: indexer_progress where
  "zero_progress = \<lparr>pID = 0, MinFetchedBlock = 0, MaxFetchedBlock = 0, BackfillComplete = False, pUpdatedAt = 0\<rparr>"

text \<open>\<open>ORDER BY id LIMIT 1\<close>.\<close>

definition first_progress :: "world \<Rightarrow> indexer_progress option" where
  "first_progress w = (case sort_key pID (indexer_progress_rows w) of [] \<Rightarrow> None | p # _ \<Rightarrow> Some p)"

definition GetIndexerProgress :: "indexer_progress dbm" where
  "GetIndexerProgress = run_query (\<lambda>w. case first_progress w of None \<Rightarrow> zero_progress | Some p \<Rightarrow> p)"

definition UpdateIndexerProgress :: "u64 \<Rightarrow> u64 \<Rightarrow> bool \<Rightarrow> unit dbm" where
  "UpdateIndexerProgress minBlock maxBlock backfillComplete = run_tx (\<lambda>w.
     case first_progress w of
       None \<Rightarrow> Inr ((), w)
     | Some q \<Rightarrow> Inr ((), w\<lparr>indexer_progress_rows :=
         map (\<lambda>p. if pID p = pID q
                  then p\<lparr>MinFetchedBlock := minBlock, MaxFetchedBlock := maxBlock,
                         BackfillComplete := backfillComplete, pUpdatedAt := db_clock w\<rparr>
                  else p) (indexer_progress_rows w)\<rparr>))"

section \<open>Writing and reading ranges\<close>

fun save_ranges :: "block_range list \<Rightarrow> world \<Rightarrow> db_error + world" where
  "save_ranges [] w = Inr w"
| "save_ranges (r # rs) w =
     (case insert_range_or_nothing (FromNumber r) (ToNumber r) w of
        Inl e \<Rightarrow> Inl e
      | Inr w' \<Rightarrow> save_ranges rs w')"

text \<open>The batch of inserts is sent with one sync, so it is one transaction.\<close>

definition SaveMissingRanges :: "block_range list \<Rightarrow> unit dbm" where
  "SaveMissingRanges ranges =
     (if length ranges = 0 then State_Monad.return (Inr ())
      else tx_of (save_ranges ranges))"

definition clip_from :: "nat \<Rightarrow> block_range \<Rightarrow> block_range" where
  "clip_from lo r = r\<lparr>FromNumber := max (FromNumber r) lo\<rparr>"

text \<open>Ranges from \<open>history_from()\<close> up, highest \<open>from_number\<close> first.\<close>

definition GetMissingRangesBatch :: "nat \<Rightarrow> block_range list dbm" where
  "GetMissingRangesBatch batchSize = run_query (\<lambda>w.
     map (clip_from (history_from w))
       (take batchSize (rev (sort_key FromNumber
         (filter (\<lambda>r. history_from w \<le> ToNumber r) (missing_block_ranges w))))))"

definition GetLowestMissingRanges :: "nat \<Rightarrow> u64 list \<Rightarrow> block_range list dbm" where
  "GetLowestMissingRanges limit skip = run_query (\<lambda>w.
     take limit (sort_key FromNumber
       (filter (\<lambda>r. FromNumber r \<notin> set skip)
         (map (clip_from (history_from w))
           (filter (\<lambda>r. history_from w \<le> ToNumber r) (missing_block_ranges w))))))"

definition DeleteMissingRange :: "nat \<Rightarrow> unit dbm" where
  "DeleteMissingRange i = tx_of (\<lambda>w. Inr (delete_ranges (\<lambda>r. rID r = i) w))"

definition DeleteMissingRangeByBlock :: "u64 \<Rightarrow> unit dbm" where
  "DeleteMissingRangeByBlock n =
     tx_of (\<lambda>w. Inr (delete_ranges (\<lambda>r. FromNumber r \<le> n \<and> n \<le> ToNumber r) w))"

text \<open>
  \<open>AdvanceMissingRange\<close>: one transaction of an \<open>UPDATE\<close>, which checks the row it changes, and, when it
  changed no row, a \<open>DELETE\<close>.
\<close>

definition advance_range :: "block_range \<Rightarrow> nat \<Rightarrow> world \<Rightarrow> db_error + world" where
  "advance_range r nxt w =
     (if nxt \<le> ToNumber r \<and> (\<exists>q \<in> set (missing_block_ranges w). rID q = rID r) \<and> \<not> has_range nxt (ToNumber r) w
      then (if \<exists>q \<in> set (missing_block_ranges w). rID q = rID r \<and> ToNumber q < nxt then Inl CheckViolation
            else if \<exists>q \<in> set (missing_block_ranges w). rID q = rID r \<and> has_range nxt (ToNumber q) w
            then Inl UniqueViolation
            else Inr (w\<lparr>missing_block_ranges :=
                   map (\<lambda>q. if rID q = rID r then q\<lparr>FromNumber := nxt\<rparr> else q) (missing_block_ranges w)\<rparr>))
      else Inr (delete_ranges (\<lambda>q. rID q = rID r) w))"

definition AdvanceMissingRange :: "block_range \<Rightarrow> u64 \<Rightarrow> unit dbm" where
  "AdvanceMissingRange r nxt = tx_of (advance_range r nxt)"

text \<open>\<open>ShrinkMissingRange\<close> is not one transaction: the row is gone before the rest is inserted.\<close>

definition ShrinkMissingRange :: "nat \<Rightarrow> u64 \<Rightarrow> unit dbm" where
  "ShrinkMissingRange i processedBlock = do {
     sel \<leftarrow> run_tx (\<lambda>w. case filter (\<lambda>r. rID r = i) (missing_block_ranges w) of
                          [] \<Rightarrow> Inl NoRows
                        | r # _ \<Rightarrow> Inr ((FromNumber r, ToNumber r), w));
     case sel of
       Inl e \<Rightarrow> State_Monad.return (Inl e)
     | Inr (fromNum, toNum) \<Rightarrow> do {
         del \<leftarrow> DeleteMissingRange i;
         case del of
           Inl e \<Rightarrow> State_Monad.return (Inl e)
         | Inr _ \<Rightarrow>
             if processedBlock = fromNum then
               (if fromNum < toNum then tx_of (insert_range (u64_add processedBlock 1) toNum)
                else State_Monad.return (Inr ()))
             else if processedBlock = toNum then
               (if fromNum < toNum then tx_of (insert_range fromNum (u64_sub processedBlock 1))
                else State_Monad.return (Inr ()))
             else if fromNum < processedBlock \<and> processedBlock < toNum then
               tx_of (\<lambda>w. case insert_range fromNum (u64_sub processedBlock 1) w of
                             Inl e \<Rightarrow> Inl e
                           | Inr w' \<Rightarrow> insert_range (u64_add processedBlock 1) toNum w')
             else State_Monad.return (Inr ())
       }
   }"

definition GetMissingRangesCount :: "nat dbm" where
  "GetMissingRangesCount = run_query (\<lambda>w. length (missing_block_ranges w))"

definition GetTotalMissingBlocks :: "int dbm" where
  "GetTotalMissingBlocks =
     run_query (\<lambda>w. \<Sum>r \<leftarrow> missing_block_ranges w. int (ToNumber r) - int (FromNumber r) + 1)"

definition RequeueMissingBlock :: "u64 \<Rightarrow> unit dbm" where
  "RequeueMissingBlock blockNum = tx_of (insert_range_or_nothing blockNum blockNum)"

definition ClearMissingRanges :: "unit dbm" where
  "ClearMissingRanges = tx_of (\<lambda>w. Inr (w\<lparr>missing_block_ranges := []\<rparr>))"

section \<open>The gap scan\<close>

text \<open>
  \<open>findMissingBlocksSQL\<close>: the numbers of the series with no stored block, each with its number minus
  its row number; the rows of one difference are one range.
\<close>

definition missing_numbers :: "world \<Rightarrow> nat \<Rightarrow> nat \<Rightarrow> nat list" where
  "missing_numbers w fromBlock toBlock =
     filter (\<lambda>n. \<not> stored_number w n) [max fromBlock (history_from w)..<toBlock + 1]"

definition gap_rows :: "nat list \<Rightarrow> (nat \<times> int) list" where
  "gap_rows ms = map (\<lambda>(i, n). (n, int n - int i)) (enumerate 1 ms)"

definition gap_range :: "(nat \<times> int) list \<Rightarrow> int \<Rightarrow> nat \<times> nat" where
  "gap_range g k = (let ns = map fst (filter (\<lambda>p. snd p = k) g) in (Min (set ns), Max (set ns)))"

definition gap_ranges :: "nat list \<Rightarrow> (nat \<times> nat) list" where
  "gap_ranges ms = (let g = gap_rows ms in rev (sort_key fst (map (gap_range g) (remdups (map snd g)))))"

definition FindMissingBlocksInRange :: "u64 \<Rightarrow> u64 \<Rightarrow> block_range list dbm" where
  "FindMissingBlocksInRange fromBlock toBlock = run_query (\<lambda>w.
     map (\<lambda>(a, b). \<lparr>rID = 0, FromNumber = a, ToNumber = b, rCreatedAt = 0\<rparr>)
       (gap_ranges (missing_numbers w fromBlock toBlock)))"

section \<open>Counting blocks\<close>

definition block_numbers :: "world \<Rightarrow> nat list" where
  "block_numbers w = map bNumber (blocks w)"

definition GetMinMaxIndexedBlocks :: "(u64 \<times> u64) dbm" where
  "GetMinMaxIndexedBlocks = run_query (\<lambda>w.
     if blocks w = [] then (0, 0) else (Min (set (block_numbers w)), Max (set (block_numbers w))))"

definition GetBlockCount :: "nat dbm" where
  "GetBlockCount = run_query (\<lambda>w. length (blocks w))"

definition GetBlockCountInRange :: "u64 \<Rightarrow> u64 \<Rightarrow> nat dbm" where
  "GetBlockCountInRange from to =
     run_query (\<lambda>w. length (filter (\<lambda>b. from \<le> bNumber b \<and> bNumber b \<le> to) (blocks w)))"

definition HasBlock :: "u64 \<Rightarrow> bool dbm" where
  "HasBlock number = run_query (\<lambda>w. stored_number w number)"

text \<open>The statement timeout of a gap scan, in nanoseconds: the stored one, or sixty seconds.\<close>

definition missingScanTimeoutDefault :: int where
  "missingScanTimeoutDefault = 60 * 10 ^ 9"

definition missingScanTimeout :: "int \<Rightarrow> int" where
  "missingScanTimeout stored = (if 0 < stored then stored else missingScanTimeoutDefault)"

section \<open>The gap scan is right\<close>

text \<open>
  On a strictly increasing list the difference of number and row number never falls, and is equal at
  two rows exactly when every number between them is in the list.
\<close>

definition gap_key :: "nat list \<Rightarrow> nat \<Rightarrow> int" where
  "gap_key ms i = int (ms ! i) - int (i + 1)"

lemma gap_rows_nth: "gap_rows ms = map (\<lambda>i. (ms ! i, gap_key ms i)) [0..<length ms]"
  by (rule nth_equalityI) (auto simp: gap_rows_def gap_key_def nth_enumerate_eq)

lemma strict_sorted_gap:
  assumes "sorted_wrt (<) ms" and "i \<le> j" and "j < length ms"
  shows "ms ! i + (j - i) \<le> ms ! j"
  using assms(2,3)
proof (induction j)
  case (Suc j)
  show ?case
  proof (cases "i = Suc j")
    case False
    then have "ms ! i + (j - i) \<le> ms ! j"
      using Suc by simp
    moreover have "ms ! j < ms ! Suc j"
      using assms(1) Suc.prems by (simp add: sorted_wrt_nth_less)
    ultimately show ?thesis
      using False Suc.prems by simp
  qed simp
qed simp

lemma gap_key_mono:
  assumes "sorted_wrt (<) ms" and "i \<le> j" and "j < length ms"
  shows "gap_key ms i \<le> gap_key ms j"
  using strict_sorted_gap [OF assms] assms(2) by (simp add: gap_key_def)

lemma gap_key_eq_between:
  assumes "sorted_wrt (<) ms" and "i \<le> k" and "k \<le> j" and "j < length ms" and "gap_key ms i = gap_key ms j"
  shows "ms ! k = ms ! i + (k - i)"
proof -
  have "gap_key ms i \<le> gap_key ms k" and "gap_key ms k \<le> gap_key ms j"
    using assms(1-4) gap_key_mono [OF assms(1)] by auto
  then show ?thesis
    using assms(2,5) by (simp add: gap_key_def)
qed

definition gap_group :: "nat list \<Rightarrow> int \<Rightarrow> nat set" where
  "gap_group ms k = {ms ! i | i. i < length ms \<and> gap_key ms i = k}"

lemma gap_range_group:
  "gap_range (gap_rows ms) k = (Min (gap_group ms k), Max (gap_group ms k))"
proof -
  have "set (map fst (filter (\<lambda>p. snd p = k) (gap_rows ms))) = gap_group ms k"
    by (fastforce simp: gap_rows_nth gap_group_def image_iff)
  then show ?thesis
    by (simp add: gap_range_def Let_def)
qed

lemma finite_gap_group [simp]: "finite (gap_group ms k)"
  by (simp add: gap_group_def)

lemma gap_group_interval:
  assumes "sorted_wrt (<) ms" and "gap_group ms k \<noteq> {}"
  shows "gap_group ms k = {Min (gap_group ms k)..Max (gap_group ms k)}"
proof
  show "gap_group ms k \<subseteq> {Min (gap_group ms k)..Max (gap_group ms k)}"
    by auto
next
  obtain i j where i: "Min (gap_group ms k) = ms ! i" "i < length ms" "gap_key ms i = k"
    and j: "Max (gap_group ms k) = ms ! j" "j < length ms" "gap_key ms j = k"
    using Min_in [OF _ assms(2)] Max_in [OF _ assms(2)] by (auto simp: gap_group_def)
  show "{Min (gap_group ms k)..Max (gap_group ms k)} \<subseteq> gap_group ms k"
  proof
    fix n assume n: "n \<in> {Min (gap_group ms k)..Max (gap_group ms k)}"
    let ?m = "i + (n - ms ! i)"
    have j': "int (ms ! j) - int (ms ! i) = int j - int i"
      using i(3) j(3) by (simp add: gap_key_def)
    then have m: "i \<le> ?m" "?m \<le> j"
      using n i(1) j(1) by auto
    then have "ms ! ?m = n"
      using gap_key_eq_between [OF assms(1) m j(2)] i j n by simp
    moreover from this have "gap_key ms ?m = k"
      using i(1,3) n by (auto simp: gap_key_def)
    ultimately show "n \<in> gap_group ms k"
      using m(2) j(2) by (auto simp: gap_group_def intro!: exI [of _ ?m])
  qed
qed

lemma gap_group_separated:
  assumes "sorted_wrt (<) ms" and "k < k'" and "n \<in> gap_group ms k" and "n' \<in> gap_group ms k'"
  shows "n + 1 < n'"
proof -
  obtain i j where ij: "n = ms ! i" "i < length ms" "gap_key ms i = k"
    "n' = ms ! j" "j < length ms" "gap_key ms j = k'"
    using assms(3,4) by (auto simp: gap_group_def)
  then have "i < j"
    using assms(1,2) gap_key_mono [of ms j i] by (metis leD leI)
  then show ?thesis
    using ij assms(2) by (auto simp: gap_key_def)
qed

definition gap_keys :: "nat list \<Rightarrow> int set" where
  "gap_keys ms = gap_key ms ` {..<length ms}"

lemma gap_group_not_empty: "k \<in> gap_keys ms \<Longrightarrow> gap_group ms k \<noteq> {}"
  by (auto simp: gap_keys_def gap_group_def)

lemma set_gap_ranges:
  "set (gap_ranges ms) = (\<lambda>k. (Min (gap_group ms k), Max (gap_group ms k))) ` gap_keys ms"
proof -
  have "set (map snd (gap_rows ms)) = gap_keys ms"
    by (auto simp: gap_rows_nth gap_keys_def)
  then show ?thesis
    by (simp add: gap_ranges_def Let_def gap_range_group)
qed

text \<open>The ranges cover exactly the listed numbers.\<close>

lemma cover_gap_ranges:
  assumes "sorted_wrt (<) ms"
  shows "cover (gap_ranges ms) = set ms"
proof -
  have "cover (gap_ranges ms) = (\<Union>k \<in> gap_keys ms. {Min (gap_group ms k)..Max (gap_group ms k)})"
    by (simp add: cover_def set_gap_ranges)
  also have "\<dots> = (\<Union>k \<in> gap_keys ms. gap_group ms k)"
    using gap_group_interval [OF assms gap_group_not_empty] by simp
  also have "\<dots> = set ms"
    by (force simp: gap_keys_def gap_group_def in_set_conv_nth)
  finally show ?thesis .
qed

text \<open>
  They are given highest first, with at least one number outside the list between two of them: no
  range can be extended.
\<close>

lemma sorted_separated:
  assumes "sorted (map fst rs)" and "distinct rs"
    and "\<And>p q. p \<in> set rs \<Longrightarrow> q \<in> set rs \<Longrightarrow> p \<noteq> q \<Longrightarrow> snd p + 1 < fst q \<or> snd q + 1 < (fst p :: nat)"
    and "\<And>p. p \<in> set rs \<Longrightarrow> fst p \<le> snd p"
  shows "sorted_wrt (\<lambda>p q. snd p + 1 < fst q) rs"
  using assms
proof (induction rs)
  case (Cons p rs)
  have "snd p + 1 < fst q" if q: "q \<in> set rs" for q
  proof -
    have "p \<noteq> q" and "fst p \<le> fst q" and "fst q \<le> snd q"
      using Cons.prems q by auto
    then show ?thesis
      using Cons.prems(3) [of p q] q by auto
  qed
  then show ?case
    using Cons by simp
qed simp

lemma gap_ranges_separated:
  assumes "sorted_wrt (<) ms"
  shows "sorted_wrt (\<lambda>p q. snd q + 1 < fst p) (gap_ranges ms)"
proof -
  let ?f = "\<lambda>k. (Min (gap_group ms k), Max (gap_group ms k))"
  let ?rs = "map (gap_range (gap_rows ms)) (remdups (map snd (gap_rows ms)))"
  have rs: "?rs = map ?f (remdups (map snd (gap_rows ms)))"
    by (simp add: gap_range_group)
  have keys: "set (remdups (map snd (gap_rows ms))) = gap_keys ms"
    by (auto simp: gap_rows_nth gap_keys_def)
  have set_rs: "set ?rs = ?f ` gap_keys ms"
    unfolding rs set_map keys ..
  have sep: "snd (?f k) + 1 < fst (?f k')" if "k \<in> gap_keys ms" "k' \<in> gap_keys ms" "k < k'" for k k'
    using gap_group_separated [OF assms \<open>k < k'\<close>] that gap_group_not_empty Max_in Min_in
    by (metis fst_conv snd_conv finite_gap_group)
  have le: "fst (?f k) \<le> snd (?f k)" if "k \<in> gap_keys ms" for k
    using gap_group_not_empty [OF that] by simp
  have "inj_on ?f (gap_keys ms)"
  proof (rule inj_onI)
    fix k k' assume k: "k \<in> gap_keys ms" "k' \<in> gap_keys ms" "?f k = ?f k'"
    show "k = k'"
      using sep [of k k'] sep [of k' k] le k by (metis add_lessD1 leD linorder_neqE)
  qed
  then have "distinct ?rs"
    unfolding rs by (simp add: distinct_map keys del: set_remdups set_map)
  moreover have "snd p + 1 < fst q \<or> snd q + 1 < fst p"
    if pq: "p \<in> set ?rs" "q \<in> set ?rs" "p \<noteq> q" for p q
  proof -
    obtain k k' where "p = ?f k" "q = ?f k'" "k \<in> gap_keys ms" "k' \<in> gap_keys ms" "k \<noteq> k'"
      using pq unfolding set_rs by blast
    then show ?thesis
      using sep [of k k'] sep [of k' k] by (metis linorder_neqE)
  qed
  moreover have "fst p \<le> snd p" if "p \<in> set ?rs" for p
    using that le unfolding set_rs by blast
  ultimately have "sorted_wrt (\<lambda>p q. snd p + 1 < fst q) (sort_key fst ?rs)"
    by (intro sorted_separated) auto
  then show ?thesis
    by (simp add: gap_ranges_def Let_def sorted_wrt_rev)
qed

lemma strict_sorted_missing_numbers: "sorted_wrt (<) (missing_numbers w a b)"
  unfolding missing_numbers_def by (rule sorted_wrt_filter) (rule sorted_wrt_upt)

lemma set_missing_numbers:
  "set (missing_numbers w a b) = {n \<in> {a..b}. history_from w \<le> n \<and> \<not> stored_number w n}"
  by (auto simp: missing_numbers_def)

section \<open>What the table records\<close>

definition mcover :: "world \<Rightarrow> nat set" where
  "mcover w = (\<Union>r \<in> set (missing_block_ranges w). {FromNumber r..ToNumber r})"

definition ranges_cover :: "block_range list \<Rightarrow> nat set" where
  "ranges_cover rs = (\<Union>r \<in> set rs. {FromNumber r..ToNumber r})"

definition wf_missing :: "world \<Rightarrow> bool" where
  "wf_missing w \<longleftrightarrow>
     distinct (map rID (missing_block_ranges w)) \<and>
     distinct (map (\<lambda>r. (FromNumber r, ToNumber r)) (missing_block_ranges w)) \<and>
     (\<forall>r \<in> set (missing_block_ranges w). rID r < missing_seq w \<and> FromNumber r \<le> ToNumber r)"

lemma mcover_iff: "n \<in> mcover w \<longleftrightarrow> (\<exists>r \<in> set (missing_block_ranges w). FromNumber r \<le> n \<and> n \<le> ToNumber r)"
  by (auto simp: mcover_def)

lemma mcover_eq: "mcover w = ranges_cover (missing_block_ranges w)"
  by (simp add: mcover_def ranges_cover_def)

lemma mcover_simps [simp]:
  "mcover (w\<lparr>faults := fs\<rparr>) = mcover w"
  "mcover (w\<lparr>calls := k\<rparr>) = mcover w"
  "mcover (w\<lparr>missing_seq := k\<rparr>) = mcover w"
  "mcover (w\<lparr>indexer_progress_rows := ps\<rparr>) = mcover w"
  "mcover (w\<lparr>blocks := bs\<rparr>) = mcover w"
  by (simp_all add: mcover_def)

lemma table_inv_wf_missing: "table_inv wf_missing"
  by (simp add: table_inv_def wf_missing_def)

lemma table_inv_mcover: "table_inv (\<lambda>w. S \<subseteq> mcover w)"
  by (simp add: table_inv_def)

subsection \<open>The statements\<close>

lemma insert_range_or_nothing_wf:
  "wf_missing w \<Longrightarrow> insert_range_or_nothing f t w = Inr w' \<Longrightarrow> wf_missing w'"
  by (fastforce simp: insert_range_or_nothing_def wf_missing_def new_range_def has_range_def split: if_splits)

lemma insert_range_wf:
  "wf_missing w \<Longrightarrow> insert_range f t w = Inr w' \<Longrightarrow> wf_missing w'"
  by (fastforce simp: insert_range_def wf_missing_def new_range_def has_range_def split: if_splits)

lemma distinct_map_filterI: "distinct (map f xs) \<Longrightarrow> distinct (map f (filter p xs))"
  by (simp add: distinct_map_filter)

lemma delete_ranges_wf: "wf_missing w \<Longrightarrow> wf_missing (delete_ranges p w)"
  by (simp add: delete_ranges_def wf_missing_def distinct_map_filterI)

lemma insert_range_or_nothing_mcover:
  "insert_range_or_nothing f t w = Inr w' \<Longrightarrow> mcover w' = mcover w \<union> {f..t}"
  by (force simp: insert_range_or_nothing_def mcover_def new_range_def has_range_def split: if_splits)

lemma insert_range_mcover: "insert_range f t w = Inr w' \<Longrightarrow> mcover w' = mcover w \<union> {f..t}"
  by (auto simp: insert_range_def mcover_def new_range_def split: if_splits)

lemma save_ranges_wf: "wf_missing w \<Longrightarrow> save_ranges rs w = Inr w' \<Longrightarrow> wf_missing w'"
  by (induction rs w rule: save_ranges.induct) (auto split: sum.splits dest: insert_range_or_nothing_wf)

lemma save_ranges_mcover: "save_ranges rs w = Inr w' \<Longrightarrow> mcover w' = mcover w \<union> ranges_cover rs"
  by (induction rs w rule: save_ranges.induct)
    (auto split: sum.splits dest!: insert_range_or_nothing_mcover simp: ranges_cover_def)

lemma save_ranges_ok: "\<forall>r \<in> set rs. FromNumber r \<le> ToNumber r \<Longrightarrow> \<exists>w'. save_ranges rs w = Inr w'"
  by (induction rs w rule: save_ranges.induct)
    (auto split: sum.splits simp: insert_range_or_nothing_def split: if_splits)

text \<open>
  An advance keeps the row's upper end and needs the new pair to be free; else the row goes.  No number
  from \<open>nxt\<close> up is lost when the row starts below \<open>nxt\<close>; the row that starts at \<open>nxt\<close> would itself be the
  pair that is taken, and be deleted.
\<close>

lemma distinct_map_inj: "distinct (map f xs) \<Longrightarrow> x \<in> set xs \<Longrightarrow> y \<in> set xs \<Longrightarrow> f x = f y \<Longrightarrow> x = y"
  by (auto simp: distinct_map dest: inj_onD)

lemma wf_missing_row_unique:
  "wf_missing w \<Longrightarrow> q \<in> set (missing_block_ranges w) \<Longrightarrow> q' \<in> set (missing_block_ranges w) \<Longrightarrow>
   rID q = rID q' \<Longrightarrow> q = q'"
  unfolding wf_missing_def by (blast intro: distinct_map_inj [of rID])

lemma distinct_map_update:
  assumes "distinct (map f xs)" and "\<And>x y. x \<in> set xs \<Longrightarrow> y \<in> set xs \<Longrightarrow> P x \<Longrightarrow> f (g x) \<noteq> f y"
    and "\<And>x y. x \<in> set xs \<Longrightarrow> y \<in> set xs \<Longrightarrow> P x \<Longrightarrow> P y \<Longrightarrow> x = y" and "distinct xs"
  shows "distinct (map f (map (\<lambda>x. if P x then g x else x) xs))"
  using assms
proof (induction xs)
  case (Cons x xs)
  then show ?case
    by (auto simp: image_iff) metis+
qed simp

lemma advance_range_wf:
  assumes w: "wf_missing w" and adv: "advance_range r nxt w = Inr w'"
  shows "wf_missing w'"
proof (cases "w' = delete_ranges (\<lambda>q. rID q = rID r) w")
  case True
  then show ?thesis
    using w by (simp add: delete_ranges_wf)
next
  case False
  let ?rows = "missing_block_ranges w"
  let ?g = "\<lambda>q. q\<lparr>FromNumber := nxt\<rparr>"
  have w': "w' = w\<lparr>missing_block_ranges := map (\<lambda>q. if rID q = rID r then ?g q else q) ?rows\<rparr>"
    and ok: "\<forall>q \<in> set ?rows. rID q = rID r \<longrightarrow> nxt \<le> ToNumber q \<and> \<not> has_range nxt (ToNumber q) w"
    using adv False by (auto simp: advance_range_def split: if_splits)
  have "distinct (map rID (map (\<lambda>q. if rID q = rID r then ?g q else q) ?rows))"
  proof -
    have "map rID (map (\<lambda>q. if rID q = rID r then ?g q else q) ?rows) = map rID ?rows"
      by simp
    then show ?thesis
      using w by (simp only: wf_missing_def)
  qed
  moreover have "distinct (map (\<lambda>q. (FromNumber q, ToNumber q)) (map (\<lambda>q. if rID q = rID r then ?g q else q) ?rows))"
  proof (rule distinct_map_update)
    show "distinct (map (\<lambda>q. (FromNumber q, ToNumber q)) ?rows)" and "distinct ?rows"
      using w by (auto simp: wf_missing_def distinct_map)
    show "(FromNumber (?g x), ToNumber (?g x)) \<noteq> (FromNumber y, ToNumber y)"
      if "x \<in> set ?rows" "y \<in> set ?rows" "rID x = rID r" for x y
      using ok that by (fastforce simp: has_range_def)
  qed (metis wf_missing_row_unique [OF w])
  ultimately show ?thesis
    using w ok unfolding w' wf_missing_def by (auto simp del: map_map)
qed

lemma advance_range_mcover:
  assumes adv: "advance_range r nxt w = Inr w'"
    and row: "\<And>q. q \<in> set (missing_block_ranges w) \<Longrightarrow> rID q = rID r \<Longrightarrow> ToNumber q = ToNumber r \<and> FromNumber q < nxt"
    and n: "n \<in> mcover w" "nxt \<le> n"
  shows "n \<in> mcover w'"
proof -
  obtain q where q: "q \<in> set (missing_block_ranges w)" "FromNumber q \<le> n" "n \<le> ToNumber q"
    using n(1) by (auto simp: mcover_iff)
  show ?thesis
  proof (cases "rID q = rID r")
    case False
    then show ?thesis
      using adv q by (force simp: advance_range_def delete_ranges_def mcover_iff split: if_splits)
  next
    case True
    then have "ToNumber q = ToNumber r" "nxt \<le> ToNumber r"
      using row [OF q(1)] q n(2) by auto
    show ?thesis
    proof (cases "has_range nxt (ToNumber r) w")
      case True
      then obtain p where "p \<in> set (missing_block_ranges w)" "FromNumber p = nxt" "ToNumber p = ToNumber r"
        by (auto simp: has_range_def)
      moreover from this have "rID p \<noteq> rID r"
        using row by fastforce
      ultimately show ?thesis
        using adv True n(2) q(3) \<open>ToNumber q = ToNumber r\<close>
        by (auto simp: advance_range_def delete_ranges_def mcover_iff)
    next
      case False
      then show ?thesis
        using adv q \<open>rID q = rID r\<close> \<open>nxt \<le> ToNumber r\<close> n(2)
        by (auto simp: advance_range_def mcover_iff split: if_splits intro!: bexI [of _ "q\<lparr>FromNumber := nxt\<rparr>"])
    qed
  qed
qed

subsection \<open>The operations\<close>

text \<open>Every operation keeps \<open>wf_missing\<close>, whatever the faults.\<close>

lemma keeps_wf_SaveMissingRanges: "keeps wf_missing (SaveMissingRanges rs)"
  unfolding SaveMissingRanges_def
  by (intro keeps_intros keeps_tx_of table_inv_wf_missing) (erule (1) save_ranges_wf)

lemma keeps_wf_RequeueMissingBlock: "keeps wf_missing (RequeueMissingBlock n)"
  unfolding RequeueMissingBlock_def
  by (intro keeps_tx_of table_inv_wf_missing) (erule (1) insert_range_or_nothing_wf)

lemma keeps_wf_DeleteMissingRange: "keeps wf_missing (DeleteMissingRange i)"
  unfolding DeleteMissingRange_def
  by (intro keeps_tx_of table_inv_wf_missing) (auto simp: delete_ranges_wf)

lemma keeps_wf_DeleteMissingRangeByBlock: "keeps wf_missing (DeleteMissingRangeByBlock n)"
  unfolding DeleteMissingRangeByBlock_def
  by (intro keeps_tx_of table_inv_wf_missing) (auto simp: delete_ranges_wf)

lemma keeps_wf_AdvanceMissingRange: "keeps wf_missing (AdvanceMissingRange r nxt)"
  unfolding AdvanceMissingRange_def
  by (intro keeps_tx_of table_inv_wf_missing) (erule (1) advance_range_wf)

lemma keeps_wf_ClearMissingRanges: "keeps wf_missing ClearMissingRanges"
  unfolding ClearMissingRanges_def
  by (intro keeps_tx_of table_inv_wf_missing) (auto simp: wf_missing_def)

lemma keeps_wf_UpdateIndexerProgress: "keeps wf_missing (UpdateIndexerProgress a b c)"
  unfolding UpdateIndexerProgress_def
  by (intro keeps_run_tx table_inv_wf_missing) (auto simp: wf_missing_def split: option.splits)

lemma keeps_wf_ShrinkMissingRange: "keeps wf_missing (ShrinkMissingRange i n)"
  unfolding ShrinkMissingRange_def
  by (intro keeps_intros keeps_run_tx keeps_tx_of table_inv_wf_missing keeps_wf_DeleteMissingRange)
    (auto split: list.splits sum.splits dest: insert_range_wf [rotated])

lemmas keeps_wf_missing_ops =
  keeps_wf_SaveMissingRanges keeps_wf_RequeueMissingBlock keeps_wf_DeleteMissingRange
  keeps_wf_DeleteMissingRangeByBlock keeps_wf_AdvanceMissingRange keeps_wf_ClearMissingRanges
  keeps_wf_UpdateIndexerProgress keeps_wf_ShrinkMissingRange

text \<open>What a save and a requeue add; neither loses a number, even when it reports a failure.\<close>

lemma SaveMissingRanges_cases:
  obtains (ok) w' where "run_state (SaveMissingRanges rs) w = (Inr (), w')" "mcover w' = mcover w \<union> ranges_cover rs"
  | (fail) e w' where "run_state (SaveMissingRanges rs) w = (Inl e, w')" "mcover w \<subseteq> mcover w'"
proof (cases "rs = []")
  case True
  then show ?thesis
    by (intro ok [of w]) (auto simp: SaveMissingRanges_def ranges_cover_def)
next
  case False
  then have save: "SaveMissingRanges rs = tx_of (save_ranges rs)"
    by (simp add: SaveMissingRanges_def)
  show ?thesis
  proof (cases rule: tx_of_cases [of "save_ranges rs" w])
    case (ok w')
    then show ?thesis
      using that(1) [of w'] save save_ranges_mcover [OF ok(1)] by simp
  next
    case (error e)
    then show ?thesis
      using that(2) save by simp
  next
    case refused
    then show ?thesis
      using that(2) save by simp
  next
    case (acklost w')
    then show ?thesis
      using that(2) save save_ranges_mcover [OF acklost(1)] by simp
  qed
qed

lemma RequeueMissingBlock_cases:
  obtains (ok) w' where "run_state (RequeueMissingBlock n) w = (Inr (), w')" "mcover w' = insert n (mcover w)"
      "has_range n n w'"
  | (fail) e w' where "run_state (RequeueMissingBlock n) w = (Inl e, w')" "mcover w \<subseteq> mcover w'"
proof -
  have row: "has_range n n w'" if "insert_range_or_nothing n n v = Inr w'" for v w'
    using that by (auto simp: insert_range_or_nothing_def has_range_def new_range_def split: if_splits)
  show ?thesis
  proof (cases rule: tx_of_cases [of "insert_range_or_nothing n n" w])
    case (ok w')
    then show ?thesis
      using that(1) [of w'] insert_range_or_nothing_mcover [OF ok(1)] row
      by (simp add: RequeueMissingBlock_def)
  next
    case (acklost w')
    then show ?thesis
      using that(2) insert_range_or_nothing_mcover [OF acklost(1)] by (auto simp: RequeueMissingBlock_def)
  qed (use that(2) in \<open>auto simp: RequeueMissingBlock_def\<close>)
qed

lemma FindMissingBlocksInRange_cases:
  obtains (ok) rs where "run_state (FindMissingBlocksInRange a b) w = (Inr rs, w\<lparr>faults := tl (faults w)\<rparr>)"
      "ranges_cover rs = {n \<in> {a..b}. history_from w \<le> n \<and> \<not> stored_number w n}"
  | (fail) "run_state (FindMissingBlocksInRange a b) w = (Inl ConnLost, w\<lparr>faults := tl (faults w)\<rparr>)"
proof -
  let ?q = "\<lambda>w. map (\<lambda>(a, b). \<lparr>rID = 0, FromNumber = a, ToNumber = b, rCreatedAt = 0\<rparr>)
    (gap_ranges (missing_numbers w a b))"
  let ?v = "w\<lparr>faults := tl (faults w)\<rparr>"
  have "ranges_cover (?q ?v) = cover (gap_ranges (missing_numbers ?v a b))"
    by (force simp: ranges_cover_def cover_def)
  also have "\<dots> = {n \<in> {a..b}. history_from w \<le> n \<and> \<not> stored_number w n}"
    by (simp add: cover_gap_ranges [OF strict_sorted_missing_numbers] set_missing_numbers
        history_from_def stored_number_def)
  finally have q: "ranges_cover (?q ?v) = {n \<in> {a..b}. history_from w \<le> n \<and> \<not> stored_number w n}" .
  show ?thesis
  proof (cases rule: run_query_cases [of ?q w])
    case rok: ok
    have "run_state (FindMissingBlocksInRange a b) w = (Inr (?q ?v), ?v)"
      unfolding FindMissingBlocksInRange_def by (rule prod_eqI) (simp_all only: rok fst_conv snd_conv)
    then show ?thesis
      using q by (rule ok)
  next
    case rfail: fail
    have "run_state (FindMissingBlocksInRange a b) w = (Inl ConnLost, ?v)"
      unfolding FindMissingBlocksInRange_def by (rule prod_eqI) (simp_all only: rfail fst_conv snd_conv)
    then show ?thesis
      by (rule fail)
  qed
qed

section \<open>The table's contract\<close>

text \<open>C9. The gap scan is exact: the ranges it returns cover the blocks of the interval, from the start of
  the kept history on, that are not stored, and nothing else; they come highest first, and between two
  of them lies a block that is not missing, so none can be widened or joined.\<close>

theorem FindMissingBlocksInRange_exact:
  assumes "faults w = []"
  shows "\<exists>rs. run_state (FindMissingBlocksInRange a b) w = (Inr rs, w) \<and>
    ranges_cover rs = {n \<in> {a..b}. history_from w \<le> n \<and> \<not> stored_number w n} \<and>
    sorted_wrt (\<lambda>r q. ToNumber q + 1 < FromNumber r) rs"
proof -
  let ?rs = "map (\<lambda>(a, b). \<lparr>rID = 0, FromNumber = a, ToNumber = b, rCreatedAt = 0\<rparr>)
    (gap_ranges (missing_numbers w a b))"
  have "run_state (FindMissingBlocksInRange a b) w = (Inr ?rs, w)"
    using assms by (simp add: FindMissingBlocksInRange_def no_fault_simps)
  moreover have "ranges_cover ?rs = cover (gap_ranges (missing_numbers w a b))"
    by (force simp: ranges_cover_def cover_def)
  then have "ranges_cover ?rs = {n \<in> {a..b}. history_from w \<le> n \<and> \<not> stored_number w n}"
    by (simp add: cover_gap_ranges [OF strict_sorted_missing_numbers] set_missing_numbers)
  moreover have "sorted_wrt (\<lambda>r q. ToNumber q + 1 < FromNumber r) ?rs"
    using gap_ranges_separated [OF strict_sorted_missing_numbers, of w a b]
    by (auto simp: sorted_wrt_map case_prod_beta)
  ultimately show ?thesis
    by blast
qed

lemma FindMissingBlocksInRange_exact_witness:
  "\<exists>rs. run_state (FindMissingBlocksInRange 0 4) empty_world = (Inr rs, empty_world) \<and>
     ranges_cover rs = {0..4}"
proof -
  have "faults empty_world = []" "history_from empty_world = 0" "\<And>n. \<not> stored_number empty_world n"
    by (simp_all add: empty_world_def history_from_def stored_number_def)
  then show ?thesis
    using FindMissingBlocksInRange_exact [of empty_world 0 4] by auto
qed

text \<open>C10. \<open>AdvanceMissingRange\<close> never forgets a block from \<open>next\<close> up, whether it succeeds, fails, or commits and
  loses the acknowledgement: for a range with blocks below \<open>next\<close>, every recorded block that is not below
  \<open>next\<close> stays recorded, and the table stays well formed.\<close>

theorem AdvanceMissingRange_never_loses:
  assumes "wf_missing w" and "r \<in> set (missing_block_ranges w)" and "FromNumber r < nxt"
    and "n \<in> mcover w" and "nxt \<le> n"
  shows "n \<in> mcover (snd (run_state (AdvanceMissingRange r nxt) w)) \<and>
    wf_missing (snd (run_state (AdvanceMissingRange r nxt) w))"
proof
  let ?v = "w\<lparr>faults := tl (faults w)\<rparr>"
  have kept: "n \<in> mcover w'" if "advance_range r nxt ?v = Inr w'" for w'
  proof (rule advance_range_mcover [OF that])
    show "n \<in> mcover ?v"
      using assms(4) by simp
    show "ToNumber q = ToNumber r \<and> FromNumber q < nxt" if "q \<in> set (missing_block_ranges ?v)" "rID q = rID r" for q
      using wf_missing_row_unique [OF assms(1), of q r] that assms(2,3) by simp
  qed (rule assms(5))
  show "n \<in> mcover (snd (run_state (AdvanceMissingRange r nxt) w))"
    by (cases rule: tx_of_cases [of "advance_range r nxt" w])
      (use kept assms(4) in \<open>auto simp: AdvanceMissingRange_def\<close>)
  show "wf_missing (snd (run_state (AdvanceMissingRange r nxt) w))"
    using keepsD [OF keeps_wf_AdvanceMissingRange assms(1)] .
qed

definition sample_ranges :: "world" where
  "sample_ranges = empty_world\<lparr>missing_seq := 3, missing_block_ranges :=
     [\<lparr>rID = 1, FromNumber = 5, ToNumber = 9, rCreatedAt = 0\<rparr>, \<lparr>rID = 2, FromNumber = 7, ToNumber = 9, rCreatedAt = 0\<rparr>]\<rparr>"

lemma AdvanceMissingRange_never_loses_witness:
  "8 \<in> mcover (snd (run_state (AdvanceMissingRange \<lparr>rID = 1, FromNumber = 5, ToNumber = 9, rCreatedAt = 0\<rparr> 7)
     (sample_ranges\<lparr>faults := [AckLost]\<rparr>)))"
proof -
  let ?w = "sample_ranges\<lparr>faults := [AckLost]\<rparr>"
  have "wf_missing ?w" "8 \<in> mcover ?w"
    "\<lparr>rID = 1, FromNumber = 5, ToNumber = 9, rCreatedAt = 0\<rparr> \<in> set (missing_block_ranges ?w)"
    by (simp_all add: sample_ranges_def empty_world_def wf_missing_def mcover_def)
  then show ?thesis
    using AdvanceMissingRange_never_loses [of ?w "\<lparr>rID = 1, FromNumber = 5, ToNumber = 9, rCreatedAt = 0\<rparr>" 7 8]
    by simp
qed


end
