(* ===== verification/Range_Collector.thy ===== *)
theory Range_Collector
  imports Missing_Ranges
begin

text \<open>
  \<open>internal/indexer/missing_range_collector.go\<close>: the collector that finds the blocks the database
  does not hold and records them for catch-up.

  \<^item> \<open>scanBatch\<close> takes the two operations of the \<open>Database\<close> interface it calls; the locale
    \<open>gap_store\<close> states what it relies on and is interpreted on \<open>Missing_Ranges\<close>.
  \<^item> The loops over batches add to a \<open>uint64\<close> cursor, which wraps, so they are \<open>partial_function\<close>s:
    \<open>None\<close> is a scan that never returns.  They return whenever the batch is positive and the last
    block plus a batch fits 64 bits.
  \<^item> \<open>accounted\<close> is the collector's promise: a block of the scanned interval is stored or pruned,
    recorded as missing, or in a batch still to be scanned.
\<close>

section \<open>State\<close>

record collector_config =
  BatchSize :: u64
  BackwardScanInterval :: nat
  ForwardScanInterval :: nat
  FirstBlock :: u64
  LastBlock :: u64

text \<open>Intervals in milliseconds.\<close>

definition DefaultMissingRangeCollectorConfig :: collector_config where
  "DefaultMissingRangeCollectorConfig =
     \<lparr>BatchSize = 100000, BackwardScanInterval = 10, ForwardScanInterval = 60000, FirstBlock = 0, LastBlock = 0\<rparr>"

text \<open>\<open>ceiling\<close> is realtime's cursor, read at the given call.\<close>

record collector =
  config :: collector_config
  minFetchedBlock :: u64
  maxFetchedBlock :: u64
  chainHead :: u64
  ceiling :: "(nat \<Rightarrow> u64) option"
  backfillComplete :: bool
  initialScanDone :: bool
  unscanned :: "block_range list"

definition NewMissingRangeCollector :: "collector_config option \<Rightarrow> collector" where
  "NewMissingRangeCollector cfg =
     \<lparr>config = (case cfg of None \<Rightarrow> DefaultMissingRangeCollectorConfig | Some k \<Rightarrow> k),
      minFetchedBlock = 0, maxFetchedBlock = 0, chainHead = 0, ceiling = None,
      backfillComplete = False, initialScanDone = False, unscanned = []\<rparr>"

definition SetCeiling :: "(nat \<Rightarrow> u64) \<Rightarrow> collector \<Rightarrow> collector" where
  "SetCeiling f c = c\<lparr>ceiling := Some f\<rparr>"

definition GetProgress :: "collector \<Rightarrow> u64 \<times> u64 \<times> u64 \<times> bool" where
  "GetProgress c = (minFetchedBlock c, maxFetchedBlock c, chainHead c, backfillComplete c)"

definition MarkBlockProcessed :: "u64 \<Rightarrow> unit dbm" where
  "MarkBlockProcessed blockNumber = DeleteMissingRangeByBlock blockNumber"

datatype collector_error = CollectorRpc rpc_error | CollectorDb db_error | CollectorCancelled

section \<open>Scanning\<close>

definition scanBatch ::
    "(u64 \<Rightarrow> u64 \<Rightarrow> ('w, db_error + block_range list) state) \<Rightarrow> (block_range list \<Rightarrow> ('w, db_error + unit) state) \<Rightarrow>
     u64 \<Rightarrow> u64 \<Rightarrow> ('w, db_error + nat) state" where
  "scanBatch find_gaps save_gaps from to = do {
     ranges \<leftarrow> find_gaps from to;
     case ranges of
       Inl e \<Rightarrow> State_Monad.return (Inl e)
     | Inr rs \<Rightarrow>
         if 0 < length rs then do {
           saved \<leftarrow> save_gaps rs;
           case saved of
             Inl e \<Rightarrow> State_Monad.return (Inl e)
           | Inr _ \<Rightarrow> State_Monad.return (Inr (length rs))
         }
         else State_Monad.return (Inr (length rs))
   }"

abbreviation scan :: "u64 \<Rightarrow> u64 \<Rightarrow> nat dbm" where
  "scan \<equiv> scanBatch FindMissingBlocksInRange SaveMissingRanges"

definition unscanned_batch :: "u64 \<Rightarrow> u64 \<Rightarrow> block_range" where
  "unscanned_batch from to = \<lparr>rID = 0, FromNumber = from, ToNumber = to, rCreatedAt = 0\<rparr>"

text \<open>The loop of \<open>initialScan\<close>; the first component tells whether it ran to the end.\<close>

partial_function (option) initial_scan_loop ::
    "collector \<Rightarrow> u64 \<Rightarrow> u64 \<Rightarrow> nat \<Rightarrow> world \<Rightarrow> (bool \<times> collector \<times> nat \<times> world) option" where
  "initial_scan_loop c fromBlock lastBlock totalRanges w =
     (if lastBlock < fromBlock then Some (True, c, totalRanges, w)
      else case run_state ctx_Err w of (cancelled, w1) \<Rightarrow>
        if cancelled then Some (False, c, totalRanges, w1)
        else
          let to0 = u64_sub (u64_add fromBlock (BatchSize (config c))) 1;
              toBlock = (if lastBlock < to0 then lastBlock else to0);
              nxt = u64_add fromBlock (BatchSize (config c))
          in case run_state (scan fromBlock toBlock) w1 of
               (Inl e, w2) \<Rightarrow>
                 initial_scan_loop (c\<lparr>unscanned := unscanned c @ [unscanned_batch fromBlock toBlock]\<rparr>)
                   nxt lastBlock totalRanges w2
             | (Inr found, w2) \<Rightarrow> initial_scan_loop c nxt lastBlock (totalRanges + found) w2)"

definition initialScan :: "u64 \<Rightarrow> collector \<Rightarrow> world \<Rightarrow> ((collector_error + unit) \<times> collector \<times> world) option" where
  "initialScan lastBlock c w =
     (case initial_scan_loop c (FirstBlock (config c)) lastBlock 0 w of
        None \<Rightarrow> None
      | Some (finished, c', totalRanges, w') \<Rightarrow>
          if finished
          then Some (Inr (), c'\<lparr>initialScanDone := True\<rparr>, snd (run_state GetTotalMissingBlocks w'))
          else Some (Inl CollectorCancelled, c', w'))"

fun rescan_loop :: "block_range list \<Rightarrow> (world, block_range list) state" where
  "rescan_loop [] = State_Monad.return []"
| "rescan_loop (r # rs) = do {
     cancelled \<leftarrow> ctx_Err;
     if cancelled then State_Monad.return (r # rs)
     else do {
       found \<leftarrow> scan (FromNumber r) (ToNumber r);
       case found of
         Inl e \<Rightarrow> State_Monad.return (r # rs)
       | Inr _ \<Rightarrow> rescan_loop rs
     }
   }"

definition rescanFailed :: "collector \<Rightarrow> (world, collector) state" where
  "rescanFailed c = do {
     rest \<leftarrow> rescan_loop (unscanned c);
     State_Monad.return (c\<lparr>unscanned := rest\<rparr>)
   }"

definition scanBackward :: "collector \<Rightarrow> (world, collector) state" where
  "scanBackward c =
     (if minFetchedBlock c \<le> FirstBlock (config c) then State_Monad.return c
      else
        let toBlock = u64_sub (minFetchedBlock c) 1;
            from0 = (if BatchSize (config c) < toBlock then u64_add (u64_sub toBlock (BatchSize (config c))) 1 else 0);
            fromBlock = max from0 (FirstBlock (config c))
        in if toBlock < fromBlock then State_Monad.return c
           else do {
             found \<leftarrow> scan fromBlock toBlock;
             case found of
               Inl e \<Rightarrow> State_Monad.return c
             | Inr _ \<Rightarrow> do {
                 _ \<leftarrow> UpdateIndexerProgress fromBlock (maxFetchedBlock c) (backfillComplete c);
                 State_Monad.return (c\<lparr>minFetchedBlock := fromBlock\<rparr>)
               }
           })"

text \<open>One tick of \<open>backwardScanner\<close>.\<close>

definition backwardScanner_tick :: "collector \<Rightarrow> (world, collector) state" where
  "backwardScanner_tick c0 = do {
     c \<leftarrow> scanBackward c0;
     if minFetchedBlock c \<le> FirstBlock (config c) \<and> \<not> backfillComplete c then do {
       _ \<leftarrow> UpdateIndexerProgress (minFetchedBlock c) (maxFetchedBlock c) True;
       State_Monad.return (c\<lparr>backfillComplete := True\<rparr>)
     }
     else State_Monad.return c
   }"

partial_function (option) scan_forward_loop ::
    "u64 \<Rightarrow> u64 \<Rightarrow> u64 \<Rightarrow> u64 \<Rightarrow> collector \<Rightarrow> world \<Rightarrow> (collector \<times> world) option" where
  "scan_forward_loop batch head from toBlock c w =
     (if toBlock < from then Some (c, w)
      else case run_state ctx_Err w of (cancelled, w1) \<Rightarrow>
        if cancelled then Some (c, w1)
        else let to = min (u64_sub (u64_add from batch) 1) toBlock in
          case run_state (scan from to) w1 of
            (Inl e, w2) \<Rightarrow> Some (c, w2)
          | (Inr found, w2) \<Rightarrow>
              let c' = c\<lparr>maxFetchedBlock := to, chainHead := max (chainHead c) head\<rparr>;
                  w3 = snd (run_state (UpdateIndexerProgress (minFetchedBlock c') (maxFetchedBlock c') (backfillComplete c')) w2)
              in scan_forward_loop batch head (u64_add from batch) toBlock c' w3)"

definition scanForward :: "collector \<Rightarrow> world \<Rightarrow> (collector \<times> world) option" where
  "scanForward c0 w0 =
     (case run_state (rescanFailed c0) w0 of (c, w1) \<Rightarrow>
      case run_state (run_call nodeHead) w1 of
        (Inl e, w2) \<Rightarrow> Some (c, w2)
      | (Inr head, w2) \<Rightarrow>
          let toBlock = (case ceiling c of None \<Rightarrow> head | Some f \<Rightarrow> min head (f (calls w2))) in
          if toBlock \<le> maxFetchedBlock c then Some (c\<lparr>chainHead := max (chainHead c) head\<rparr>, w2)
          else scan_forward_loop (max (BatchSize (config c)) 1) head (u64_add (maxFetchedBlock c) 1) toBlock c w2)"

text \<open>\<open>Start\<close> up to the scanners: the first scan's bounds, the resumed or fresh cursors, the scan.\<close>

definition start_last_block :: "collector_config \<Rightarrow> u64 \<Rightarrow> u64" where
  "start_last_block cfg head = (if LastBlock cfg = 0 \<or> head < LastBlock cfg then head else LastBlock cfg)"

definition start_fresh :: "u64 \<Rightarrow> collector \<Rightarrow> (world, db_error + collector) state" where
  "start_fresh lastBlock c = do {
     mm \<leftarrow> GetMinMaxIndexedBlocks;
     case mm of
       Inl e \<Rightarrow> State_Monad.return (Inl e)
     | Inr (minIndexed, maxIndexed) \<Rightarrow>
         let c' = (if 0 < maxIndexed then c\<lparr>minFetchedBlock := minIndexed, maxFetchedBlock := maxIndexed\<rparr>
                   else c\<lparr>minFetchedBlock := lastBlock, maxFetchedBlock := lastBlock\<rparr>)
         in do {
           _ \<leftarrow> UpdateIndexerProgress (minFetchedBlock c') (maxFetchedBlock c') False;
           State_Monad.return (Inr c')
         }
   }"

definition start_cursors :: "u64 \<Rightarrow> collector \<Rightarrow> (world, db_error + collector) state" where
  "start_cursors lastBlock c = do {
     progress \<leftarrow> GetIndexerProgress;
     case progress of
       Inl e \<Rightarrow> start_fresh lastBlock c
     | Inr p \<Rightarrow>
         if 0 < MaxFetchedBlock p
         then State_Monad.return (Inr (c\<lparr>minFetchedBlock := MinFetchedBlock p, maxFetchedBlock := MaxFetchedBlock p,
                backfillComplete := BackfillComplete p\<rparr>))
         else start_fresh lastBlock c
   }"

definition Start :: "collector \<Rightarrow> world \<Rightarrow> ((collector_error + unit) \<times> collector \<times> world) option" where
  "Start c w =
     (case run_state (run_call nodeHead) w of
        (Inl e, w1) \<Rightarrow> Some (Inl (CollectorRpc e), c, w1)
      | (Inr head, w1) \<Rightarrow>
          let lastBlock = start_last_block (config c) head in
          case run_state (start_cursors lastBlock (c\<lparr>chainHead := head\<rparr>)) w1 of
            (Inl e, w2) \<Rightarrow> Some (Inl (CollectorDb e), c\<lparr>chainHead := head\<rparr>, w2)
          | (Inr c', w2) \<Rightarrow> initialScan lastBlock c' w2)"

section \<open>What the scans rely on\<close>

text \<open>
  \<open>recorded\<close> is what the store's table covers and \<open>settled\<close> what needs no record.  A find reports every
  unsettled block of its interval; a save that succeeds records its ranges; nothing forgets a record.
\<close>

locale gap_store =
  fixes find_gaps :: "u64 \<Rightarrow> u64 \<Rightarrow> ('w, db_error + block_range list) state"
    and save_gaps :: "block_range list \<Rightarrow> ('w, db_error + unit) state"
    and recorded :: "'w \<Rightarrow> nat set"
    and settled :: "'w \<Rightarrow> nat set"
  assumes find_finds: "run_state (find_gaps a b) w = (Inr rs, w') \<Longrightarrow> {a..b} \<subseteq> ranges_cover rs \<union> settled w"
    and find_frame: "run_state (find_gaps a b) w = (r, w') \<Longrightarrow> recorded w' = recorded w \<and> settled w' = settled w"
    and save_records: "run_state (save_gaps rs) w = (Inr (), w') \<Longrightarrow> ranges_cover rs \<subseteq> recorded w'"
    and save_frame: "run_state (save_gaps rs) w = (s, w') \<Longrightarrow> recorded w \<subseteq> recorded w' \<and> settled w' = settled w"
begin

lemma scan_frame:
  assumes "run_state (scanBatch find_gaps save_gaps a b) w = (r, w')"
  shows "recorded w \<subseteq> recorded w' \<and> settled w' = settled w"
proof -
  obtain f w1 where find: "run_state (find_gaps a b) w = (f, w1)"
    by fastforce
  have "w' = w1 \<or> (\<exists>rs s. run_state (save_gaps rs) w1 = (s, w'))"
    using assms find by (auto simp: scanBatch_def split: prod.splits sum.splits if_splits)
  then show ?thesis
    using find_frame [OF find] save_frame by fastforce
qed

lemma scan_accounts:
  assumes "run_state (scanBatch find_gaps save_gaps a b) w = (Inr k, w')"
  shows "{a..b} \<subseteq> recorded w' \<union> settled w'"
proof -
  obtain rs w1 where find: "run_state (find_gaps a b) w = (Inr rs, w1)"
    and save: "rs \<noteq> [] \<Longrightarrow> run_state (save_gaps rs) w1 = (Inr (), w')" and none: "rs = [] \<Longrightarrow> w' = w1"
    using assms by (auto simp: scanBatch_def split: prod.splits sum.splits if_splits)
  have fr: "settled w1 = settled w" and fc: "{a..b} \<subseteq> ranges_cover rs \<union> settled w"
    using find_frame [OF find] find_finds [OF find] by blast+
  show ?thesis
  proof (cases "rs = []")
    case True
    then show ?thesis
      using fr fc none by (auto simp: ranges_cover_def)
  next
    case False
    then have "ranges_cover rs \<subseteq> recorded w'" and "settled w' = settled w1"
      using save_records [OF save] save_frame [OF save] by auto
    then show ?thesis
      using fr fc by blast
  qed
qed

end

section \<open>The store is the table\<close>

definition settled :: "world \<Rightarrow> nat set" where
  "settled w = {n. n < history_from w \<or> stored_number w n}"

lemma settled_simps [simp]:
  "settled (w\<lparr>faults := fs\<rparr>) = settled w" "settled (w\<lparr>calls := k\<rparr>) = settled w"
  "settled (w\<lparr>missing_block_ranges := rs\<rparr>) = settled w" "settled (w\<lparr>missing_seq := k\<rparr>) = settled w"
  "settled (w\<lparr>indexer_progress_rows := ps\<rparr>) = settled w"
  by (simp_all add: settled_def history_from_def stored_number_def)

lemma insert_range_or_nothing_settled: "insert_range_or_nothing f t w = Inr w' \<Longrightarrow> settled w' = settled w"
  by (auto simp: insert_range_or_nothing_def split: if_splits)

lemma save_ranges_settled: "save_ranges rs w = Inr w' \<Longrightarrow> settled w' = settled w"
proof (induction rs w rule: save_ranges.induct)
  case (2 r rs w)
  then show ?case
    by (cases "insert_range_or_nothing (FromNumber r) (ToNumber r) w")
      (simp_all add: insert_range_or_nothing_settled)
qed simp

lemma SaveMissingRanges_settled: "settled (snd (run_state (SaveMissingRanges rs) w)) = settled w"
  by (cases rule: tx_of_cases [of "save_ranges rs" w])
    (auto simp: SaveMissingRanges_def dest: save_ranges_settled)

lemma FindMissingBlocksInRange_finds:
  assumes "run_state (FindMissingBlocksInRange a b) w = (Inr rs, w')"
  shows "{a..b} \<subseteq> ranges_cover rs \<union> settled w"
proof (cases rule: FindMissingBlocksInRange_cases [of a b w])
  case (ok qs)
  then have rs: "ranges_cover rs = {n \<in> {a..b}. history_from w \<le> n \<and> \<not> stored_number w n}"
    using assms by simp
  have "n \<in> ranges_cover rs \<or> n \<in> settled w" if "n \<in> {a..b}" for n
    using that unfolding rs settled_def by (cases "history_from w \<le> n") simp_all
  then show ?thesis
    by blast
next
  case fail
  then show ?thesis
    using assms by simp
qed

lemma FindMissingBlocksInRange_frame:
  assumes "run_state (FindMissingBlocksInRange a b) w = (r, w')"
  shows "mcover w' = mcover w \<and> settled w' = settled w"
  by (cases rule: FindMissingBlocksInRange_cases [of a b w]) (use assms in auto)

lemma SaveMissingRanges_records:
  assumes "run_state (SaveMissingRanges rs) w = (Inr (), w')"
  shows "ranges_cover rs \<subseteq> mcover w'"
  by (cases rule: SaveMissingRanges_cases [of rs w]) (use assms in auto)

lemma SaveMissingRanges_frame:
  assumes "run_state (SaveMissingRanges rs) w = (s, w')"
  shows "mcover w \<subseteq> mcover w' \<and> settled w' = settled w"
  by (cases rule: SaveMissingRanges_cases [of rs w]) (use assms SaveMissingRanges_settled [of rs w] in auto)

interpretation missing: gap_store FindMissingBlocksInRange SaveMissingRanges mcover settled
  by unfold_locales
    (fact FindMissingBlocksInRange_finds FindMissingBlocksInRange_frame
      SaveMissingRanges_records SaveMissingRanges_frame)+

section \<open>Every scanned block is accounted for\<close>

definition accounted :: "world \<Rightarrow> collector \<Rightarrow> nat set" where
  "accounted w c = settled w \<union> mcover w \<union> ranges_cover (unscanned c)"

text \<open>The scans leave the node as it is, so a bound on its heads holds throughout.\<close>

abbreviation node_is :: "node \<Rightarrow> world \<Rightarrow> bool" where
  "node_is N w \<equiv> node w = N"

lemma table_inv_node: "table_inv (node_is N)"
  by (simp add: table_inv_def)

lemma save_ranges_node: "save_ranges rs w = Inr w' \<Longrightarrow> node w' = node w"
proof (induction rs w rule: save_ranges.induct)
  case (2 r rs w)
  then show ?case
    by (auto simp: insert_range_or_nothing_def split: sum.splits if_splits)
qed simp

lemma keeps_node_scan: "keeps (node_is N) (scan a b)"
  unfolding scanBatch_def FindMissingBlocksInRange_def SaveMissingRanges_def
  by (intro keeps_intros keeps_run_query keeps_tx_of table_inv_node) (simp add: save_ranges_node)

lemma keeps_node_progress: "keeps (node_is N) (UpdateIndexerProgress a b d)"
  unfolding UpdateIndexerProgress_def
  by (intro keeps_run_tx table_inv_node) (auto split: option.splits)

lemma keeps_node_rescan_loop: "keeps (node_is N) (rescan_loop rs)"
proof (induction rs)
  case (Cons r rs)
  then show ?case
    unfolding rescan_loop.simps
    by (intro keeps_intros keeps_ctx_Err table_inv_node keeps_node_scan)
qed (simp add: keeps_return)

text \<open>\<open>no_loss w w'\<close>: nothing settled or recorded in \<open>w\<close> is lost in \<open>w'\<close>.\<close>

definition no_loss :: "world \<Rightarrow> world \<Rightarrow> bool" where
  "no_loss w w' \<longleftrightarrow> settled w' = settled w \<and> mcover w \<subseteq> mcover w' \<and> node w' = node w"

lemma no_loss_refl [simp]: "no_loss w w"
  by (simp add: no_loss_def)

lemma no_loss_trans: "no_loss w w' \<Longrightarrow> no_loss w' w'' \<Longrightarrow> no_loss w w''"
  by (auto simp: no_loss_def)

lemma no_loss_mono: "no_loss w w' \<Longrightarrow> settled w \<union> mcover w \<subseteq> settled w' \<union> mcover w'"
  by (auto simp: no_loss_def)

lemma no_loss_calls [simp]: "no_loss w (w\<lparr>calls := k\<rparr>)"
  by (simp add: no_loss_def)

lemma no_loss_scan: "run_state (scan a b) w = (r, w') \<Longrightarrow> no_loss w w'"
  using keepsD [OF keeps_node_scan [of "node w" a b], of w]
  by (auto simp: no_loss_def dest: missing.scan_frame)

lemma no_loss_query: "no_loss w (snd (run_state (run_query q) w))"
  by (cases rule: run_query_cases [of q w]) (simp_all add: no_loss_def)

lemma no_loss_progress: "no_loss w (snd (run_state (UpdateIndexerProgress a b d) w))"
  by (auto simp: no_loss_def UpdateIndexerProgress_def run_tx_def Let_def
      split: list.splits fault.splits option.splits)

lemma no_loss_accounted: "no_loss w w' \<Longrightarrow> unscanned c' = unscanned c \<Longrightarrow> accounted w c \<subseteq> accounted w' c'"
  by (auto simp: no_loss_def accounted_def)

lemma ranges_cover_simps [simp]:
  "ranges_cover [] = {}" "ranges_cover (r # rs) = {FromNumber r..ToNumber r} \<union> ranges_cover rs"
  "ranges_cover (rs @ qs) = ranges_cover rs \<union> ranges_cover qs"
  by (auto simp: ranges_cover_def)

text \<open>One batch: recorded, or kept for later.\<close>

lemma scan_batch_accounts:
  assumes "run_state (scan a b) w = (r, w')"
    and "unscanned c' = (case r of Inl e \<Rightarrow> unscanned c @ [unscanned_batch a b] | Inr k \<Rightarrow> unscanned c)"
  shows "accounted w c \<union> {a..b} \<subseteq> accounted w' c'"
  using assms missing.scan_frame [OF assms(1)] missing.scan_accounts [of a b w _ w']
  by (cases r) (auto simp: accounted_def unscanned_batch_def)

text \<open>With no fault pending a scan succeeds; the ranges it saves pass the table's check.\<close>

definition calm :: "world \<Rightarrow> bool" where
  "calm w \<longleftrightarrow> faults w = [] \<and> (\<forall>k. \<not> ctx_done w k)"

lemma gap_ranges_ordered:
  assumes "sorted_wrt (<) ms" and "r \<in> set (gap_ranges ms)"
  shows "fst r \<le> snd r"
proof -
  obtain k where "k \<in> gap_keys ms" "r = (Min (gap_group ms k), Max (gap_group ms k))"
    using assms(2) by (auto simp: set_gap_ranges)
  then show ?thesis
    using gap_group_not_empty [of k ms] by simp
qed

lemma save_ranges_calm: "save_ranges rs w = Inr w' \<Longrightarrow> calm w \<Longrightarrow> calm w'"
proof (induction rs w rule: save_ranges.induct)
  case (2 r rs w)
  then show ?case
    by (auto simp: insert_range_or_nothing_def calm_def split: sum.splits if_splits)
qed simp

lemma calm_scan:
  assumes "calm w"
  shows "\<exists>k w'. run_state (scan a b) w = (Inr k, w') \<and> calm w'"
proof -
  let ?rs = "map (\<lambda>(a, b). \<lparr>rID = 0, FromNumber = a, ToNumber = b, rCreatedAt = 0\<rparr>)
    (gap_ranges (missing_numbers w a b))"
  have find: "run_state (FindMissingBlocksInRange a b) w = (Inr ?rs, w)"
    using assms by (simp add: FindMissingBlocksInRange_def no_fault_simps calm_def)
  have "\<forall>r \<in> set ?rs. FromNumber r \<le> ToNumber r"
    using gap_ranges_ordered [OF strict_sorted_missing_numbers, of _ w a b] by fastforce
  then obtain w' where w': "save_ranges ?rs w = Inr w'"
    using save_ranges_ok by blast
  have save: "run_state (SaveMissingRanges ?rs) w = (Inr (), if ?rs = [] then w else w')"
    using assms w' by (simp add: SaveMissingRanges_def no_fault_simps calm_def)
  show ?thesis
    using find save save_ranges_calm [OF w' assms] assms
    by (simp add: scanBatch_def del: map_eq_conv)
qed

lemma calm_progress: "calm w \<Longrightarrow> calm (snd (run_state (UpdateIndexerProgress a b d) w))"
  by (auto simp: UpdateIndexerProgress_def no_fault_simps calm_def split: option.splits)

definition scan_fits :: "u64 \<Rightarrow> u64 \<Rightarrow> bool" where
  "scan_fits batch lastBlock \<longleftrightarrow> 0 < batch \<and> lastBlock + batch < 2 ^ 64"

lemma u64_batch_end:
  assumes "scan_fits batch lastBlock" and "from \<le> lastBlock"
  shows "u64_add from batch = from + batch" "u64_sub (u64_add from batch) 1 = from + batch - 1"
  using assms by (auto simp: scan_fits_def u64_simps)

lemma initial_scan_loop_step:
  assumes fits: "scan_fits (BatchSize (config c)) lastBlock" and run: "fromBlock \<le> lastBlock" "\<not> ctx_done w (calls w)"
  obtains c2 t2 w2 where
    "initial_scan_loop c fromBlock lastBlock t w =
     initial_scan_loop c2 (fromBlock + BatchSize (config c)) lastBlock t2 w2"
    "accounted w c \<union> {fromBlock..min lastBlock (fromBlock + BatchSize (config c) - 1)} \<subseteq> accounted w2 c2"
    "\<exists>us. c2 = c\<lparr>unscanned := us\<rparr>" "no_loss w w2" "calm w \<longrightarrow> c2 = c \<and> calm w2"
proof -
  let ?b = "BatchSize (config c)" and ?w1 = "w\<lparr>calls := calls w + 1\<rparr>"
  define to where "to = (if lastBlock < fromBlock + ?b - 1 then lastBlock else fromBlock + ?b - 1)"
  obtain r w2 where scan: "run_state (scan fromBlock to) ?w1 = (r, w2)"
    by fastforce
  define c2 where "c2 = (case r of Inl e \<Rightarrow> c\<lparr>unscanned := unscanned c @ [unscanned_batch fromBlock to]\<rparr> | Inr k \<Rightarrow> c)"
  define t2 where "t2 = (case r of Inl e \<Rightarrow> t | Inr k \<Rightarrow> t + k)"
  have "u64_add fromBlock ?b = fromBlock + ?b" "u64_sub (fromBlock + ?b) 1 = fromBlock + ?b - 1"
    using u64_batch_end [OF fits run(1)] by simp_all
  then have "initial_scan_loop c fromBlock lastBlock t w = initial_scan_loop c2 (fromBlock + ?b) lastBlock t2 w2"
    using run
    by (subst initial_scan_loop.simps)
      (simp add: scan Let_def to_def [symmetric] c2_def t2_def split: sum.split split del: if_split del: One_nat_def)
  moreover have "accounted w c \<union> {fromBlock..min lastBlock (fromBlock + ?b - 1)} \<subseteq> accounted w2 c2"
  proof -
    have "accounted ?w1 c \<union> {fromBlock..to} \<subseteq> accounted w2 c2"
      by (rule scan_batch_accounts [OF scan]) (simp add: c2_def split: sum.split)
    moreover have "accounted w c \<subseteq> accounted ?w1 c" "to = min lastBlock (fromBlock + ?b - 1)"
      by (rule no_loss_accounted) (auto simp: to_def)
    ultimately show ?thesis
      by blast
  qed
  moreover have "no_loss w w2"
    using no_loss_scan [OF scan] no_loss_calls no_loss_trans by blast
  moreover have "c = c\<lparr>unscanned := unscanned c\<rparr>"
    by simp
  then have "\<exists>us. c2 = c\<lparr>unscanned := us\<rparr>"
    unfolding c2_def by (cases r) (auto intro: exI [of _ "unscanned c"])
  moreover have "calm w \<longrightarrow> c2 = c \<and> calm w2"
    using calm_scan [of ?w1 fromBlock to] scan by (auto simp: c2_def calm_def)
  ultimately show ?thesis
    using that by blast
qed

lemma initial_scan_loop_accounts:
  assumes "scan_fits (BatchSize (config c)) lastBlock"
  shows "\<exists>fin c' t' w'. initial_scan_loop c fromBlock lastBlock t w = Some (fin, c', t', w') \<and>
    accounted w c \<subseteq> accounted w' c' \<and> (fin \<longrightarrow> {fromBlock..lastBlock} \<subseteq> accounted w' c') \<and>
    (\<exists>us. c' = c\<lparr>unscanned := us\<rparr>) \<and> no_loss w w' \<and> (calm w \<longrightarrow> fin \<and> c' = c \<and> calm w')"
  using assms
proof (induction "Suc lastBlock - fromBlock" arbitrary: c fromBlock t w rule: less_induct)
  case less
  let ?b = "BatchSize (config c)" and ?w1 = "w\<lparr>calls := calls w + 1\<rparr>"
  show ?case
  proof (cases "lastBlock < fromBlock \<or> ctx_done w (calls w)")
    case True
    moreover have "\<exists>us. c = c\<lparr>unscanned := us\<rparr>"
      by (rule exI [of _ "unscanned c"]) simp
    ultimately show ?thesis
      using no_loss_accounted [of w ?w1 c c] by (subst initial_scan_loop.simps) (auto simp: calm_def)
  next
    case False
    obtain c2 t2 w2 where step:
        "initial_scan_loop c fromBlock lastBlock t w = initial_scan_loop c2 (fromBlock + ?b) lastBlock t2 w2"
        "accounted w c \<union> {fromBlock..min lastBlock (fromBlock + ?b - 1)} \<subseteq> accounted w2 c2"
        "\<exists>us. c2 = c\<lparr>unscanned := us\<rparr>" "no_loss w w2" "calm w \<longrightarrow> c2 = c \<and> calm w2"
      using initial_scan_loop_step [OF less.prems, of fromBlock w t] False by (metis not_le)
    have "Suc lastBlock - (fromBlock + ?b) < Suc lastBlock - fromBlock" "scan_fits (BatchSize (config c2)) lastBlock"
      using False less.prems step(3) by (auto simp: scan_fits_def)
    then obtain fin c' t' w' where rest:
        "initial_scan_loop c2 (fromBlock + ?b) lastBlock t2 w2 = Some (fin, c', t', w')"
        "accounted w2 c2 \<subseteq> accounted w' c'" "fin \<longrightarrow> {fromBlock + ?b..lastBlock} \<subseteq> accounted w' c'"
        "\<exists>us. c' = c2\<lparr>unscanned := us\<rparr>" "no_loss w2 w'" "calm w2 \<longrightarrow> fin \<and> c' = c2 \<and> calm w'"
      using less.hyps [of "fromBlock + ?b" c2 t2 w2] by blast
    have "{fromBlock..lastBlock} \<subseteq> {fromBlock..min lastBlock (fromBlock + ?b - 1)} \<union> {fromBlock + ?b..lastBlock}"
      by auto
    then have "fin \<longrightarrow> {fromBlock..lastBlock} \<subseteq> accounted w' c'" and "accounted w c \<subseteq> accounted w' c'"
      using rest(2,3) step(2) by blast+
    moreover have "\<exists>us. c' = c\<lparr>unscanned := us\<rparr>"
      using step(3) rest(4) by auto
    ultimately show ?thesis
      using step(1,5) rest(1,6) no_loss_trans [OF step(4) rest(5)] by auto
  qed
qed

lemma rescan_loop_accounts:
  "\<exists>rest w'. run_state (rescan_loop rs) w = (rest, w') \<and> no_loss w w' \<and>
     ranges_cover rs \<subseteq> settled w' \<union> mcover w' \<union> ranges_cover rest"
proof (induction rs arbitrary: w)
  case (Cons r rs)
  let ?w1 = "w\<lparr>calls := calls w + 1\<rparr>"
  obtain q w2 where scan: "run_state (scan (FromNumber r) (ToNumber r)) ?w1 = (q, w2)"
    by fastforce
  have loss: "no_loss w w2"
    using no_loss_scan [OF scan] no_loss_calls no_loss_trans by blast
  show ?case
  proof (cases "ctx_done w (calls w)")
    case False
    show ?thesis
    proof (cases q)
      case (Inl e)
      then show ?thesis
        using False scan loss by auto
    next
      case (Inr k)
      obtain rest w' where rest: "run_state (rescan_loop rs) w2 = (rest, w')" "no_loss w2 w'"
        "ranges_cover rs \<subseteq> settled w' \<union> mcover w' \<union> ranges_cover rest"
        using Cons.IH by blast
      moreover have "{FromNumber r..ToNumber r} \<subseteq> settled w' \<union> mcover w'"
        using missing.scan_accounts [OF scan [unfolded Inr]] no_loss_mono [OF rest(2)] by fast
      ultimately show ?thesis
        using False scan Inr no_loss_trans [OF loss rest(2)] by auto
    qed
  qed auto
qed auto

text \<open>A rescan keeps every account: a batch leaves the list only once its gaps are recorded.\<close>

lemma rescanFailed_accounts:
  assumes "run_state (rescanFailed c) w = (c', w')"
  shows "accounted w c \<subseteq> accounted w' c' \<and> no_loss w w' \<and> (\<exists>us. c' = c\<lparr>unscanned := us\<rparr>)"
proof -
  obtain rest where rest: "c' = c\<lparr>unscanned := rest\<rparr>" "no_loss w w'"
    "ranges_cover (unscanned c) \<subseteq> settled w' \<union> mcover w' \<union> ranges_cover rest"
    using assms rescan_loop_accounts [of "unscanned c" w] by (auto simp: rescanFailed_def)
  have "unscanned c' = rest"
    by (simp add: rest)
  then have "accounted w c \<subseteq> accounted w' c'"
    using no_loss_mono [OF rest(2)] rest(3) unfolding accounted_def by fast
  then show ?thesis
    using rest by blast
qed

definition backward_from :: "collector \<Rightarrow> nat" where
  "backward_from c = max (if BatchSize (config c) < minFetchedBlock c - 1
     then minFetchedBlock c - BatchSize (config c) else 0) (FirstBlock (config c))"

lemma scanBackward_unfold:
  assumes "is_u64 (minFetchedBlock c)"
  shows "scanBackward c =
    (if minFetchedBlock c \<le> FirstBlock (config c) \<or> minFetchedBlock c \<le> backward_from c then State_Monad.return c
     else do {
       found \<leftarrow> scan (backward_from c) (minFetchedBlock c - 1);
       case found of
         Inl e \<Rightarrow> State_Monad.return c
       | Inr _ \<Rightarrow> do {
           _ \<leftarrow> UpdateIndexerProgress (backward_from c) (maxFetchedBlock c) (backfillComplete c);
           State_Monad.return (c\<lparr>minFetchedBlock := backward_from c\<rparr>)
         }
     })"
proof (cases "minFetchedBlock c \<le> FirstBlock (config c)")
  case False
  then have to: "u64_sub (minFetchedBlock c) 1 = minFetchedBlock c - 1"
    using assms by (auto simp: u64_simps is_u64_def)
  have "u64_add (u64_sub (minFetchedBlock c - 1) (BatchSize (config c))) 1 = minFetchedBlock c - BatchSize (config c)"
    if "BatchSize (config c) < minFetchedBlock c - 1"
    using that assms by (auto simp: u64_simps is_u64_def)
  then have lo: "max (if BatchSize (config c) < minFetchedBlock c - 1
      then u64_add (u64_sub (minFetchedBlock c - 1) (BatchSize (config c))) 1 else 0) (FirstBlock (config c)) = backward_from c"
    by (simp add: backward_from_def)
  have "(minFetchedBlock c - 1 < backward_from c) = (minFetchedBlock c \<le> backward_from c)"
    using False by auto
  then show ?thesis
    using False unfolding scanBackward_def Let_def to lo by (simp del: One_nat_def)
qed (simp add: scanBackward_def)

text \<open>A backward tick moves the lower cursor down only over blocks it has accounted for.\<close>

lemma scanBackward_accounts:
  assumes run: "run_state (scanBackward c) w = (c', w')" and fits: "is_u64 (minFetchedBlock c)"
  shows "no_loss w w' \<and> (\<exists>m \<le> minFetchedBlock c. c' = c\<lparr>minFetchedBlock := m\<rparr> \<and>
    {m..<minFetchedBlock c} \<subseteq> settled w' \<union> mcover w')"
proof -
  let ?a = "backward_from c" and ?m = "minFetchedBlock c"
  obtain q w1 where scan: "run_state (scan ?a (?m - 1)) w = (q, w1)"
    by fastforce
  have same: ?thesis if "c' = c" "no_loss w w'"
    using that by (auto intro!: exI [of _ ?m])
  show ?thesis
  proof (cases "?m \<le> FirstBlock (config c) \<or> ?m \<le> ?a")
    case True
    then have "c' = c" "w' = w"
      using run unfolding scanBackward_unfold [OF fits] by simp_all
    then show ?thesis
      using same by simp
  next
    case False
    show ?thesis
    proof (cases q)
      case (Inl e)
      then have "c' = c" "w' = w1"
        using run scan False unfolding scanBackward_unfold [OF fits] by simp_all
      then show ?thesis
        using same no_loss_scan [OF scan] by simp
    next
      case (Inr k)
      then have c': "c' = c\<lparr>minFetchedBlock := ?a\<rparr>" and "no_loss w1 w'"
        using run scan False no_loss_progress [of w1 ?a "maxFetchedBlock c" "backfillComplete c"]
        unfolding scanBackward_unfold [OF fits] by (simp_all split: prod.splits)
      moreover have "{?a..?m - 1} \<subseteq> settled w' \<union> mcover w'"
        using missing.scan_accounts [OF scan [unfolded Inr]] no_loss_mono [OF \<open>no_loss w1 w'\<close>] by fast
      moreover have "{?a..<?m} \<subseteq> {?a..?m - 1}"
        by auto
      ultimately have "{?a..<?m} \<subseteq> settled w' \<union> mcover w'"
        by fast
      then show ?thesis
        using c' False no_loss_trans [OF no_loss_scan [OF scan] \<open>no_loss w1 w'\<close>] by (auto intro!: exI [of _ ?a])
    qed
  qed
qed

lemma scan_forward_loop_step:
  assumes fits: "scan_fits batch toBlock" and run: "from \<le> toBlock" "\<not> ctx_done w (calls w)"
  obtains (stop) w2 where "scan_forward_loop batch head from toBlock c w = Some (c, w2)" "no_loss w w2" "\<not> calm w"
  | (go) w3 where "scan_forward_loop batch head from toBlock c w = scan_forward_loop batch head (from + batch) toBlock
      (c\<lparr>maxFetchedBlock := min (from + batch - 1) toBlock, chainHead := max (chainHead c) head\<rparr>) w3"
      "no_loss w w3" "{from..min (from + batch - 1) toBlock} \<subseteq> settled w3 \<union> mcover w3" "calm w \<longrightarrow> calm w3"
proof -
  let ?w1 = "w\<lparr>calls := calls w + 1\<rparr>" and ?to = "min (from + batch - 1) toBlock"
  obtain r w2 where scan: "run_state (scan from ?to) ?w1 = (r, w2)"
    by fastforce
  have calm1: "calm w \<Longrightarrow> calm ?w1"
    by (simp add: calm_def)
  have loss: "no_loss w w2"
    using no_loss_scan [OF scan] no_loss_calls no_loss_trans by blast
  define w3 where "w3 = snd (run_state (UpdateIndexerProgress (minFetchedBlock c) ?to (backfillComplete c)) w2)"
  have step: "scan_forward_loop batch head from toBlock c w =
    (case r of Inl e \<Rightarrow> Some (c, w2)
     | Inr k \<Rightarrow> scan_forward_loop batch head (from + batch) toBlock
         (c\<lparr>maxFetchedBlock := ?to, chainHead := max (chainHead c) head\<rparr>) w3)"
    using run u64_batch_end [OF fits run(1)] scan
    by (subst scan_forward_loop.simps) (simp add: Let_def w3_def split: sum.split del: One_nat_def)
  show ?thesis
  proof (cases r)
    case (Inl e)
    then show ?thesis
      using stop step loss scan calm_scan [OF calm1, of "from" ?to] by fastforce
  next
    case (Inr k)
    have "no_loss w2 w3" "calm w \<longrightarrow> calm w3"
      using no_loss_progress calm_progress calm_scan [OF calm1, of "from" ?to] scan by (auto simp: w3_def)
    moreover have "{from..?to} \<subseteq> settled w3 \<union> mcover w3"
      using missing.scan_accounts [OF scan [unfolded Inr]] no_loss_mono [OF \<open>no_loss w2 w3\<close>] by fast
    ultimately show ?thesis
      using go [of w3] step Inr no_loss_trans [OF loss] by simp
  qed
qed

lemma scan_forward_loop_accounts:
  assumes "scan_fits batch toBlock" and "toBlock < from \<or> from = maxFetchedBlock c + 1"
  shows "\<exists>c' w'. scan_forward_loop batch head from toBlock c w = Some (c', w') \<and> no_loss w w' \<and>
    maxFetchedBlock c \<le> maxFetchedBlock c' \<and> {maxFetchedBlock c<..maxFetchedBlock c'} \<subseteq> settled w' \<union> mcover w' \<and>
    (\<exists>m h. c' = c\<lparr>maxFetchedBlock := m, chainHead := h\<rparr>) \<and>
    maxFetchedBlock c' \<le> max toBlock (maxFetchedBlock c) \<and>
    (calm w \<longrightarrow> toBlock < from \<or> maxFetchedBlock c' = toBlock)"
  using assms(2)
proof (induction "Suc toBlock - from" arbitrary: c "from" w rule: less_induct)
  case less
  have refl: "\<exists>m h. c = c\<lparr>maxFetchedBlock := m, chainHead := h\<rparr>"
    by (rule exI [of _ "maxFetchedBlock c"], rule exI [of _ "chainHead c"]) simp
  show ?case
  proof (cases "toBlock < from \<or> ctx_done w (calls w)")
    case True
    then show ?thesis
      using refl by (subst scan_forward_loop.simps) (auto simp: calm_def)
  next
    case False
    then have run: "from \<le> toBlock" "\<not> ctx_done w (calls w)" and mx: "from = maxFetchedBlock c + 1"
      using less.prems by auto
    show ?thesis
    proof (cases rule: scan_forward_loop_step [OF assms(1) run, of head c])
      case (1 w2)
      then show ?thesis
        using refl by auto
    next
      case (2 w3)
      let ?c2 = "c\<lparr>maxFetchedBlock := min (from + batch - 1) toBlock, chainHead := max (chainHead c) head\<rparr>"
      have "Suc toBlock - (from + batch) < Suc toBlock - from"
        "toBlock < from + batch \<or> from + batch = maxFetchedBlock ?c2 + 1"
        using assms(1) run by (auto simp: scan_fits_def)
      then obtain c' w' where rest:
          "scan_forward_loop batch head (from + batch) toBlock ?c2 w3 = Some (c', w')" "no_loss w3 w'"
          "maxFetchedBlock ?c2 \<le> maxFetchedBlock c'"
          "{maxFetchedBlock ?c2<..maxFetchedBlock c'} \<subseteq> settled w' \<union> mcover w'"
          "\<exists>m h. c' = ?c2\<lparr>maxFetchedBlock := m, chainHead := h\<rparr>"
          "maxFetchedBlock c' \<le> max toBlock (maxFetchedBlock ?c2)"
          "calm w3 \<longrightarrow> toBlock < from + batch \<or> maxFetchedBlock c' = toBlock"
        using less.hyps [of "from + batch" ?c2 w3] by blast
      have "{from..min (from + batch - 1) toBlock} \<subseteq> settled w' \<union> mcover w'"
        using 2(3) no_loss_mono [OF rest(2)] by fast
      moreover have "{maxFetchedBlock c<..maxFetchedBlock c'} \<subseteq>
          {from..min (from + batch - 1) toBlock} \<union> {maxFetchedBlock ?c2<..maxFetchedBlock c'}"
        using mx by auto
      ultimately have "{maxFetchedBlock c<..maxFetchedBlock c'} \<subseteq> settled w' \<union> mcover w'"
        using rest(4) by fast
      moreover have "\<exists>m h. c' = c\<lparr>maxFetchedBlock := m, chainHead := h\<rparr>" "maxFetchedBlock c \<le> maxFetchedBlock c'"
        using rest(3,5) mx run(1) by auto
      moreover have "maxFetchedBlock c' \<le> toBlock" "calm w \<longrightarrow> maxFetchedBlock c' = toBlock"
        using rest(3,6,7) 2(4) by auto
      ultimately show ?thesis
        using 2(1) rest(1) no_loss_trans [OF 2(2) rest(2)] by auto
    qed
  qed
qed

section \<open>The collector's interleavings\<close>

definition heads_fit :: "world \<Rightarrow> collector \<Rightarrow> bool" where
  "heads_fit w c \<longleftrightarrow> (\<forall>k head. nodeHead (node w) k = Inr head \<longrightarrow> scan_fits (max (BatchSize (config c)) 1) head)"

lemma scanForward_rescans:
  obtains us w1 where "run_state (rescanFailed c) w = (c\<lparr>unscanned := us\<rparr>, w1)" "node w1 = node w"
    "accounted w c \<subseteq> accounted w1 (c\<lparr>unscanned := us\<rparr>)"
proof -
  obtain us w1 where run: "run_state (rescan_loop (unscanned c)) w = (us, w1)"
    by fastforce
  then have "run_state (rescanFailed c) w = (c\<lparr>unscanned := us\<rparr>, w1)"
    by (simp add: rescanFailed_def)
  moreover have "node w1 = node w"
    using keepsD [OF keeps_node_rescan_loop [of "node w" "unscanned c"], of w] run by simp
  ultimately show ?thesis
    using that rescanFailed_accounts by blast
qed

text \<open>
  A forward tick returns, keeps every account, and moves the upper cursor only over blocks it has
  accounted for.
\<close>

lemma scanForward_accounts:
  assumes "heads_fit w c"
  shows "\<exists>c' w'. scanForward c w = Some (c', w') \<and> accounted w c \<subseteq> accounted w' c' \<and>
    maxFetchedBlock c \<le> maxFetchedBlock c' \<and> {maxFetchedBlock c<..maxFetchedBlock c'} \<subseteq> accounted w' c' \<and>
    config c' = config c \<and> minFetchedBlock c' = minFetchedBlock c \<and> node w' = node w"
proof -
  obtain us w1 where re: "run_state (rescanFailed c) w = (c\<lparr>unscanned := us\<rparr>, w1)" "node w1 = node w"
    "accounted w c \<subseteq> accounted w1 (c\<lparr>unscanned := us\<rparr>)"
    by (rule scanForward_rescans)
  let ?c1 = "c\<lparr>unscanned := us\<rparr>" and ?w2 = "w1\<lparr>calls := calls w1 + 1\<rparr>"
  have acc: "accounted w c \<subseteq> accounted ?w2 ?c1"
    using re(3) no_loss_accounted [OF no_loss_calls, of ?c1 ?c1] by fast
  show ?thesis
  proof (cases "nodeHead (node w) (calls w1)")
    case (Inl e)
    then show ?thesis
      using re acc by (auto simp: scanForward_def)
  next
    case (Inr head)
    define toBlock where "toBlock = (case ceiling c of None \<Rightarrow> head | Some f \<Rightarrow> min head (f (calls ?w2)))"
    have "toBlock \<le> head"
      by (auto simp: toBlock_def split: option.split)
    then have fits: "scan_fits (max (BatchSize (config c)) 1) toBlock"
      using assms Inr by (fastforce simp: heads_fit_def scan_fits_def)
    show ?thesis
    proof (cases "toBlock \<le> maxFetchedBlock c")
      case True
      then have "scanForward c w = Some (?c1\<lparr>chainHead := max (chainHead c) head\<rparr>, ?w2)"
        using re Inr by (simp add: scanForward_def Let_def toBlock_def [symmetric] del: One_nat_def)
      then show ?thesis
        using acc re(2) by (auto simp: accounted_def)
    next
      case False
      then have nxt: "u64_add (maxFetchedBlock c) 1 = maxFetchedBlock c + 1"
        using fits by (auto simp: u64_simps scan_fits_def)
      obtain c' w' where loop:
          "scan_forward_loop (max (BatchSize (config c)) 1) head (maxFetchedBlock c + 1) toBlock ?c1 ?w2 = Some (c', w')"
          "no_loss ?w2 w'" "maxFetchedBlock ?c1 \<le> maxFetchedBlock c'"
          "{maxFetchedBlock ?c1<..maxFetchedBlock c'} \<subseteq> settled w' \<union> mcover w'"
          "\<exists>m h. c' = ?c1\<lparr>maxFetchedBlock := m, chainHead := h\<rparr>"
        using scan_forward_loop_accounts [OF fits, of "maxFetchedBlock c + 1" ?c1 head ?w2] by auto
      have "scanForward c w = Some (c', w')"
        using re Inr False nxt loop(1) by (simp add: scanForward_def Let_def toBlock_def [symmetric] del: One_nat_def)
      moreover have "accounted ?w2 ?c1 \<subseteq> accounted w' c'"
        using loop(5) by (intro no_loss_accounted loop(2)) auto
      ultimately show ?thesis
        using acc loop(2-5) re(2) by (auto simp: accounted_def no_loss_def)
    qed
  qed
qed

text \<open>
  After \<open>Start\<close> the two scanners tick in any order.  \<open>collector_run\<close> is every interleaving of their
  ticks.
\<close>

inductive collector_run :: "collector \<Rightarrow> world \<Rightarrow> collector \<Rightarrow> world \<Rightarrow> bool" for c0 w0 where
  started: "collector_run c0 w0 c0 w0"
| backward: "collector_run c0 w0 c w \<Longrightarrow> run_state (backwardScanner_tick c) w = (c', w') \<Longrightarrow> collector_run c0 w0 c' w'"
| forward: "collector_run c0 w0 c w \<Longrightarrow> scanForward c w = Some (c', w') \<Longrightarrow> collector_run c0 w0 c' w'"

lemma keeps_node_backward: "keeps (node_is N) (backwardScanner_tick c)"
  unfolding backwardScanner_tick_def scanBackward_def
  by (intro keeps_intros keeps_node_scan keeps_node_progress)

lemma backward_tick_accounts:
  assumes run: "run_state (backwardScanner_tick c) w = (c', w')" and fits: "is_u64 (minFetchedBlock c)"
  shows "accounted w c \<subseteq> accounted w' c' \<and> {minFetchedBlock c'..<minFetchedBlock c} \<subseteq> accounted w' c' \<and>
    minFetchedBlock c' \<le> minFetchedBlock c \<and> maxFetchedBlock c' = maxFetchedBlock c \<and> config c' = config c"
proof -
  obtain c1 w1 where bk: "run_state (scanBackward c) w = (c1, w1)"
    by fastforce
  obtain m where m: "no_loss w w1" "m \<le> minFetchedBlock c" "c1 = c\<lparr>minFetchedBlock := m\<rparr>"
    "{m..<minFetchedBlock c} \<subseteq> settled w1 \<union> mcover w1"
    using scanBackward_accounts [OF bk fits] by blast
  obtain d where c': "c' = c1\<lparr>backfillComplete := d\<rparr>"
    using run bk by (auto simp: backwardScanner_tick_def split: if_splits prod.splits intro: that [of "backfillComplete c1"])
  have loss: "no_loss w1 w'"
    using run bk no_loss_progress [of w1 "minFetchedBlock c1" "maxFetchedBlock c1" True]
    by (auto simp: backwardScanner_tick_def split: if_splits prod.splits)
  have "accounted w c \<subseteq> accounted w' c'"
    using c' m(3) by (intro no_loss_accounted no_loss_trans [OF m(1) loss]) simp
  moreover have "{m..<minFetchedBlock c} \<subseteq> accounted w' c'"
    using m(4) no_loss_mono [OF loss] unfolding accounted_def by fast
  ultimately show ?thesis
    using m c' by simp
qed

definition run_inv :: "collector \<Rightarrow> world \<Rightarrow> collector \<Rightarrow> world \<Rightarrow> bool" where
  "run_inv c0 w0 c w \<longleftrightarrow>
     accounted w0 c0 \<subseteq> accounted w c \<and>
     {maxFetchedBlock c0<..maxFetchedBlock c} \<subseteq> accounted w c \<and>
     {minFetchedBlock c..<minFetchedBlock c0} \<subseteq> accounted w c \<and>
     minFetchedBlock c \<le> minFetchedBlock c0 \<and> maxFetchedBlock c0 \<le> maxFetchedBlock c \<and>
     config c = config c0 \<and> node w = node w0"

lemma run_inv_step:
  assumes "run_inv c0 w0 c w" and "accounted w c \<subseteq> accounted w' c'"
    and "{maxFetchedBlock c<..maxFetchedBlock c'} \<subseteq> accounted w' c'" "maxFetchedBlock c \<le> maxFetchedBlock c'"
    and "{minFetchedBlock c'..<minFetchedBlock c} \<subseteq> accounted w' c'" "minFetchedBlock c' \<le> minFetchedBlock c"
    and "config c' = config c" "node w' = node w"
  shows "run_inv c0 w0 c' w'"
proof -
  have ivl: "{maxFetchedBlock c0<..maxFetchedBlock c'} \<subseteq> {maxFetchedBlock c0<..maxFetchedBlock c} \<union> {maxFetchedBlock c<..maxFetchedBlock c'}"
    "{minFetchedBlock c'..<minFetchedBlock c0} \<subseteq> {minFetchedBlock c..<minFetchedBlock c0} \<union> {minFetchedBlock c'..<minFetchedBlock c}"
    by auto
  have inv: "accounted w0 c0 \<subseteq> accounted w c" "{maxFetchedBlock c0<..maxFetchedBlock c} \<subseteq> accounted w c"
    "{minFetchedBlock c..<minFetchedBlock c0} \<subseteq> accounted w c"
    using assms(1) by (simp_all add: run_inv_def)
  have "accounted w0 c0 \<subseteq> accounted w' c'" "{maxFetchedBlock c0<..maxFetchedBlock c'} \<subseteq> accounted w' c'"
    "{minFetchedBlock c'..<minFetchedBlock c0} \<subseteq> accounted w' c'"
  proof -
    show "accounted w0 c0 \<subseteq> accounted w' c'"
      using inv(1) assms(2) by fast
    show "{maxFetchedBlock c0<..maxFetchedBlock c'} \<subseteq> accounted w' c'"
      using inv(2) assms(2,3) ivl(1) by fast
    show "{minFetchedBlock c'..<minFetchedBlock c0} \<subseteq> accounted w' c'"
      using inv(3) assms(2,5) ivl(2) by fast
  qed
  then show ?thesis
    using assms(1,4,6-8) by (simp add: run_inv_def)
qed

lemma collector_run_inv:
  assumes "collector_run c0 w0 c w" and "is_u64 (minFetchedBlock c0)" and "heads_fit w0 c0"
  shows "run_inv c0 w0 c w"
  using assms(1)
proof induction
  case started
  then show ?case
    by (simp add: run_inv_def)
next
  case (backward c w c' w')
  then have "is_u64 (minFetchedBlock c)"
    using assms(2) by (simp add: run_inv_def is_u64_def)
  moreover have "node w' = node w"
    using keepsD [OF keeps_node_backward [of "node w" c], of w] backward by simp
  ultimately show ?case
    using run_inv_step [OF backward.IH] backward_tick_accounts [OF backward.hyps(2)] by simp
next
  case (forward c w c' w')
  then have "heads_fit w c"
    using assms(3) by (simp add: run_inv_def heads_fit_def)
  then show ?case
    using run_inv_step [OF forward.IH] scanForward_accounts [of w c] forward.hyps(2) by force
qed

text \<open>Undisturbed, a forward tick empties the list of failed batches and reaches the head, or the ceiling.\<close>

lemma rescan_loop_calm:
  "calm w \<Longrightarrow> \<exists>w'. run_state (rescan_loop rs) w = ([], w') \<and> calm w'"
proof (induction rs arbitrary: w)
  case (Cons r rs)
  let ?w1 = "w\<lparr>calls := calls w + 1\<rparr>"
  obtain k w2 where scan: "run_state (scan (FromNumber r) (ToNumber r)) ?w1 = (Inr k, w2)" "calm w2"
    using calm_scan [of ?w1 "FromNumber r" "ToNumber r"] Cons.prems unfolding calm_def by auto
  then show ?case
    using Cons.IH [OF scan(2)] Cons.prems by (auto simp: calm_def)
qed simp

lemma scanForward_calm:
  assumes "calm w" and "heads_fit w c" and "\<And>k. nodeHead (node w) k = Inr head"
    and "\<And>k. (case ceiling c of None \<Rightarrow> head | Some f \<Rightarrow> min head (f k)) = toBlock"
  shows "\<exists>c' w'. scanForward c w = Some (c', w') \<and> unscanned c' = [] \<and>
    maxFetchedBlock c' = max (maxFetchedBlock c) toBlock"
proof -
  obtain w1 where re: "run_state (rescan_loop (unscanned c)) w = ([], w1)" "calm w1"
    using rescan_loop_calm [OF assms(1)] by blast
  then have node: "node w1 = node w"
    using keepsD [OF keeps_node_rescan_loop [of "node w" "unscanned c"], of w] by simp
  let ?c1 = "c\<lparr>unscanned := []\<rparr>" and ?w2 = "w1\<lparr>calls := calls w1 + 1\<rparr>"
  have run: "run_state (rescanFailed c) w = (?c1, w1)"
    using re by (simp add: rescanFailed_def)
  have "toBlock \<le> head"
    using assms(4) [of 0] by (auto split: option.splits)
  then have fits: "scan_fits (max (BatchSize (config c)) 1) toBlock"
    using assms(2,3) by (fastforce simp: heads_fit_def scan_fits_def)
  have "scanForward c w =
      (if toBlock \<le> maxFetchedBlock c then Some (?c1\<lparr>chainHead := max (chainHead c) head\<rparr>, ?w2)
       else scan_forward_loop (max (BatchSize (config c)) 1) head (u64_add (maxFetchedBlock c) 1) toBlock ?c1 ?w2)"
    using run node assms(3) assms(4) [of "calls ?w2"] by (simp add: scanForward_def Let_def del: One_nat_def)
  moreover have "u64_add (maxFetchedBlock c) 1 = maxFetchedBlock c + 1" if "\<not> toBlock \<le> maxFetchedBlock c"
    using fits that by (auto simp: u64_simps scan_fits_def)
  moreover have "calm ?w2"
    using re(2) by (simp add: calm_def)
  ultimately show ?thesis
    using scan_forward_loop_accounts [OF fits, of "maxFetchedBlock c + 1" ?c1 head ?w2]
    by (cases "toBlock \<le> maxFetchedBlock c") auto
qed

section \<open>Starting\<close>

lemma start_cursors_frame:
  assumes "run_state (start_cursors lastBlock c) w = (Inr c', w')"
  shows "config c' = config c \<and> unscanned c' = unscanned c"
  using assms
  by (auto simp: start_cursors_def start_fresh_def Let_def split: prod.splits sum.splits if_splits)

lemma start_cursors_calm:
  assumes "calm w"
  shows "\<exists>c' w'. run_state (start_cursors lastBlock c) w = (Inr c', w') \<and> calm w'"
proof -
  have "\<exists>c' w'. run_state (start_fresh lastBlock c) w = (Inr c', w') \<and> calm w'"
    using assms calm_progress [OF assms]
    by (auto simp: start_fresh_def GetMinMaxIndexedBlocks_def no_fault_simps calm_def Let_def split: prod.splits)
      (metis snd_conv)+
  then show ?thesis
    using assms by (auto simp: start_cursors_def GetIndexerProgress_def no_fault_simps calm_def)
qed

text \<open>C7. The collector's start returns, for every batch size and head that fit 64 bits.  When it succeeds,
  every block of the configured interval is stored, pruned, recorded as missing, or in a batch kept to
  be scanned again.  With no database fault and no cancellation it does succeed, and keeps no batch
  back.\<close>

theorem Start_accounts:
  assumes head: "nodeHead (node w) (calls w) = Inr head"
    and fits: "scan_fits (BatchSize (config c)) (start_last_block (config c) head)"
  shows "\<exists>r c' w'. Start c w = Some (r, c', w') \<and>
    (r = Inr () \<longrightarrow> {FirstBlock (config c)..start_last_block (config c) head} \<subseteq> accounted w' c') \<and>
    (calm w \<longrightarrow> r = Inr () \<and> unscanned c' = unscanned c)"
proof -
  let ?last = "start_last_block (config c) head" and ?c1 = "c\<lparr>chainHead := head\<rparr>" and ?w1 = "w\<lparr>calls := calls w + 1\<rparr>"
  obtain q w2 where cur: "run_state (start_cursors ?last ?c1) ?w1 = (q, w2)"
    by fastforce
  have calm: "calm w \<Longrightarrow> (\<exists>c2. q = Inr c2) \<and> calm w2"
    using start_cursors_calm [of ?w1 ?last ?c1] cur by (auto simp: calm_def)
  show ?thesis
  proof (cases q)
    case (Inl e)
    then show ?thesis
      using head cur calm by (auto simp: Start_def Let_def)
  next
    case (Inr c2)
    then have c2: "config c2 = config c" "unscanned c2 = unscanned c"
      using start_cursors_frame [of ?last ?c1 ?w1 c2 w2] cur by auto
    obtain fin c' t' w' where loop:
        "initial_scan_loop c2 (FirstBlock (config c)) ?last 0 w2 = Some (fin, c', t', w')"
        "fin \<longrightarrow> {FirstBlock (config c)..?last} \<subseteq> accounted w' c'" "calm w2 \<longrightarrow> fin \<and> c' = c2"
      using initial_scan_loop_accounts [of c2 ?last "FirstBlock (config c)" 0 w2] fits c2(1) by auto
    have scan: "Start c w = (if fin then Some (Inr (), c'\<lparr>initialScanDone := True\<rparr>, snd (run_state GetTotalMissingBlocks w'))
        else Some (Inl CollectorCancelled, c', w'))"
      using head cur Inr loop(1) c2(1) by (simp add: Start_def initialScan_def Let_def)
    have "accounted w' c' \<subseteq> accounted (snd (run_state GetTotalMissingBlocks w')) (c'\<lparr>initialScanDone := True\<rparr>)"
      unfolding GetTotalMissingBlocks_def by (intro no_loss_accounted no_loss_query) simp
    then show ?thesis
      using scan loop(2,3) calm c2(2) by (cases fin) auto
  qed
qed

definition sample_collector :: collector where
  "sample_collector = NewMissingRangeCollector (Some
     \<lparr>BatchSize = 2, BackwardScanInterval = 10, ForwardScanInterval = 60000, FirstBlock = 0, LastBlock = 0\<rparr>)"

lemma Start_accounts_witness:
  "calm empty_world \<and> (\<exists>c' w'. Start sample_collector empty_world = Some (Inr (), c', w') \<and>
     {0..3} \<subseteq> accounted w' c' \<and> unscanned c' = [])"
proof -
  have "calm empty_world"
    by (simp add: calm_def empty_world_def)
  moreover have "FirstBlock (config sample_collector) = 0" "start_last_block (config sample_collector) 3 = 3"
    "unscanned sample_collector = []" "scan_fits (BatchSize (config sample_collector)) 3"
    by (simp_all add: sample_collector_def NewMissingRangeCollector_def start_last_block_def scan_fits_def)
  moreover have "nodeHead (node empty_world) (calls empty_world) = Inr 3"
    by (simp add: empty_world_def sample_node_def)
  ultimately show ?thesis
    using Start_accounts [of empty_world 3 sample_collector] by auto
qed

text \<open>C8. However the backward and the forward scanner interleave, and whatever database calls fail, no
  account is lost, and the cursors pass only over blocks that are stored, pruned, recorded as missing
  or kept to be scanned again.\<close>

theorem collector_never_loses_a_block:
  assumes "collector_run c0 w0 c w" and "is_u64 (minFetchedBlock c0)" and "heads_fit w0 c0"
  shows "accounted w0 c0 \<union> {maxFetchedBlock c0<..maxFetchedBlock c} \<union> {minFetchedBlock c..<minFetchedBlock c0}
    \<subseteq> accounted w c"
  using collector_run_inv [OF assms] by (simp add: run_inv_def)

lemma collector_never_loses_a_block_witness:
  "\<exists>c w. collector_run sample_collector empty_world c w \<and> maxFetchedBlock c = 3 \<and> {0<..3} \<subseteq> accounted w c"
proof -
  have fits: "heads_fit empty_world sample_collector" "is_u64 (minFetchedBlock sample_collector)"
    by (simp_all add: heads_fit_def empty_world_def sample_node_def sample_collector_def
        NewMissingRangeCollector_def scan_fits_def is_u64_def)
  obtain c w where fw: "scanForward sample_collector empty_world = Some (c, w)"
    using scanForward_accounts [OF fits(1)] by blast
  have "maxFetchedBlock c = 3"
    using scanForward_calm [of empty_world sample_collector 3 3] fits fw
    by (auto simp: calm_def empty_world_def sample_node_def sample_collector_def NewMissingRangeCollector_def)
  moreover have "collector_run sample_collector empty_world c w"
    using fw by (rule collector_run.forward [OF collector_run.started])
  ultimately show ?thesis
    using collector_never_loses_a_block [OF _ fits(2,1), of c w]
    by (auto simp: sample_collector_def NewMissingRangeCollector_def)
qed

end
