(* ===== verification/Abi_Text.thy ===== *)
theory Abi_Text
  imports Eth_Common
begin

text \<open>
  Numbers and strings in the answers of contract calls: big-endian numbers (\<open>big.Int.SetBytes\<close>,
  \<open>Uint64\<close>, \<open>Int64\<close>) and the two copies of \<open>parseStringResult\<close> (\<open>internal/rpc/rpc.go\<close> and
  \<open>internal/indexer/indexer.go\<close>), which read an ABI-encoded string.  A slice out of range is a run-time
  panic, the value \<open>None\<close>.

  The theorems: both copies read back every string the ABI encodes, and each panics exactly when the
  string's length field is so large that the end of the string wraps around 64 bits.
\<close>

section \<open>Numbers\<close>

definition SetBytes :: "bytes \<Rightarrow> nat" where
  "SetBytes bs = foldl (\<lambda>a b. 256 * a + unat b) 0 bs"

definition big_Uint64 :: "int \<Rightarrow> u64" where
  "big_Uint64 i = nat \<bar>i\<bar> mod 2 ^ 64"

definition big_Int64 :: "nat \<Rightarrow> int" where
  "big_Int64 n = (let v = n mod 2 ^ 64 in if v < 2 ^ 63 then int v else int v - 2 ^ 64)"

section \<open>Strings\<close>

text \<open>The first copy cuts at the first zero byte, the second trims zero bytes from the right.\<close>

definition before_zero :: "bytes \<Rightarrow> bytes" where
  "before_zero = takeWhile (\<lambda>b. b \<noteq> 0)"

definition trim_zeros :: "bytes \<Rightarrow> bytes" where
  "trim_zeros bs = rev (dropWhile (\<lambda>b. b = 0) (rev bs))"

definition parse_string :: "(bytes \<Rightarrow> bytes) \<Rightarrow> bytes \<Rightarrow> string option" where
  "parse_string clean data =
     (let n = length data in
      if n < 64 then Some (string_of_bytes (clean data))
      else
        let offset = SetBytes (take 32 data) mod 2 ^ 64 in
        if n \<le> offset then Some []
        else if n < u64_add offset 32 then Some []
        else case go_slice data offset (u64_add offset 32) of
               None \<Rightarrow> None
             | Some word \<Rightarrow>
                 let len = SetBytes word mod 2 ^ 64; start = u64_add offset 32; stop = u64_add start len in
                 if n < stop then Some []
                 else map_option (\<lambda>text. string_of_bytes (clean text)) (go_slice data start stop))"

definition parseStringResult :: "bytes \<Rightarrow> string option" where
  "parseStringResult = parse_string before_zero"

definition indexer_parseStringResult :: "bytes \<Rightarrow> string option" where
  "indexer_parseStringResult = parse_string trim_zeros"

text \<open>The ABI encoding of a string as the result of a call: the offset 32, the length, the bytes, and zeros up to a
  multiple of 32.\<close>

definition bytes_be :: "nat \<Rightarrow> nat \<Rightarrow> bytes" where
  "bytes_be k n = rev (map (\<lambda>i. word_of_nat (n div 256 ^ i)) [0..<k])"

definition abi_string :: "bytes \<Rightarrow> bytes" where
  "abi_string s = bytes_be 32 32 @ bytes_be 32 (length s) @ s @ replicate ((32 - length s mod 32) mod 32) 0"

section \<open>Lemmas\<close>

lemma SetBytes_append: "SetBytes (as @ bs) = SetBytes as * 256 ^ length bs + SetBytes bs"
proof -
  have "foldl (\<lambda>a b. 256 * a + unat b) k bs = k * 256 ^ length bs + foldl (\<lambda>a b. 256 * a + unat b) 0 bs" for k and bs :: bytes
  proof (induction bs arbitrary: k)
    case (Cons b bs)
    let ?f = "\<lambda>a b. 256 * a + unat b"
    have "foldl ?f k (b # bs) = (256 * k + unat b) * 256 ^ length bs + foldl ?f 0 bs"
      unfolding foldl_Cons by (rule Cons)
    moreover have "foldl ?f 0 (b # bs) = (256 * 0 + unat b) * 256 ^ length bs + foldl ?f 0 bs"
      unfolding foldl_Cons by (rule Cons)
    ultimately show ?case
      by (simp only: list.size power_Suc mult_0_right add_0 add_mult_distrib mult.assoc mult.left_commute add.assoc One_nat_def add_Suc_right add_0_right)
  qed simp
  then show ?thesis
    unfolding SetBytes_def foldl_append .
qed

lemma bytes_be_Suc: "bytes_be (Suc k) n = bytes_be k (n div 256) @ [word_of_nat n]"
proof -
  have "[0..<Suc k] = 0 # map Suc [0..<k]"
    by (simp only: upt_conv_Cons [of 0 "Suc k"] zero_less_Suc map_Suc_upt simp_thms)
  then show ?thesis
    by (simp only: bytes_be_def list.map map_map rev.simps comp_def power_Suc power_0 div_by_1 div_mult2_eq)
qed

lemma SetBytes_single: "SetBytes [b] = unat b"
  by (simp add: SetBytes_def)

lemma SetBytes_bytes_be: "SetBytes (bytes_be k n) = n mod 256 ^ k"
proof (induction k arbitrary: n)
  case (Suc k)
  have "SetBytes (bytes_be (Suc k) n) = SetBytes (bytes_be k (n div 256)) * 256 + unat (word_of_nat n :: byte)"
    unfolding bytes_be_Suc SetBytes_append SetBytes_single by simp
  also have "\<dots> = (n div 256) mod 256 ^ k * 256 + n mod 256"
    unfolding Suc by (simp add: unat_of_nat take_bit_eq_mod)
  also have "\<dots> = n mod 256 ^ Suc k"
    unfolding power_Suc mod_mult2_eq by simp
  finally show ?case .
qed (simp add: bytes_be_def SetBytes_def)

lemma length_bytes_be [simp]: "length (bytes_be k n) = k"
  by (simp add: bytes_be_def)

text \<open>Both copies' cuts keep a text without zero bytes.\<close>

lemma before_zero_id: "0 \<notin> set s \<Longrightarrow> before_zero s = s"
  unfolding before_zero_def by (rule takeWhile_eq_all_conv [THEN iffD2]) auto

lemma trim_zeros_id:
  assumes "0 \<notin> set s"
  shows "trim_zeros s = s"
proof -
  have "dropWhile (\<lambda>b. b = 0) (rev s) = rev s"
  proof (cases "rev s")
    case (Cons b bs)
    then have "b \<in> set s"
      by (metis list.set_intros(1) set_rev)
    then show ?thesis
      using assms Cons by auto
  qed simp
  then show ?thesis
    by (simp add: trim_zeros_def)
qed

lemma parse_abi_string:
  assumes "length s < 2 ^ 63" and "clean s = s"
  shows "parse_string clean (abi_string s) = Some (string_of_bytes s)"
proof -
  let ?pad = "replicate ((32 - length s mod 32) mod 32) (0 :: byte)"
  have n: "length (abi_string s) = 64 + length s + length ?pad"
    by (simp add: abi_string_def)
  have offset: "SetBytes (take 32 (abi_string s)) mod 2 ^ 64 = 32"
    by (simp add: abi_string_def SetBytes_bytes_be)
  have word: "go_slice (abi_string s) 32 64 = Some (bytes_be 32 (length s))"
    by (simp add: go_slice_def abi_string_def)
  have small: "length s < 2 ^ 64" "64 + length s < 2 ^ 64"
    using assms(1) by simp_all
  then have len: "SetBytes (bytes_be 32 (length s)) mod 2 ^ 64 = length s"
    by (simp add: SetBytes_bytes_be order.strict_trans2)
  have "u64_add 32 32 = 64" "u64_add 64 (length s) = 64 + length s"
    using small by (simp_all add: u64_add_def)
  moreover have "go_slice (abi_string s) 64 (64 + length s) = Some s"
    by (simp add: go_slice_def abi_string_def)
  ultimately show ?thesis
    unfolding parse_string_def Let_def using offset word len n assms(2) by simp
qed

text \<open>Where the end of the string wraps around, its start is above it and the slice panics.\<close>

lemma parse_string_panics:
  assumes "length data < 2 ^ 63"
  shows "parse_string clean data = None \<longleftrightarrow>
    64 \<le> length data \<and> (\<exists>offset. offset = SetBytes (take 32 data) mod 2 ^ 64 \<and> offset + 32 \<le> length data \<and>
      2 ^ 64 \<le> offset + 32 + SetBytes (take 32 (drop offset data)) mod 2 ^ 64)"
proof (cases "length data < 64 \<or> length data \<le> SetBytes (take 32 data) mod 2 ^ 64")
  case True
  then show ?thesis
    by (auto simp: parse_string_def Let_def)
next
  case False
  define offset where "offset = SetBytes (take 32 data) mod 2 ^ 64"
  define len where "len = SetBytes (take 32 (drop offset data)) mod 2 ^ 64"
  have off: "offset < length data" and n: "64 \<le> length data"
    using False by (simp_all add: offset_def)
  have start: "u64_add offset 32 = offset + 32"
    using off assms by (simp add: u64_add_def)
  show ?thesis
  proof (cases "length data < offset + 32")
    case True
    then show ?thesis
      unfolding parse_string_def Let_def offset_def [symmetric] using off n start by auto
  next
    case fits: False
    then have word: "go_slice data offset (offset + 32) = Some (take 32 (drop offset data))"
      by (simp add: go_slice_def)
    have len64: "len < 2 ^ 64"
      by (simp add: len_def)
    have "parse_string clean data = (if length data < u64_add (offset + 32) len then Some []
        else map_option (\<lambda>text. string_of_bytes (clean text)) (go_slice data (offset + 32) (u64_add (offset + 32) len)))"
      unfolding parse_string_def Let_def offset_def [symmetric] using off n start fits word by (simp add: len_def)
    moreover have "u64_add (offset + 32) len = (if offset + 32 + len < 2 ^ 64 then offset + 32 + len else offset + 32 + len - 2 ^ 64)"
      using len64 fits assms by (simp add: u64_add_def mod_if le_mod_geq)
    ultimately have "parse_string clean data = None \<longleftrightarrow> 2 ^ 64 \<le> offset + 32 + len"
      using len64 fits assms by (auto simp: go_slice_def)
    then show ?thesis
      using n fits unfolding len_def offset_def by simp
  qed
qed

section \<open>Properties\<close>

definition wrapping_answer :: bytes where
  "wrapping_answer = bytes_be 32 32 @ bytes_be 32 (2 ^ 64 - 40)"

text \<open>C21. The reader of a token's symbol and name gives back every text without zero bytes that the contract
  ABI-encodes, and so does the reader of the single-token path.\<close>

theorem parseStringResult_roundtrip:
  assumes "0 \<notin> set s" and "length s < 2 ^ 63"
  shows "parseStringResult (abi_string s) = Some (string_of_bytes s) \<and>
    indexer_parseStringResult (abi_string s) = Some (string_of_bytes s)"
  using assms by (simp add: parseStringResult_def indexer_parseStringResult_def parse_abi_string before_zero_id trim_zeros_id)

lemma parseStringResult_roundtrip_witness:
  "parseStringResult (abi_string (bytes_of_string ''USDC'')) = Some (string_of_bytes (bytes_of_string ''USDC'')) \<and>
   string_of_bytes (bytes_of_string ''USDC'') = ''USDC''"
proof -
  have "0 \<notin> set (bytes_of_string ''USDC'')" "string_of_bytes (bytes_of_string ''USDC'') = ''USDC''"
    by code_simp+
  then show ?thesis
    using parseStringResult_roundtrip [of "bytes_of_string ''USDC''"] by (simp add: bytes_of_string_def)
qed

text \<open>C22. \<open>parseStringResult\<close> panics exactly on the answers whose length field puts the end of the string past
  2 ^ 64: the sum wraps around to a position before its start, passes the bounds check, and the slice is out of
  range.  A token contract chooses its answer, and an answer of 64 bytes is enough.\<close>

theorem parseStringResult_panics_iff:
  assumes "length data < 2 ^ 63"
  shows "(parseStringResult data = None \<longleftrightarrow>
      64 \<le> length data \<and> (\<exists>offset. offset = SetBytes (take 32 data) mod 2 ^ 64 \<and> offset + 32 \<le> length data \<and>
        2 ^ 64 \<le> offset + 32 + SetBytes (take 32 (drop offset data)) mod 2 ^ 64)) \<and>
    parseStringResult wrapping_answer = None \<and> indexer_parseStringResult wrapping_answer = None"
proof -
  have len: "length wrapping_answer = 64" and off: "SetBytes (take 32 wrapping_answer) mod 2 ^ 64 = 32"
    and word: "SetBytes (take 32 (drop 32 wrapping_answer)) mod 2 ^ 64 = 2 ^ 64 - 40"
    by (simp_all add: wrapping_answer_def SetBytes_bytes_be)
  have "parse_string clean wrapping_answer = None" for clean
    using parse_string_panics [of wrapping_answer clean] len off word by simp
  then show ?thesis
    using parse_string_panics [OF assms] by (simp add: parseStringResult_def indexer_parseStringResult_def)
qed

lemma parseStringResult_panics_iff_witness:
  "length wrapping_answer = 64 \<and> parseStringResult wrapping_answer = None"
  using parseStringResult_panics_iff [of wrapping_answer] by (simp add: wrapping_answer_def)

end
