(* ===== verification/Node_Reads.thy ===== *)
theory Node_Reads
  imports World Abi_Text
begin

text \<open>
  The reads of the node the indexer builds on (\<open>internal/rpc\<close>): blocks (\<open>raw_block.go\<close>), receipts with
  their fallbacks, token metadata and token URIs (\<open>rpc.go\<close>), and traces (\<open>trace.go\<close>).

  Where the code runs a batch of calls at once, the model makes them one after the other in the order of
  the batch: the node's answers are arbitrary functions of the call, so every answer a concurrent run can
  see is one the sequential run can.  A rate limiter's wait fails when the context is done.
\<close>

section \<open>Text\<close>

definition Contains :: "string \<Rightarrow> string \<Rightarrow> bool" where
  "Contains s sub \<longleftrightarrow> (\<exists>i \<in> {0..length s}. take (length sub) (drop i s) = sub)"

definition error_text :: "rpc_error \<Rightarrow> string" where
  "error_text e = (case e of
       Transport msg \<Rightarrow> msg
     | Answer code msg \<Rightarrow> ''rpc error: code '' @ int_text 10 code @ '', message: '' @ msg
     | _ \<Rightarrow> [])"

section \<open>Blocks\<close>

definition NumberU64 :: "raw_block \<Rightarrow> u64" where
  "NumberU64 b = (case rbNumber b of None \<Rightarrow> 0 | Some n \<Rightarrow> big_Uint64 n)"

definition DifficultyString :: "raw_block \<Rightarrow> string" where
  "DifficultyString b = (case rbDifficulty b of None \<Rightarrow> ''0'' | Some d \<Rightarrow> int_text 10 d)"

definition TotalDifficultyString :: "raw_block \<Rightarrow> string" where
  "TotalDifficultyString b = (case rbTotalDifficulty b of None \<Rightarrow> ''0'' | Some d \<Rightarrow> int_text 10 d)"

definition pad_left :: "nat \<Rightarrow> char \<Rightarrow> string \<Rightarrow> string" where
  "pad_left n c s = replicate (n - length s) c @ s"

definition NonceHex :: "raw_block \<Rightarrow> string" where
  "NonceHex b =
     (if length (rbNonce b) = 8
      then ''0x'' @ pad_left 16 (CHR ''0'') (nat_text 16 (SetBytes (rbNonce b) mod 2 ^ 64))
      else ''0x0000000000000000'')"

definition BaseFeeU64 :: "raw_block \<Rightarrow> u64 option" where
  "BaseFeeU64 b = map_option big_Uint64 (rbBaseFeePerGas b)"

definition RawBlockByNumber :: "u64 \<Rightarrow> raw_block rpcm" where
  "RawBlockByNumber number = do {
     r \<leftarrow> run_call (\<lambda>nd k. nodeBlock nd k number);
     State_Monad.return (case r of
         Inl e \<Rightarrow> Inl e
       | Inr raw \<Rightarrow> if rbNumber raw = None \<or> rbHash raw = zero_Hash then Inl BlockNotFound else Inr raw)
   }"

definition RawBlockHash :: "u64 \<Rightarrow> string rpcm" where
  "RawBlockHash number = do {
     r \<leftarrow> run_call (\<lambda>nd k. nodeBlock nd k number);
     State_Monad.return (case r of
         Inl e \<Rightarrow> Inl e
       | Inr raw \<Rightarrow> if rbHash raw = zero_Hash then Inl BlockNotAvailable else Inr (Hash_Hex (rbHash raw)))
   }"

definition BlockNumber :: "u64 rpcm" where
  "BlockNumber = run_call nodeHead"

section \<open>Receipts\<close>

text \<open>\<open>fetchLogsAsReceipts\<close>: receipts that hold logs only.\<close>

definition log_receipt :: receipt where
  "log_receipt = \<lparr>rcStatus = 1, rcGasUsed = 0, rcContractAddress = zero_Address, rcLogs = []\<rparr>"

definition add_log :: "bytes \<times> log_entry \<Rightarrow> receipts \<Rightarrow> receipts" where
  "add_log l rs =
     (let r = (case rs (fst l) of None \<Rightarrow> log_receipt | Some r \<Rightarrow> r)
      in rs(fst l \<mapsto> r\<lparr>rcLogs := rcLogs r @ [snd l]\<rparr>))"

definition logs_as_receipts :: "(bytes \<times> log_entry) list \<Rightarrow> receipts" where
  "logs_as_receipts ls = fold add_log ls Map.empty"

definition fetchLogsAsReceipts :: "u64 \<Rightarrow> receipts rpcm" where
  "fetchLogsAsReceipts number = do {
     r \<leftarrow> run_call (\<lambda>nd k. nodeLogs nd k number);
     State_Monad.return (map_sum id logs_as_receipts r)
   }"

text \<open>The per-transaction fallback: the first receipt that cannot be read fails the batch.\<close>

fun receipts_per_tx :: "bytes list \<Rightarrow> receipts \<Rightarrow> receipts rpcm" where
  "receipts_per_tx [] results = State_Monad.return (Inr results)"
| "receipts_per_tx (h # hs) results = do {
     cancelled \<leftarrow> ctx_Err;
     if cancelled then State_Monad.return (Inl (Transport ''context canceled''))
     else do {
       r \<leftarrow> run_call (\<lambda>nd k. nodeReceipt nd k h);
       case r of
         Inl e \<Rightarrow> State_Monad.return (Inl e)
       | Inr None \<Rightarrow> State_Monad.return (Inl ReceiptNotFound)
       | Inr (Some receipt) \<Rightarrow> receipts_per_tx hs (results(h \<mapsto> receipt))
     }
   }"

definition method_absent :: "rpc_error \<Rightarrow> bool" where
  "method_absent e \<longleftrightarrow> (let msg = error_text e in
     Contains msg ''method not found'' \<or> Contains msg ''not supported'' \<or> Contains msg ''does not exist'')"

definition FetchReceiptsBatch :: "bytes list \<Rightarrow> u64 \<Rightarrow> receipts rpcm" where
  "FetchReceiptsBatch hashes number =
     (if hashes = [] then State_Monad.return (Inr Map.empty)
      else do {
        r \<leftarrow> run_call (\<lambda>nd k. nodeBlockReceipts nd k number);
        case r of
          Inr (Some rs) \<Rightarrow>
            (let results = map_of (rev rs) in
             State_Monad.return (if \<forall>h \<in> set hashes. results h \<noteq> None then Inr results else Inl (ReceiptsIncomplete number)))
        | Inr None \<Rightarrow> State_Monad.return (Inl (ReceiptsNull number))
        | Inl e \<Rightarrow>
            if method_absent e then receipts_per_tx hashes Map.empty
            else do {
              l \<leftarrow> fetchLogsAsReceipts number;
              State_Monad.return (case l of Inl e' \<Rightarrow> Inl (ReceiptsUnavailable number) | Inr rs \<Rightarrow> Inr rs)
            }
      })"

section \<open>Token metadata\<close>

record token_metadata =
  tmSymbol :: string
  tmName :: "string option"
  tmDecimals :: int
  tmErr :: bool

definition CallContract :: "bytes \<Rightarrow> bytes \<Rightarrow> bytes rpcm" where
  "CallContract to data = run_call (\<lambda>nd k. nodeCall nd k to data)"

text \<open>A panic while an answer is parsed ends the process.\<close>

definition parsed :: "bytes \<Rightarrow> (world, string) state" where
  "parsed data =
     (case parseStringResult data of
        Some s \<Rightarrow> State_Monad.return s
      | None \<Rightarrow> do { State_Monad.update (\<lambda>w. w\<lparr>crashed := True\<rparr>); State_Monad.return [] })"

definition fetch_symbol :: "bytes \<Rightarrow> (world, string) state" where
  "fetch_symbol a = do {
     r \<leftarrow> CallContract a (FromHex ''0x95d89b41'');
     case r of
       Inl e \<Rightarrow> State_Monad.return ''UNKNOWN''
     | Inr data \<Rightarrow> do { s \<leftarrow> parsed data; State_Monad.return (if s = [] then ''UNKNOWN'' else s) }
   }"

definition fetch_name :: "bytes \<Rightarrow> (world, string option) state" where
  "fetch_name a = do {
     r \<leftarrow> CallContract a (FromHex ''0x06fdde03'');
     case r of
       Inl e \<Rightarrow> State_Monad.return None
     | Inr data \<Rightarrow> do { s \<leftarrow> parsed data; State_Monad.return (if s = [] then None else Some s) }
   }"

definition fetch_decimals :: "bytes \<Rightarrow> (world, int) state" where
  "fetch_decimals a = do {
     r \<leftarrow> CallContract a (FromHex ''0x313ce567'');
     State_Monad.return (case r of
         Inl e \<Rightarrow> 18
       | Inr data \<Rightarrow> if 32 \<le> length data then big_Int64 (SetBytes data) else 18)
   }"

definition fetch_metadata :: "bytes \<Rightarrow> (world, token_metadata) state" where
  "fetch_metadata a = do {
     c1 \<leftarrow> ctx_Err;
     if c1 then State_Monad.return \<lparr>tmSymbol = [], tmName = None, tmDecimals = 0, tmErr = True\<rparr>
     else do {
       symbol \<leftarrow> fetch_symbol a;
       c2 \<leftarrow> ctx_Err;
       if c2 then State_Monad.return \<lparr>tmSymbol = symbol, tmName = None, tmDecimals = 0, tmErr = False\<rparr>
       else do {
         name \<leftarrow> fetch_name a;
         c3 \<leftarrow> ctx_Err;
         if c3 then State_Monad.return \<lparr>tmSymbol = symbol, tmName = name, tmDecimals = 0, tmErr = False\<rparr>
         else do {
           decimals \<leftarrow> fetch_decimals a;
           State_Monad.return \<lparr>tmSymbol = symbol, tmName = name, tmDecimals = decimals, tmErr = False\<rparr>
         }
       }
     }
   }"

fun FetchTokenMetadataBatch :: "bytes list \<Rightarrow> (world, (bytes \<times> token_metadata) list) state" where
  "FetchTokenMetadataBatch [] = State_Monad.return []"
| "FetchTokenMetadataBatch (a # as) = do {
     m \<leftarrow> fetch_metadata a;
     ms \<leftarrow> FetchTokenMetadataBatch as;
     State_Monad.return ((a, m) # ms)
   }"

text \<open>\<open>FetchTokenURIsBatch\<close>: the URI of each request, or none.\<close>

definition token_uri_data :: "nat \<Rightarrow> bytes" where
  "token_uri_data tokenID = FromHex ''0xc87b56dd'' @ bytes_be 32 tokenID"

fun FetchTokenURIsBatch :: "(bytes \<times> nat) list \<Rightarrow> (world, string option list) state" where
  "FetchTokenURIsBatch [] = State_Monad.return []"
| "FetchTokenURIsBatch ((a, tokenID) # reqs) = do {
     cancelled \<leftarrow> ctx_Err;
     uri \<leftarrow> (if cancelled then State_Monad.return None
            else do {
              r \<leftarrow> CallContract a (token_uri_data tokenID);
              case r of
                Inl e \<Rightarrow> State_Monad.return None
              | Inr out \<Rightarrow> do { s \<leftarrow> parsed out; State_Monad.return (if s = [] then None else Some s) }
            });
     uris \<leftarrow> FetchTokenURIsBatch reqs;
     State_Monad.return (uri # uris)
   }"

section \<open>Traces\<close>

definition rateLimited :: int where "rateLimited = -32005"

definition NodeRefused :: "rpc_error \<Rightarrow> bool" where
  "NodeRefused e \<longleftrightarrow> (case e of
       NotTraced \<Rightarrow> True
     | Answer code msg \<Rightarrow>
         code \<noteq> rateLimited \<and>
         \<not> (\<exists>signal \<in> set [''timeout'', ''deadline'', ''rate limit'', ''too many requests'']. Contains (ToLower msg) signal)
     | _ \<Rightarrow> False)"

datatype trace_mode = SkipFailures | FailOnAny | SkipRefusals

definition fails :: "trace_mode \<Rightarrow> rpc_error \<Rightarrow> bool" where
  "fails m e \<longleftrightarrow> m = FailOnAny \<or> m = SkipRefusals \<and> \<not> NodeRefused e"

definition noTrace :: "string \<Rightarrow> rpc_error" where
  "noTrace msg = (if Contains (ToLower msg) ''timeout'' then TraceTimedOut else NotTraced)"

definition traced :: "call_frame option \<Rightarrow> bool" where
  "traced f \<longleftrightarrow> (case f of None \<Rightarrow> False | Some frame \<Rightarrow> cfType frame \<noteq> [])"

text \<open>\<open>strings.Join\<close> of the path's decimal numbers with commas.\<close>

fun trace_address :: "nat list \<Rightarrow> string" where
  "trace_address [] = []"
| "trace_address [p] = nat_text 10 p"
| "trace_address (p # q # ps) = nat_text 10 p @ '','' @ trace_address (q # ps)"

definition unless_empty :: "string list \<Rightarrow> string \<Rightarrow> string option" where
  "unless_empty empties s = (if s \<in> set empties then None else Some s)"

definition frame_row :: "call_frame \<Rightarrow> string \<Rightarrow> u64 \<Rightarrow> u64 option \<Rightarrow> nat list \<Rightarrow> internal_transaction" where
  "frame_row f txh number ts path = \<lparr>
     itTxHash = txh, itBlockNumber = number, itTraceAddress = trace_address path, itFrom = cfFrom f,
     itTo = unless_empty [[]] (cfTo f),
     itValue = (case cfValue f of None \<Rightarrow> ''0'' | Some v \<Rightarrow> int_text 10 v),
     itGas = (if 0 < cfGas f then Some (cfGas f) else None),
     itGasUsed = (if 0 < cfGasUsed f then Some (cfGasUsed f) else None),
     itInput = unless_empty [[], ''0x''] (cfInput f), itOutput = unless_empty [[], ''0x''] (cfOutput f),
     itCallType = (let t = ToLower (cfType f) in
       if t \<in> set [''call'', ''delegatecall'', ''staticcall'', ''create'', ''create2''] then t else ''call''),
     itError = unless_empty [[]] (cfError f), itTimestamp = ts\<rparr>"

fun flattenCallFrameRecursive ::
    "call_frame \<Rightarrow> string \<Rightarrow> u64 \<Rightarrow> u64 option \<Rightarrow> nat list \<Rightarrow> internal_transaction list"
  and flatten_calls ::
    "call_frame list \<Rightarrow> nat \<Rightarrow> string \<Rightarrow> u64 \<Rightarrow> u64 option \<Rightarrow> nat list \<Rightarrow> internal_transaction list" where
  "flattenCallFrameRecursive (CallFrame ty a b v g u i out err cs) txh number ts path =
     frame_row (CallFrame ty a b v g u i out err cs) txh number ts path # flatten_calls cs 0 txh number ts path"
| "flatten_calls [] i txh number ts path = []"
| "flatten_calls (c # cs) i txh number ts path =
     flattenCallFrameRecursive c txh number ts (path @ [i]) @ flatten_calls cs (Suc i) txh number ts path"

definition FlattenCallFrame :: "call_frame \<Rightarrow> string \<Rightarrow> u64 \<Rightarrow> u64 option \<Rightarrow> internal_transaction list" where
  "FlattenCallFrame f txh number ts = flattenCallFrameRecursive f txh number ts []"

definition trace_entry_of :: "trace_entry list \<Rightarrow> string \<Rightarrow> trace_entry option" where
  "trace_entry_of es txh = List.find (\<lambda>e. teTxHash e = txh) (rev es)"

fun block_traces ::
    "trace_mode \<Rightarrow> trace_entry list \<Rightarrow> u64 \<Rightarrow> u64 \<Rightarrow> bytes list \<Rightarrow> rpc_error + internal_transaction list" where
  "block_traces mode es number ts [] = Inr []"
| "block_traces mode es number ts (h # hs) =
     (let entry = trace_entry_of es (Hash_Hex h);
          msg = (case entry of None \<Rightarrow> [] | Some e \<Rightarrow> teError e);
          frame = (case entry of None \<Rightarrow> None | Some e \<Rightarrow> teResult e)
      in if entry = None \<or> msg \<noteq> [] \<or> \<not> traced frame
         then (if fails mode (noTrace msg) then Inl (noTrace msg) else block_traces mode es number ts hs)
         else case block_traces mode es number ts hs of
                Inl e \<Rightarrow> Inl e
              | Inr rest \<Rightarrow> Inr (tl (FlattenCallFrame (the frame) (Hash_Hex h) number (Some ts)) @ rest))"

definition traceTransaction :: "bytes \<Rightarrow> call_frame rpcm" where
  "traceTransaction h = do {
     r \<leftarrow> run_call (\<lambda>nd k. nodeTraceTx nd k h);
     State_Monad.return (case r of
         Inl e \<Rightarrow> Inl e
       | Inr f \<Rightarrow> if traced f then Inr (the f) else Inl NotTraced)
   }"

fun traces_per_tx :: "trace_mode \<Rightarrow> u64 \<Rightarrow> u64 \<Rightarrow> bytes list \<Rightarrow> internal_transaction list rpcm" where
  "traces_per_tx mode number ts [] = State_Monad.return (Inr [])"
| "traces_per_tx mode number ts (h # hs) = do {
     cancelled \<leftarrow> ctx_Err;
     r \<leftarrow> (if cancelled then State_Monad.return (Inl (Transport ''context canceled'')) else traceTransaction h);
     case r of
       Inl e \<Rightarrow> if fails mode e then State_Monad.return (Inl e) else traces_per_tx mode number ts hs
     | Inr frame \<Rightarrow> do {
         rest \<leftarrow> traces_per_tx mode number ts hs;
         State_Monad.return (map_sum id ((@) (tl (FlattenCallFrame frame (Hash_Hex h) number (Some ts)))) rest)
       }
   }"

definition fetchTraces :: "bytes list \<Rightarrow> u64 \<Rightarrow> u64 \<Rightarrow> trace_mode \<Rightarrow> internal_transaction list rpcm" where
  "fetchTraces hashes number ts mode =
     (if hashes = [] then State_Monad.return (Inr [])
      else do {
        r \<leftarrow> run_call (\<lambda>nd k. nodeTraceBlock nd k number);
        case r of
          Inr es \<Rightarrow> if es \<noteq> [] then State_Monad.return (block_traces mode es number ts hashes) else traces_per_tx mode number ts hashes
        | Inl e \<Rightarrow> traces_per_tx mode number ts hashes
      })"

definition FetchTracesBatch :: "bytes list \<Rightarrow> u64 \<Rightarrow> u64 \<Rightarrow> internal_transaction list rpcm" where
  "FetchTracesBatch hashes number ts = fetchTraces hashes number ts SkipFailures"

definition FetchTracesBatchStrict :: "bytes list \<Rightarrow> u64 \<Rightarrow> u64 \<Rightarrow> internal_transaction list rpcm" where
  "FetchTracesBatchStrict hashes number ts = fetchTraces hashes number ts FailOnAny"

definition FetchTracesBatchSkippingRefusals :: "bytes list \<Rightarrow> u64 \<Rightarrow> u64 \<Rightarrow> internal_transaction list rpcm" where
  "FetchTracesBatchSkippingRefusals hashes number ts = fetchTraces hashes number ts SkipRefusals"

section \<open>Trace addresses name frames\<close>

lemma nat_text_inj:
  assumes "nat_text 10 a = nat_text 10 b"
  shows "a = b"
proof -
  have "parse_digits 10 0 (nat_text 10 n) = Some n" for n
    by (rule parse_nat_text) simp_all
  then have "Some a = Some b"
    using assms by metis
  then show ?thesis
    by (rule option.inject [THEN iffD1])
qed

lemma nat_text_no_comma: "CHR '','' \<notin> set (nat_text 10 n)"
proof
  assume "CHR '','' \<in> set (nat_text 10 n)"
  then obtain k where "k < 16" "CHR '','' = hex_digit k"
    using nat_text_lower_hex [of 10 "CHR '',''" n] by (auto simp: is_lower_hex_def)
  then have "(of_char (CHR '','') :: nat) = (if k < 10 then 48 + k else 87 + k)"
    using of_char_hex_digit [of k] by simp
  then show False
    by (simp split: if_splits)
qed

lemma append_comma_inj:
  assumes "xs @ CHR '','' # r = ys @ CHR '','' # s" and "CHR '','' \<notin> set xs" "CHR '','' \<notin> set ys"
  shows "xs = ys \<and> r = s"
  using assms
proof (induction xs arbitrary: ys)
  case Nil
  then show ?case
    by (cases ys) auto
next
  case (Cons x xs)
  then show ?case
    by (cases ys) auto
qed

lemma trace_address_inj: "trace_address ps = trace_address qs \<Longrightarrow> ps = qs"
proof (induction ps arbitrary: qs rule: trace_address.induct)
  case 1
  then show ?case
    using not_sym [OF nat_text_not_empty] by (cases qs rule: trace_address.cases) auto
next
  case (2 p)
  then show ?case
    using nat_text_no_comma [of p] by (cases qs rule: trace_address.cases) (auto dest: nat_text_inj)
next
  case (3 p q ps)
  show ?case
  proof (cases qs rule: trace_address.cases)
    case (2 a)
    then have "CHR '','' \<in> set (nat_text 10 a)"
      using 3(2) by (metis in_set_conv_decomp append_Cons append_Nil trace_address.simps(2,3))
    then show ?thesis
      using nat_text_no_comma by blast
  next
    case (3 a b rs)
    then have "nat_text 10 p @ CHR '','' # trace_address (q # ps) = nat_text 10 a @ CHR '','' # trace_address (b # rs)"
      using "3.prems" by simp
    then have "nat_text 10 p = nat_text 10 a" "trace_address (q # ps) = trace_address (b # rs)"
      using append_comma_inj nat_text_no_comma by blast+
    then show ?thesis
      using "3.IH" [of "b # rs"] 3 nat_text_inj by blast
  qed (use 3 in simp)
qed

text \<open>The paths of a frame and of the frames below it, in the order of the rows.\<close>

fun paths :: "call_frame \<Rightarrow> nat list \<Rightarrow> nat list list"
  and call_paths :: "call_frame list \<Rightarrow> nat \<Rightarrow> nat list \<Rightarrow> nat list list" where
  "paths (CallFrame ty a b v g u i out err cs) path = path # call_paths cs 0 path"
| "call_paths [] i path = []"
| "call_paths (c # cs) i path = paths c (path @ [i]) @ call_paths cs (Suc i) path"

lemma flatten_addresses:
  "map itTraceAddress (flattenCallFrameRecursive f txh number ts path) = map trace_address (paths f path)"
  "map itTraceAddress (flatten_calls cs i txh number ts path) = map trace_address (call_paths cs i path)"
  by (induction f txh number ts path and cs i txh number ts path rule: flattenCallFrameRecursive_flatten_calls.induct)
    (simp_all add: frame_row_def)

lemma paths_below:
  "p \<in> set (paths f path) \<Longrightarrow> \<exists>below. p = path @ below"
  "p \<in> set (call_paths cs i path) \<Longrightarrow> \<exists>j below. i \<le> j \<and> p = path @ j # below"
proof (induction f path and cs i path rule: paths_call_paths.induct)
  case (3 c cs i path)
  then show ?case
    by (fastforce dest: Suc_leD)
qed auto

lemma distinct_paths: "distinct (paths f path)" "distinct (call_paths cs i path)"
proof (induction f path and cs i path rule: paths_call_paths.induct)
  case (1 ty a b v g u i out err cs path)
  then show ?case
    by (auto dest: paths_below(2))
next
  case (3 c cs i path)
  have "p \<notin> set (call_paths cs (Suc i) path)" if "p \<in> set (paths c (path @ [i]))" for p
    using paths_below(1) [OF that] paths_below(2) [of p cs "Suc i" path] by auto
  then show ?case
    using 3 by auto
qed simp

fun frames :: "call_frame \<Rightarrow> nat" where
  "frames (CallFrame ty a b v g u i out err cs) = Suc (sum_list (map frames cs))"

lemma length_flatten:
  "length (flattenCallFrameRecursive f txh number ts path) = frames f"
  "length (flatten_calls cs i txh number ts path) = sum_list (map frames cs)"
  by (induction f txh number ts path and cs i txh number ts path rule: flattenCallFrameRecursive_flatten_calls.induct) simp_all

lemma flatten_rows:
  "\<forall>t \<in> set (flattenCallFrameRecursive f txh number ts path). itTxHash t = txh \<and> itBlockNumber t = number"
  "\<forall>t \<in> set (flatten_calls cs i txh number ts path). itTxHash t = txh \<and> itBlockNumber t = number"
  by (induction f txh number ts path and cs i txh number ts path rule: flattenCallFrameRecursive_flatten_calls.induct)
    (auto simp: frame_row_def)

text \<open>C20. Flattening a call trace gives one row for every frame of the tree, root first, and no two rows of a
  transaction share a trace address, so that the unique key of the internal transactions drops none.\<close>

theorem FlattenCallFrame_keeps_every_frame:
  "length (FlattenCallFrame f txh number ts) = frames f \<and>
   distinct (map itTraceAddress (FlattenCallFrame f txh number ts)) \<and>
   itTraceAddress (hd (FlattenCallFrame f txh number ts)) = [] \<and>
   itTxHash ` set (FlattenCallFrame f txh number ts) = {txh} \<and> itBlockNumber ` set (FlattenCallFrame f txh number ts) = {number}"
proof -
  have "distinct (map trace_address (paths f []))"
    using distinct_paths(1) [of f "[]"] by (auto simp: distinct_map inj_on_def dest: trace_address_inj)
  moreover have "FlattenCallFrame f txh number ts \<noteq> []"
    using length_flatten(1) [of f txh number ts "[]"] by (cases f) (auto simp: FlattenCallFrame_def)
  then have "itTxHash ` set (FlattenCallFrame f txh number ts) = {txh} \<and> itBlockNumber ` set (FlattenCallFrame f txh number ts) = {number}"
    using flatten_rows(1) [of f txh number ts "[]"] by (fastforce simp: FlattenCallFrame_def neq_Nil_conv)
  ultimately show ?thesis
    using length_flatten flatten_addresses(1) [of f txh number ts "[]"]
    by (cases f) (simp add: FlattenCallFrame_def frame_row_def)
qed

section \<open>Receipts are complete\<close>

lemma receipts_per_tx_complete:
  "run_state (receipts_per_tx hs rs) w = (Inr m, w') \<Longrightarrow> \<forall>h. h \<in> set hs \<or> rs h \<noteq> None \<longrightarrow> m h \<noteq> None"
proof (induction hs arbitrary: rs w)
  case (Cons h hs)
  let ?v = "w\<lparr>calls := calls w + 1 + 1\<rparr>"
  have "\<not> ctx_done w (calls w)"
    using Cons.prems by (rule contrapos_pn) simp
  moreover obtain receipt where "nodeReceipt (node w) (calls w + 1) h = Inr (Some receipt)"
    using Cons.prems calculation by (cases "nodeReceipt (node w) (calls w + 1) h") (auto split: option.splits)
  ultimately have "run_state (receipts_per_tx hs (rs(h \<mapsto> receipt))) ?v = (Inr m, w')"
    using Cons.prems by simp
  then have "\<forall>h'. h' \<in> set hs \<or> (rs(h \<mapsto> receipt)) h' \<noteq> None \<longrightarrow> m h' \<noteq> None"
    by (rule Cons.IH)
  then show ?case
    by (auto split: if_splits)
qed simp

text \<open>C19. A block's receipts come complete or not at all: when the fetch succeeds every transaction asked for has
  its receipt, except where the node failed to answer for the block's receipts and the logs of the block stood
  in for them.\<close>

theorem FetchReceiptsBatch_complete:
  assumes "run_state (FetchReceiptsBatch hashes number) w = (Inr m, w')"
  shows "(\<forall>h \<in> set hashes. m h \<noteq> None) \<or>
    (\<exists>e ls. nodeBlockReceipts (node w) (calls w) number = Inl e \<and> \<not> method_absent e \<and>
      nodeLogs (node w) (calls w + 1) number = Inr ls \<and> m = logs_as_receipts ls)"
proof (cases "hashes = []")
  case False
  let ?r = "nodeBlockReceipts (node w) (calls w) number"
  show ?thesis
  proof (cases ?r)
    case (Inl e)
    show ?thesis
    proof (cases "method_absent e")
      case True
      then have "run_state (receipts_per_tx hashes Map.empty) (w\<lparr>calls := calls w + 1\<rparr>) = (Inr m, w')"
        using assms False Inl by (simp add: FetchReceiptsBatch_def)
      then show ?thesis
        using receipts_per_tx_complete by blast
    next
      case absent: False
      then show ?thesis
        using assms False Inl
        by (cases "nodeLogs (node w) (calls w + 1) number")
          (auto simp: FetchReceiptsBatch_def fetchLogsAsReceipts_def)
    qed
  next
    case (Inr rs)
    then show ?thesis
      using assms False by (auto simp: FetchReceiptsBatch_def Let_def split: option.splits if_splits)
  qed
qed simp

lemma FetchReceiptsBatch_complete_witness:
  "let nd = sample_node\<lparr>nodeBlockReceipts := (\<lambda>_ _. Inr (Some [([1], log_receipt)]))\<rparr>;
       r = fst (run_state (FetchReceiptsBatch [[1]] 5) (empty_world\<lparr>node := nd\<rparr>))
   in (case r of Inl e \<Rightarrow> False | Inr m \<Rightarrow> m [1] = Some log_receipt \<and> (\<forall>h \<in> {[1]}. m h \<noteq> None))"
proof -
  define nd where "nd = sample_node\<lparr>nodeBlockReceipts := (\<lambda>_ _. Inr (Some [([1], log_receipt)]))\<rparr>"
  have run: "run_state (FetchReceiptsBatch [[1]] 5) (empty_world\<lparr>node := nd\<rparr>) =
      (Inr [[1] \<mapsto> log_receipt], empty_world\<lparr>node := nd, calls := 1\<rparr>)"
    by (simp add: FetchReceiptsBatch_def nd_def empty_world_def fun_eq_iff)
  show ?thesis
    using FetchReceiptsBatch_complete [OF run] by (simp add: Let_def nd_def [symmetric] run)
qed

end
