(* ===== verification/Balance_Tables.thy ===== *)
theory Balance_Tables
  imports Missing_Ranges "HOL-Library.List_Lexorder" "HOL-Library.Product_Lexorder"
begin

text \<open>
  The tables of balances and the holder counts: \<open>insertBalances\<close> of \<open>internal/db/batch.go\<close>,
  \<open>internal/db/balances_revert.go\<close> (what a reorg revert takes off and the requests to read again) and
  \<open>internal/db/holder_count.go\<close>, with the statements of \<open>internal/db/sql/\<close>.

  \<^item> A balance is read asynchronously at the node's latest state, so a read decided on a fork can be
    written after the fork was reverted.  Every revert takes a new epoch; a read carries the epoch it was
    decided at, and \<open>insertBalances\<close> drops the ones from before the latest revert.
  \<^item> Advisory locks order concurrent transactions; a transaction of the model runs at one moment, so the
    revert's loop over its keys ends after one round.  The lock keys themselves are in \<open>Lock_Keys\<close>.
  \<^item> A balance is an integer: the decimal text of the source, which the statement casts to \<open>NUMERIC\<close>.
\<close>

section \<open>Token rows and keys\<close>

definition zeroAddress :: string where
  "zeroAddress = ''0x0000000000000000000000000000000000000000''"

definition set_token :: "string \<Rightarrow> (token \<Rightarrow> token) \<Rightarrow> world \<Rightarrow> world" where
  "set_token a f w = w\<lparr>tokens := map (\<lambda>q. if tkAddress q = a then f q else q) (tokens w)\<rparr>"

definition key_of :: "balance \<Rightarrow> balance_key" where
  "key_of b = (ToLower (baTokenAddress b), ToLower (baAddress b))"

definition row_at :: "balance_row list \<Rightarrow> balance_key \<Rightarrow> balance_row option" where
  "row_at rs k = List.find (\<lambda>r. brKey r = k) rs"

text \<open>\<open>tbc_old_pos.sql\<close>: which keys hold a positive balance.\<close>

definition positive :: "balance_row list \<Rightarrow> balance_key \<Rightarrow> bool" where
  "positive rs k \<longleftrightarrow> (case row_at rs k of None \<Rightarrow> False | Some r \<Rightarrow> 0 < brBalance r)"

definition boolInt :: "bool \<Rightarrow> int" where
  "boolInt b = (if b then 1 else 0)"

text \<open>\<open>holder_count_apply.sql\<close>, once per token in sorted order, for the tokens whose sum is not zero.\<close>

definition delta_for :: "(string \<times> int) list \<Rightarrow> string \<Rightarrow> int" where
  "delta_for ds t = (\<Sum>(u, d) \<leftarrow> ds. if u = t then d else 0)"

definition apply_holder :: "(string \<times> int) list \<Rightarrow> string \<Rightarrow> world \<Rightarrow> world" where
  "apply_holder ds t w = set_token t (\<lambda>q. q\<lparr>tkHolderCount := max (tkHolderCount q + delta_for ds t) 0\<rparr>) w"

definition touched_tokens :: "(string \<times> int) list \<Rightarrow> string list" where
  "touched_tokens ds = sort (filter (\<lambda>t. delta_for ds t \<noteq> 0) (remdups (map fst ds)))"

definition apply_holders :: "(string \<times> int) list \<Rightarrow> world \<Rightarrow> world" where
  "apply_holders ds w = fold (apply_holder ds) (touched_tokens ds) w"

section \<open>The requests to read again\<close>

definition reread_at :: "reread list \<Rightarrow> balance_key \<Rightarrow> reread option" where
  "reread_at rs k = List.find (\<lambda>r. reKey r = k) rs"

text \<open>\<open>INSERT ... ON CONFLICT (token_address, address) DO UPDATE\<close>, with the epoch the update sets.\<close>

definition open_reread :: "(nat \<Rightarrow> nat) \<Rightarrow> nat \<Rightarrow> balance_key \<Rightarrow> reread list \<Rightarrow> reread list" where
  "open_reread upd e k rs =
     (if \<exists>r \<in> set rs. reKey r = k
      then map (\<lambda>r. if reKey r = k then r\<lparr>reEpoch := upd (reEpoch r), reOpen := True, reAttempts := 0\<rparr> else r) rs
      else rs @ [\<lparr>reKey = k, reEpoch = e, reOpen = True, reAttempts = 0\<rparr>])"

definition set_bal :: "(balance_tables \<Rightarrow> balance_tables) \<Rightarrow> world \<Rightarrow> world" where
  "set_bal f w = w\<lparr>bal := f (bal w)\<rparr>"

definition recordBalanceRereads :: "balance_key list \<Rightarrow> balance_tables \<Rightarrow> balance_tables" where
  "recordBalanceRereads keys b =
     (let e = balance_reorg_epoch b + 1
      in b\<lparr>balance_reorg_epoch := e, balance_rereads := fold (open_reread (\<lambda>_. e) e) keys (balance_rereads b)\<rparr>)"

definition closeRereads :: "balance_key list \<Rightarrow> balance_tables \<Rightarrow> balance_tables" where
  "closeRereads keys b =
     b\<lparr>balance_rereads := map (\<lambda>r. if reKey r \<in> set keys then r\<lparr>reOpen := False\<rparr> else r) (balance_rereads b)\<rparr>"

definition reopenRereads :: "balance_key list \<Rightarrow> nat \<Rightarrow> balance_tables \<Rightarrow> balance_tables" where
  "reopenRereads keys e b =
     b\<lparr>balance_rereads := fold (open_reread (\<lambda>old. max old e) e) (sort keys) (balance_rereads b)\<rparr>"

definition CurrentBalanceEpoch :: "nat dbm" where
  "CurrentBalanceEpoch = run_query (\<lambda>w. balance_reorg_epoch (bal w))"

definition MaxBalanceRereadAttempts :: nat where
  "MaxBalanceRereadAttempts = 20"

text \<open>
  The requests handed out: those of the lowest epochs.  A claim stamps each with the latest epoch, or its
  own if later.
\<close>

definition spent :: "reread \<Rightarrow> bool" where
  "spent r \<longleftrightarrow> reOpen r \<and> MaxBalanceRereadAttempts \<le> reAttempts r"

definition retire :: "reread \<Rightarrow> reread" where
  "retire r = (if spent r then r\<lparr>reOpen := False\<rparr> else r)"

definition lowest_open :: "nat \<Rightarrow> reread list \<Rightarrow> balance_key list" where
  "lowest_open limit rs = map reKey (take limit (sort_key reEpoch (filter reOpen rs)))"

definition attempt :: "balance_key list \<Rightarrow> reread \<Rightarrow> reread" where
  "attempt keys r = (if reKey r \<in> set keys then r\<lparr>reAttempts := reAttempts r + 1\<rparr> else r)"

definition claim_rereads :: "nat \<Rightarrow> balance_tables \<Rightarrow> (reread list \<times> reread list) \<times> balance_tables" where
  "claim_rereads limit b =
     (let dropped = map retire (filter spent (balance_rereads b));
          rs = map retire (balance_rereads b);
          keys = lowest_open limit rs;
          rs' = map (attempt keys) rs;
          claimed = map (\<lambda>r. r\<lparr>reEpoch := max (reEpoch r) (balance_reorg_epoch b)\<rparr>)
                      (filter (\<lambda>r. reKey r \<in> set keys) rs')
      in ((claimed, dropped), b\<lparr>balance_rereads := rs'\<rparr>))"

definition ClaimBalanceRereads :: "nat \<Rightarrow> (reread list \<times> reread list) dbm" where
  "ClaimBalanceRereads limit = run_tx (\<lambda>w. case claim_rereads limit (bal w) of (r, b) \<Rightarrow> Inr (r, w\<lparr>bal := b\<rparr>))"

section \<open>Writing balances\<close>

text \<open>Runs of equal keys collapse to their last element.\<close>

fun collapse :: "('a \<Rightarrow> 'k) \<Rightarrow> 'a list \<Rightarrow> 'a list" where
  "collapse k (x # y # zs) = (if k x = k y then collapse k (y # zs) else x # collapse k (y # zs))"
| "collapse k xs = xs"

definition row_of :: "balance \<Rightarrow> balance_row" where
  "row_of b = \<lparr>brKey = key_of b, brBlock = baBlockNumber b, brBalance = baBalance b\<rparr>"

text \<open>\<open>balances_insert.sql\<close>: last write wins; a row of a pruned block is left out.\<close>

definition insert_balance :: "u64 \<Rightarrow> balance_row \<Rightarrow> balance_row list \<Rightarrow> balance_row list" where
  "insert_balance from_block r rs =
     (if brBlock r < from_block then rs
      else if \<exists>q \<in> set rs. brKey q = brKey r \<and> brBlock q = brBlock r
      then map (\<lambda>q. if brKey q = brKey r \<and> brBlock q = brBlock r then r else q) rs
      else rs @ [r])"

text \<open>\<open>tbc_upsert_delta.sql\<close>: the highest block wins; a key that is written returns its change of the holder count.\<close>

definition upsert_current :: "balance_row \<Rightarrow> balance_row list \<Rightarrow> bool \<times> balance_row list" where
  "upsert_current r rs =
     (case row_at rs (brKey r) of
        None \<Rightarrow> (True, rs @ [r])
      | Some q \<Rightarrow>
          if brBlock q \<le> brBlock r then (True, map (\<lambda>q. if brKey q = brKey r then r else q) rs) else (False, rs))"

fun upsert_currents :: "balance_row list \<Rightarrow> balance_row list \<Rightarrow> balance_row list \<Rightarrow> (string \<times> int) list \<times> balance_row list" where
  "upsert_currents old [] rs = ([], rs)"
| "upsert_currents old (r # cur) rs =
     (case upsert_current r rs of (written, rs1) \<Rightarrow>
      case upsert_currents old cur rs1 of (ds, rs2) \<Rightarrow>
        (if written then (fst (brKey r), boolInt (0 < brBalance r) - boolInt (positive old (brKey r))) # ds else ds, rs2))"

text \<open>Phase 0: which reads are kept, which keys they answer, and which reads came too late.\<close>

definition sort_balances :: "balance list \<Rightarrow> balance list" where
  "sort_balances bs = sort_key (\<lambda>b. (ToLower (baTokenAddress b), ToLower (baAddress b), baBlockNumber b)) bs"

definition is_late :: "nat \<Rightarrow> balance \<Rightarrow> bool" where
  "is_late latest b \<longleftrightarrow> baEpoch b < latest"

definition is_kept :: "nat \<Rightarrow> reread list \<Rightarrow> balance \<Rightarrow> bool" where
  "is_kept latest rr b \<longleftrightarrow> \<not> is_late latest b \<and>
     (case reread_at rr (key_of b) of None \<Rightarrow> True | Some e \<Rightarrow> reEpoch e \<le> baEpoch b)"

definition answers :: "reread list \<Rightarrow> balance \<Rightarrow> bool" where
  "answers rr b \<longleftrightarrow> (case reread_at rr (key_of b) of None \<Rightarrow> False | Some e \<Rightarrow> reOpen e)"

definition write_balances :: "bool \<Rightarrow> balance list \<Rightarrow> world \<Rightarrow> world" where
  "write_balances history kept w =
     (let hist = map row_of (collapse (\<lambda>b. (key_of b, baBlockNumber b)) kept);
          cur = map row_of (collapse key_of kept);
          b0 = bal w;
          b1 = (if history then b0\<lparr>balances := fold (insert_balance (history_from w)) hist (balances b0)\<rparr> else b0)
      in case upsert_currents (token_balances_current b0) cur (token_balances_current b1) of (ds, tbc) \<Rightarrow>
           apply_holders ds (w\<lparr>bal := b1\<lparr>token_balances_current := tbc\<rparr>\<rparr>))"

definition insert_balances :: "bool \<Rightarrow> balance list \<Rightarrow> world \<Rightarrow> world" where
  "insert_balances history bs w =
     (if bs = [] then w
      else
        let ordered = sort_balances bs;
            latest = (if history then balance_reorg_epoch (bal w) else 0);
            rr = balance_rereads (bal w);
            kept = filter (is_kept latest rr) ordered;
            answered = remdups (map key_of (filter (answers rr) kept));
            late = remdups (map key_of (filter (is_late latest) ordered))
        in if kept = [] then set_bal (reopenRereads late latest) w
           else set_bal (reopenRereads late latest) (set_bal (closeRereads answered) (write_balances history kept w)))"

definition InsertBalancesBatch :: "balance list \<Rightarrow> unit dbm" where
  "InsertBalancesBatch bs = (if bs = [] then State_Monad.return (Inr ()) else tx_of (\<lambda>w. Inr (insert_balances True bs w)))"

definition InsertCurrentBalances :: "balance list \<Rightarrow> unit dbm" where
  "InsertCurrentBalances bs = (if bs = [] then State_Monad.return (Inr ()) else tx_of (\<lambda>w. Inr (insert_balances False bs w)))"

section \<open>Taking a block's balances off\<close>

definition history_keys :: "u64 \<Rightarrow> world \<Rightarrow> balance_key list" where
  "history_keys number w = map brKey (filter (\<lambda>r. brBlock r = number) (balances (bal w)))"

definition transfer_keys :: "u64 \<Rightarrow> world \<Rightarrow> balance_key list" where
  "transfer_keys number w = concat (map (\<lambda>t.
     [(ToLower (ttTokenAddress t), ToLower a). a \<leftarrow> [ttFrom t, ttTo t], ToLower a \<noteq> zeroAddress])
     (filter (\<lambda>t. ttBlockNumber t = number \<and> (ttTokenType t = ''ERC20'' \<or> ttTokenType t = ''ERC721'')) (token_transfers w)))"

definition blockBalanceKeys :: "u64 \<Rightarrow> world \<Rightarrow> (balance_key \<times> bool) list" where
  "blockBalanceKeys number w = map (\<lambda>k. (k, k \<in> set (history_keys number w)))
     (sort (remdups (history_keys number w @ transfer_keys number w)))"

definition latest_row :: "balance_row list \<Rightarrow> balance_key \<Rightarrow> balance_row option" where
  "latest_row rs k = (case rev (sort_key brBlock (filter (\<lambda>r. brKey r = k) rs)) of [] \<Rightarrow> None | r # _ \<Rightarrow> Some r)"

text \<open>The current rows go back to the latest remaining history rows; those with none go.\<close>

definition restore_current :: "balance_row list \<Rightarrow> balance_key list \<Rightarrow> balance_row list \<Rightarrow> balance_row list" where
  "restore_current hist restore rs =
     fold (\<lambda>k rs. case latest_row hist k of
                    None \<Rightarrow> rs
                  | Some r \<Rightarrow> if \<exists>q \<in> set rs. brKey q = k then map (\<lambda>q. if brKey q = k then r else q) rs else rs @ [r])
       restore (filter (\<lambda>q. \<not> (brKey q \<in> set restore \<and> latest_row hist (brKey q) = None)) rs)"

definition revertBalances :: "u64 \<Rightarrow> world \<Rightarrow> (balance_key list \<times> (string \<times> int) list) \<times> world" where
  "revertBalances number w =
     (let keys = blockBalanceKeys number w; restore = map fst (filter snd keys) in
      if keys = [] then (([], []), w)
      else
        let before = token_balances_current (bal w);
            hist = filter (\<lambda>r. brBlock r \<noteq> number) (balances (bal w));
            after = restore_current hist restore before;
            ds = [(fst k, boolInt (positive after k) - boolInt (positive before k)). k \<leftarrow> restore,
                    boolInt (positive after k) - boolInt (positive before k) \<noteq> 0]
        in ((map fst keys, ds), w\<lparr>bal := (bal w)\<lparr>balances := hist, token_balances_current := after\<rparr>\<rparr>))"

section \<open>Holder counts\<close>

text \<open>\<open>holder_count_reseed.sql\<close> and \<open>countTokenHolders\<close>: the holders a token has.\<close>

definition countTokenHolders :: "world \<Rightarrow> string \<Rightarrow> int" where
  "countTokenHolders w t =
     int (length (filter (\<lambda>r. fst (brKey r) = t \<and> 0 < brBalance r) (token_balances_current (bal w))))"

definition reseed_holders :: "world \<Rightarrow> world" where
  "reseed_holders w = w\<lparr>tokens := map (\<lambda>q. q\<lparr>tkHolderCount := countTokenHolders w (tkAddress q)\<rparr>) (tokens w)\<rparr>"

definition ReseedHolderCounts :: "unit dbm" where
  "ReseedHolderCounts = tx_of (\<lambda>w. Inr (reseed_holders w))"

section \<open>Rows by key\<close>

text \<open>With distinct keys a table is a map; every statement above is an update of that map.\<close>

definition distinct_keys :: "balance_row list \<Rightarrow> bool" where
  "distinct_keys rs \<longleftrightarrow> distinct (map brKey rs)"

lemma row_at_Nil [simp]: "row_at [] k = None"
  by (simp add: row_at_def)

lemma row_at_Cons [simp]: "row_at (r # rs) k = (if brKey r = k then Some r else row_at rs k)"
  by (simp add: row_at_def)

lemma row_at_None: "row_at rs k = None \<longleftrightarrow> k \<notin> brKey ` set rs"
  by (induction rs) auto

lemma row_at_SomeD: "row_at rs k = Some r \<Longrightarrow> r \<in> set rs \<and> brKey r = k"
  by (induction rs) (auto split: if_splits)

lemma row_at_iff: "distinct_keys rs \<Longrightarrow> row_at rs k = Some r \<longleftrightarrow> r \<in> set rs \<and> brKey r = k"
  by (induction rs) (force simp: distinct_keys_def)+

lemma row_at_append: "row_at (rs @ qs) k = (case row_at rs k of None \<Rightarrow> row_at qs k | Some r \<Rightarrow> Some r)"
  by (induction rs) auto

lemma row_at_replace:
  "brKey r = k \<Longrightarrow> row_at (map (\<lambda>q. if brKey q = k then r else q) rs) j =
     (if j = k \<and> row_at rs k \<noteq> None then Some r else row_at rs j)"
  by (induction rs) auto

lemma distinct_keys_replace: "brKey r = k \<Longrightarrow> distinct_keys (map (\<lambda>q. if brKey q = k then r else q) rs) = distinct_keys rs"
proof -
  assume "brKey r = k"
  then have "map brKey (map (\<lambda>q. if brKey q = k then r else q) rs) = map brKey rs"
    by (induction rs) auto
  then show ?thesis
    by (simp only: distinct_keys_def)
qed

lemma distinct_keys_append: "distinct_keys (rs @ [r]) \<longleftrightarrow> distinct_keys rs \<and> row_at rs (brKey r) = None"
  by (auto simp: distinct_keys_def row_at_None)

lemma row_at_filter:
  "distinct_keys rs \<Longrightarrow> row_at (filter P rs) k = (case row_at rs k of None \<Rightarrow> None | Some r \<Rightarrow> if P r then Some r else None)"
  by (induction rs) (auto simp: distinct_keys_def image_iff split: option.split dest!: row_at_SomeD)

text \<open>The holders of a token are the keys with a positive row.\<close>

definition holders :: "balance_row list \<Rightarrow> string \<Rightarrow> balance_key set" where
  "holders rs t = {k. fst k = t \<and> positive rs k}"

lemma finite_holders [simp]: "finite (holders rs t)"
proof (rule finite_subset)
  show "holders rs t \<subseteq> brKey ` set rs"
    by (force simp: holders_def positive_def split: option.splits dest!: row_at_SomeD)
qed simp

lemma positive_iff: "distinct_keys rs \<Longrightarrow> positive rs k \<longleftrightarrow> (\<exists>r \<in> set rs. brKey r = k \<and> 0 < brBalance r)"
proof (cases "row_at rs k")
  case None
  then show "positive rs k \<longleftrightarrow> (\<exists>r \<in> set rs. brKey r = k \<and> 0 < brBalance r)"
    using row_at_None [of rs k] by (auto simp: positive_def)
next
  case (Some q)
  assume d: "distinct_keys rs"
  have "r \<in> set rs \<and> brKey r = k \<longleftrightarrow> r = q" for r
    using row_at_iff [OF d, of k r] Some by auto
  then have "(\<exists>r \<in> set rs. brKey r = k \<and> 0 < brBalance r) \<longleftrightarrow> 0 < brBalance q"
    by metis
  then show "positive rs k \<longleftrightarrow> (\<exists>r \<in> set rs. brKey r = k \<and> 0 < brBalance r)"
    using Some by (simp add: positive_def)
qed

lemma count_holders:
  assumes "distinct_keys rs"
  shows "int (length (filter (\<lambda>r. fst (brKey r) = t \<and> 0 < brBalance r) rs)) = int (card (holders rs t))"
proof -
  let ?P = "\<lambda>r. fst (brKey r) = t \<and> 0 < brBalance r"
  have "distinct (map brKey (filter ?P rs))"
    using assms by (simp add: distinct_keys_def distinct_map_filter)
  from distinct_card [OF this] have "length (filter ?P rs) = card (brKey ` set (filter ?P rs))"
    by (simp only: set_map length_map)
  moreover have "brKey ` set (filter ?P rs) = holders rs t"
    by (auto simp: holders_def positive_iff [OF assms] intro: rev_image_eqI)
  ultimately show ?thesis
    by simp
qed

lemma boolInt_sum: "distinct ks \<Longrightarrow> (\<Sum>k \<leftarrow> ks. boolInt (k \<in> A)) = int (card (A \<inter> set ks))"
proof (induction ks)
  case (Cons k ks)
  have "A \<inter> set (k # ks) = (if k \<in> A then insert k (A \<inter> set ks) else A \<inter> set ks)"
    by auto
  then show ?case
    using Cons by (simp add: boolInt_def)
qed simp

lemma card_change:
  assumes "finite A" "finite B" "distinct ks" and "\<And>k. k \<notin> set ks \<Longrightarrow> k \<in> A \<longleftrightarrow> k \<in> B"
  shows "int (card B) = int (card A) + (\<Sum>k \<leftarrow> ks. boolInt (k \<in> B) - boolInt (k \<in> A))"
proof -
  have same: "A - set ks = B - set ks"
    using assms(4) by fast
  have "int (card B) - int (card A) = int (card (B \<inter> set ks)) - int (card (A \<inter> set ks))"
    using card_Int_Diff [OF assms(1), of "set ks"] card_Int_Diff [OF assms(2), of "set ks"] unfolding same by linarith
  also have "\<dots> = (\<Sum>k \<leftarrow> ks. boolInt (k \<in> B)) - (\<Sum>k \<leftarrow> ks. boolInt (k \<in> A))"
    using boolInt_sum [OF assms(3)] by simp
  finally show ?thesis
    by (simp add: sum_list_subtractf)
qed

text \<open>A table of which only the rows of the keys \<open>ks\<close> changed: the holders' count moves by the sum over them.\<close>

lemma holders_change:
  assumes "distinct ks" and "\<And>k. k \<notin> set ks \<Longrightarrow> row_at rs' k = row_at rs k"
  shows "int (card (holders rs' t)) = int (card (holders rs t)) +
    (\<Sum>k \<leftarrow> ks. if fst k = t then boolInt (positive rs' k) - boolInt (positive rs k) else 0)"
proof -
  have "int (card (holders rs' t)) = int (card (holders rs t)) +
      (\<Sum>k \<leftarrow> ks. boolInt (k \<in> holders rs' t) - boolInt (k \<in> holders rs t))"
    using assms by (intro card_change finite_holders) (auto simp: holders_def positive_def)
  also have "(\<Sum>k \<leftarrow> ks. boolInt (k \<in> holders rs' t) - boolInt (k \<in> holders rs t)) =
      (\<Sum>k \<leftarrow> ks. if fst k = t then boolInt (positive rs' k) - boolInt (positive rs k) else 0)"
    by (rule arg_cong [where f = sum_list], rule map_cong [OF refl]) (simp add: holders_def boolInt_def)
  finally show ?thesis .
qed

section \<open>The upserts as map updates\<close>

definition merged :: "balance_row option \<Rightarrow> balance_row \<Rightarrow> balance_row" where
  "merged q r = (case q of None \<Rightarrow> r | Some q \<Rightarrow> if brBlock q \<le> brBlock r then r else q)"

lemma upsert_current_row:
  assumes "upsert_current r rs = (written, rs')"
  shows "row_at rs' k = (if k = brKey r then Some (merged (row_at rs k) r) else row_at rs k)"
    and "distinct_keys rs \<Longrightarrow> distinct_keys rs'"
    and "\<not> written \<Longrightarrow> rs' = rs" and "written \<Longrightarrow> row_at rs' (brKey r) = Some r"
  using assms
  by (auto simp: upsert_current_def merged_def row_at_append row_at_replace distinct_keys_replace distinct_keys_append
      split: option.splits if_splits)

lemma upsert_currents_rows:
  assumes "upsert_currents old cur rs = (ds, rs')" and "distinct (map brKey cur)"
  shows "(\<forall>r \<in> set cur. row_at rs' (brKey r) = Some (merged (row_at rs (brKey r)) r)) \<and>
    (\<forall>k. k \<notin> brKey ` set cur \<longrightarrow> row_at rs' k = row_at rs k) \<and> (distinct_keys rs \<longrightarrow> distinct_keys rs')"
  using assms
proof (induction old cur rs arbitrary: ds rs' rule: upsert_currents.induct)
  case (2 old r cur rs)
  obtain written rs1 ds1 where up: "upsert_current r rs = (written, rs1)" "upsert_currents old cur rs1 = (ds1, rs')"
    using 2(2) by (auto split: prod.splits)
  note row = upsert_current_row [OF up(1)]
  have dist: "distinct (map brKey cur)" "brKey r \<notin> brKey ` set cur"
    using 2(3) by auto
  note IH = 2(1) [OF up(1) [symmetric] up(2) dist(1)]
  have frame: "row_at rs' k = row_at rs1 k" if "k \<notin> brKey ` set cur" for k
    using IH that by blast
  have new: "row_at rs' (brKey r) = Some (merged (row_at rs (brKey r)) r)"
    using frame [OF dist(2)] row(1) [of "brKey r"] by simp
  have "row_at rs' (brKey q) = Some (merged (row_at rs (brKey q)) q)" if "q \<in> set cur" for q
    using IH that dist(2) row(1) [of "brKey q"] by (metis imageI)
  moreover have "row_at rs' k = row_at rs k" if "k \<notin> brKey ` set (r # cur)" for k
    using frame [of k] that row(1) [of k] by simp
  ultimately show ?case
    using new IH row(2) by auto
qed simp

lemma upsert_currents_deltas:
  assumes "upsert_currents old cur rs = (ds, rs')" and "distinct (map brKey cur)"
    and "\<And>r. r \<in> set cur \<Longrightarrow> row_at rs (brKey r) = row_at old (brKey r)"
  shows "delta_for ds t = (\<Sum>r \<leftarrow> cur. if fst (brKey r) = t then boolInt (positive rs' (brKey r)) - boolInt (positive old (brKey r)) else 0)"
  using assms
proof (induction old cur rs arbitrary: ds rs' rule: upsert_currents.induct)
  case (2 old r cur rs)
  obtain written rs1 ds1 where up: "upsert_current r rs = (written, rs1)" "upsert_currents old cur rs1 = (ds1, rs')"
      "ds = (if written then (fst (brKey r), boolInt (0 < brBalance r) - boolInt (positive old (brKey r))) # ds1 else ds1)"
    using 2(2) by (auto split: prod.splits)
  note row = upsert_current_row [OF up(1)]
  have dist: "distinct (map brKey cur)" "brKey r \<notin> brKey ` set cur"
    using 2(3) by auto
  have "row_at rs1 (brKey q) = row_at old (brKey q)" if "q \<in> set cur" for q
    using 2(4) [of q] that dist(2) row(1) by (auto simp: image_iff)
  then have IH: "delta_for ds1 t = (\<Sum>r \<leftarrow> cur. if fst (brKey r) = t then boolInt (positive rs' (brKey r)) - boolInt (positive old (brKey r)) else 0)"
    by (intro 2(1) [OF up(1) [symmetric] up(2) dist(1)])
  have "row_at rs' (brKey r) = row_at rs1 (brKey r)"
    using upsert_currents_rows [OF up(2) dist(1)] dist(2) by blast
  moreover have "positive rs' (brKey r) = (0 < brBalance r)" if written
    using row(4) that calculation by (simp add: positive_def)
  moreover have "positive rs' (brKey r) = positive old (brKey r)" if "\<not> written"
    using row(3) that calculation(1) 2(4) [of r] by (simp add: positive_def)
  ultimately show ?case
    using IH by (auto simp: up(3) delta_for_def)
qed (simp add: delta_for_def)

section \<open>The sorted batch\<close>

lemma ex_split_Cons: "(\<exists>ys zs. x # xs = ys @ a # zs \<and> P zs) \<longleftrightarrow> (a = x \<and> P xs) \<or> (\<exists>ys zs. xs = ys @ a # zs \<and> P zs)"
proof
  show "\<exists>ys zs. x # xs = ys @ a # zs \<and> P zs \<Longrightarrow> (a = x \<and> P xs) \<or> (\<exists>ys zs. xs = ys @ a # zs \<and> P zs)"
    by (auto simp: Cons_eq_append_conv)
next
  assume "(a = x \<and> P xs) \<or> (\<exists>ys zs. xs = ys @ a # zs \<and> P zs)"
  then show "\<exists>ys zs. x # xs = ys @ a # zs \<and> P zs"
    by (metis append_Cons append_Nil)
qed

lemma in_collapse:
  fixes k :: "'a \<Rightarrow> 'k :: linorder"
  assumes "sorted (map k xs)"
  shows "a \<in> set (collapse k xs) \<longleftrightarrow> (\<exists>ys zs. xs = ys @ a # zs \<and> k a \<notin> k ` set zs)"
  using assms
proof (induction k xs rule: collapse.induct)
  case (1 k x y zs)
  let ?last = "\<lambda>a xs. \<exists>ys zs. xs = ys @ a # zs \<and> k a \<notin> k ` set zs"
  have step: "?last a (x # y # zs) \<longleftrightarrow> (a = x \<and> k a \<notin> k ` set (y # zs)) \<or> ?last a (y # zs)"
    by (rule ex_split_Cons)
  show ?case
  proof (cases "k x = k y")
    case True
    then show ?thesis
      unfolding step using 1 by auto
  next
    case False
    then have "k x \<notin> k ` set (y # zs)"
      using 1(3) by fastforce
    then show ?thesis
      unfolding step using False 1 by auto
  qed
qed (auto simp: Cons_eq_append_conv)

lemma collapse_keys: "set (map k (collapse k xs)) = set (map k xs)"
  by (induction k xs rule: collapse.induct) auto

lemma set_collapse: "set (collapse k xs) \<subseteq> set xs"
  by (induction k xs rule: collapse.induct) auto

lemma distinct_collapse:
  fixes k :: "'a \<Rightarrow> 'k :: linorder"
  shows "sorted (map k xs) \<Longrightarrow> distinct (map k (collapse k xs))"
proof (induction k xs rule: collapse.induct)
  case (1 k x y zs)
  show ?case
  proof (cases "k x = k y")
    case False
    then have "k x \<notin> set (map k (y # zs))"
      using 1(3) by fastforce
    then have "k x \<notin> set (map k (collapse k (y # zs)))"
      unfolding collapse_keys .
    then show ?thesis
      using 1 False by simp
  qed (use 1 in simp)
qed auto

definition in_order :: "balance list \<Rightarrow> bool" where
  "in_order bs \<longleftrightarrow> sorted (map (\<lambda>b. (ToLower (baTokenAddress b), ToLower (baAddress b), baBlockNumber b)) bs)"

lemma in_order_filter: "in_order (filter P (sort_balances bs))"
  by (simp add: in_order_def sort_balances_def sorted_filter)

lemma in_order_keys:
  assumes "in_order bs"
  shows "sorted (map key_of bs)" and "sorted (map (\<lambda>b. (key_of b, baBlockNumber b)) bs)"
proof -
  let ?t = "\<lambda>b. (ToLower (baTokenAddress b), ToLower (baAddress b), baBlockNumber b)"
  have "sorted_wrt (\<lambda>x y. ?t x \<le> ?t y) bs"
    using assms by (simp add: in_order_def sorted_map)
  then have "sorted_wrt (\<lambda>x y. key_of x \<le> key_of y) bs" "sorted_wrt (\<lambda>x y. (key_of x, baBlockNumber x) \<le> (key_of y, baBlockNumber y)) bs"
    by (auto elim!: sorted_wrt_mono_rel [rotated] simp: key_of_def less_eq_prod_def less_prod_def)
  then show "sorted (map key_of bs)" "sorted (map (\<lambda>b. (key_of b, baBlockNumber b)) bs)"
    by (simp_all add: sorted_map)
qed

text \<open>
  The current row of a key is its last read; among the history rows of the batch it is the one of the
  highest block.
\<close>

lemma current_tops_history:
  assumes "in_order bs" and c: "c \<in> set (collapse key_of bs)"
    and h: "h \<in> set (collapse (\<lambda>b. (key_of b, baBlockNumber b)) bs)" and key: "key_of h = key_of c"
  shows "baBlockNumber h < baBlockNumber c \<or> h = c"
proof -
  obtain ys zs where c': "bs = ys @ c # zs" "key_of c \<notin> key_of ` set zs"
    using c in_collapse [OF in_order_keys(1) [OF assms(1)]] by blast
  obtain us vs where h': "bs = us @ h # vs" "(key_of h, baBlockNumber h) \<notin> (\<lambda>b. (key_of b, baBlockNumber b)) ` set vs"
    using h in_collapse [OF in_order_keys(2) [OF assms(1)]] by blast
  have "h \<notin> set zs"
    using c'(2) key by (metis imageI)
  then consider "h = c" | "c \<in> set vs"
    using c'(1) h'(1) by (auto simp: append_eq_append_conv2 Cons_eq_append_conv append_eq_Cons_conv)
  then show ?thesis
  proof cases
    case 2
    then have "(key_of h, baBlockNumber h) \<le> (key_of c, baBlockNumber c)"
      using in_order_keys(2) [OF assms(1)] unfolding h'(1) by (auto simp: sorted_append)
    moreover have "(key_of h, baBlockNumber h) \<noteq> (key_of c, baBlockNumber c)"
      using 2 h'(2) by (metis (no_types, lifting) image_eqI)
    ultimately show ?thesis
      using key by (simp add: less_eq_prod_def)
  qed simp
qed

lemma current_in_history:
  assumes "in_order bs" and "c \<in> set (collapse key_of bs)"
  shows "c \<in> set (collapse (\<lambda>b. (key_of b, baBlockNumber b)) bs)"
proof -
  obtain ys zs where "bs = ys @ c # zs" "key_of c \<notin> key_of ` set zs"
    using assms in_collapse [OF in_order_keys(1) [OF assms(1)]] by blast
  then show ?thesis
    unfolding in_collapse [OF in_order_keys(2) [OF assms(1)]] by (intro exI [of _ ys] exI [of _ zs]) auto
qed

section \<open>Holder counts are exact\<close>

definition holders_exact :: "world \<Rightarrow> bool" where
  "holders_exact w \<longleftrightarrow> (\<forall>q \<in> set (tokens w). tkHolderCount q = countTokenHolders w (tkAddress q))"

lemma fold_set_token:
  assumes "distinct ts" and "\<And>t q. tkAddress (f t q) = tkAddress q"
  shows "fold (\<lambda>t. set_token t (f t)) ts w =
    w\<lparr>tokens := map (\<lambda>q. if tkAddress q \<in> set ts then f (tkAddress q) q else q) (tokens w)\<rparr>"
  using assms(1)
proof (induction ts arbitrary: w)
  case (Cons t ts)
  then show ?case
    using assms(2) by (auto simp: set_token_def comp_def)
qed simp

lemma apply_holders_tokens:
  "apply_holders ds w = w\<lparr>tokens := map (\<lambda>q. if tkAddress q \<in> set (touched_tokens ds)
     then q\<lparr>tkHolderCount := max (tkHolderCount q + delta_for ds (tkAddress q)) 0\<rparr> else q) (tokens w)\<rparr>"
  unfolding apply_holders_def apply_holder_def
  by (rule fold_set_token) (simp_all add: touched_tokens_def)

lemma apply_holders_bal [simp]: "bal (apply_holders ds w) = bal w"
  by (simp add: apply_holders_tokens)

lemma delta_for_untouched: "t \<notin> set (touched_tokens ds) \<Longrightarrow> delta_for ds t = 0"
proof -
  have "t \<notin> fst ` set ds \<Longrightarrow> delta_for ds t = 0"
    unfolding delta_for_def by (induction ds) auto
  then show "t \<notin> set (touched_tokens ds) \<Longrightarrow> delta_for ds t = 0"
    by (auto simp: touched_tokens_def)
qed

lemma apply_holders_exact:
  assumes "holders_exact w" and "tokens w' = tokens w"
    and "\<And>t. countTokenHolders w' t = countTokenHolders w t + delta_for ds t"
  shows "holders_exact (apply_holders ds w')"
proof -
  have "countTokenHolders (apply_holders ds w') t = countTokenHolders w' t" "0 \<le> countTokenHolders w' t" for t
    by (simp_all add: countTokenHolders_def)
  then show ?thesis
    using assms delta_for_untouched [of _ ds] by (auto simp: holders_exact_def apply_holders_tokens)
qed

text \<open>
  What a write of the kept reads does to the current rows: a key read gets the merged row, another keeps
  its own; and to the history: a read row replaces the one of its key and block.
\<close>

definition write_rows :: "bool \<Rightarrow> balance list \<Rightarrow> world \<Rightarrow> balance_row list \<times> balance_row list \<times> (string \<times> int) list" where
  "write_rows history kept w =
     (let b = bal w;
          hist = (if history
                  then fold (insert_balance (history_from w)) (map row_of (collapse (\<lambda>b. (key_of b, baBlockNumber b)) kept)) (balances b)
                  else balances b)
      in case upsert_currents (token_balances_current b) (map row_of (collapse key_of kept)) (token_balances_current b) of
           (ds, tbc) \<Rightarrow> (hist, tbc, ds))"

lemma write_balances_rows:
  "write_rows history kept w = (hist, tbc, ds) \<Longrightarrow>
   write_balances history kept w = apply_holders ds (w\<lparr>bal := (bal w)\<lparr>balances := hist, token_balances_current := tbc\<rparr>\<rparr>)"
proof -
  have "balances_update (\<lambda>_. balances b) b = b" for b
    by simp
  then show "write_rows history kept w = (hist, tbc, ds) \<Longrightarrow>
     write_balances history kept w = apply_holders ds (w\<lparr>bal := (bal w)\<lparr>balances := hist, token_balances_current := tbc\<rparr>\<rparr>)"
    by (auto simp: write_rows_def write_balances_def Let_def split: prod.splits if_splits)
qed

lemma brKey_row_of [simp]: "brKey (row_of b) = key_of b" "brBlock (row_of b) = baBlockNumber b" "brBalance (row_of b) = baBalance b"
  by (simp_all add: row_of_def)

lemma map_brKey_row_of: "map brKey (map row_of bs) = map key_of bs"
  by simp

lemma write_rows_current:
  assumes "write_rows history kept w = (hist, tbc, ds)" and ord: "in_order kept"
  shows "c \<in> set (collapse key_of kept) \<Longrightarrow>
      row_at tbc (key_of c) = Some (merged (row_at (token_balances_current (bal w)) (key_of c)) (row_of c))"
    and "k \<notin> key_of ` set kept \<Longrightarrow> row_at tbc k = row_at (token_balances_current (bal w)) k"
    and "distinct_keys (token_balances_current (bal w)) \<Longrightarrow> distinct_keys tbc"
    and "delta_for ds t = (\<Sum>k \<leftarrow> map key_of (collapse key_of kept).
           if fst k = t then boolInt (positive tbc k) - boolInt (positive (token_balances_current (bal w)) k) else 0)"
proof -
  let ?cur = "map row_of (collapse key_of kept)" and ?old = "token_balances_current (bal w)"
  have up: "upsert_currents ?old ?cur ?old = (ds, tbc)"
    using assms(1) by (auto simp: write_rows_def Let_def split: prod.splits)
  have dist: "distinct (map brKey ?cur)"
    unfolding map_brKey_row_of by (rule distinct_collapse [OF in_order_keys(1) [OF ord]])
  note rows = upsert_currents_rows [OF up dist]
  have keys: "brKey ` set ?cur = key_of ` set kept"
    using collapse_keys [of key_of kept] by (simp add: image_image)
  show "c \<in> set (collapse key_of kept) \<Longrightarrow> row_at tbc (key_of c) = Some (merged (row_at ?old (key_of c)) (row_of c))"
    using rows by force
  show "k \<notin> key_of ` set kept \<Longrightarrow> row_at tbc k = row_at ?old k"
    using rows unfolding keys by blast
  show "distinct_keys ?old \<Longrightarrow> distinct_keys tbc"
    using rows by blast
  show "delta_for ds t = (\<Sum>k \<leftarrow> map key_of (collapse key_of kept).
      if fst k = t then boolInt (positive tbc k) - boolInt (positive ?old k) else 0)"
    using upsert_currents_deltas [OF up dist] by (simp add: comp_def cong: if_cong)
qed

lemma write_balances_holders:
  assumes ok: "holders_exact w" and dist: "distinct_keys (token_balances_current (bal w))" and ord: "in_order kept"
  shows "holders_exact (write_balances history kept w)"
proof -
  obtain hist tbc ds where rows: "write_rows history kept w = (hist, tbc, ds)"
    by (cases "write_rows history kept w") auto
  note cur = write_rows_current [OF rows ord]
  let ?old = "token_balances_current (bal w)" and ?w' = "w\<lparr>bal := (bal w)\<lparr>balances := hist, token_balances_current := tbc\<rparr>\<rparr>"
  let ?ks = "map key_of (collapse key_of kept)"
  have "countTokenHolders ?w' t = countTokenHolders w t + delta_for ds t" for t
  proof -
    have "row_at tbc k = row_at ?old k" if "k \<notin> set ?ks" for k
      using cur(2) that collapse_keys [of key_of kept] by simp
    then have "int (card (holders tbc t)) = int (card (holders ?old t)) + delta_for ds t"
      unfolding cur(4) by (intro holders_change distinct_collapse in_order_keys(1) [OF ord])
    then show ?thesis
      using count_holders [OF dist] count_holders [OF cur(3) [OF dist]] by (simp add: countTokenHolders_def)
  qed
  then show ?thesis
    unfolding write_balances_rows [OF rows] by (intro apply_holders_exact [OF ok]) simp_all
qed

lemma holders_exact_bal:
  "token_balances_current b = token_balances_current (bal w) \<Longrightarrow> holders_exact (w\<lparr>bal := b\<rparr>) = holders_exact w"
  by (simp add: holders_exact_def countTokenHolders_def)

lemma rereads_frame [simp]:
  "token_balances_current (reopenRereads ks e b) = token_balances_current b" "balances (reopenRereads ks e b) = balances b"
  "token_balances_current (closeRereads ks b) = token_balances_current b" "balances (closeRereads ks b) = balances b"
  "token_balances_current (recordBalanceRereads ks b) = token_balances_current b" "balances (recordBalanceRereads ks b) = balances b"
  by (simp_all add: reopenRereads_def closeRereads_def recordBalanceRereads_def Let_def)

lemma holders_exact_set_bal:
  "(\<And>b. token_balances_current (f b) = token_balances_current b) \<Longrightarrow> holders_exact (set_bal f w) = holders_exact w"
  by (simp add: set_bal_def holders_exact_bal)

lemma insert_balances_holders:
  assumes "holders_exact w" and "distinct_keys (token_balances_current (bal w))"
  shows "holders_exact (insert_balances history bs w)"
  using assms write_balances_holders [OF assms in_order_filter]
  by (simp add: insert_balances_def Let_def holders_exact_set_bal)

section \<open>The current row is the latest\<close>

text \<open>
  \<open>current_latest\<close>: every retained history row is topped by its key's current row: that row is of a later
  block, or of the same block with the same balance.
\<close>

definition tops :: "balance_row \<Rightarrow> balance_row \<Rightarrow> bool" where
  "tops q r \<longleftrightarrow> brBlock r < brBlock q \<or> (brBlock r = brBlock q \<and> brBalance r = brBalance q)"

definition current_latest :: "world \<Rightarrow> bool" where
  "current_latest w \<longleftrightarrow> (\<forall>r \<in> set (balances (bal w)). history_from w \<le> brBlock r \<longrightarrow>
     (\<exists>q. row_at (token_balances_current (bal w)) (brKey r) = Some q \<and> tops q r))"

definition wf_balances :: "world \<Rightarrow> bool" where
  "wf_balances w \<longleftrightarrow> distinct_keys (token_balances_current (bal w)) \<and>
     distinct (map (\<lambda>r. (brKey r, brBlock r)) (balances (bal w)))"

lemma fold_insert_balance:
  assumes "r \<in> set (fold (insert_balance f) hs rs)"
  shows "r \<in> set hs \<and> f \<le> brBlock r \<or>
    r \<in> set rs \<and> (\<forall>h \<in> set hs. f \<le> brBlock h \<longrightarrow> \<not> (brKey h = brKey r \<and> brBlock h = brBlock r))"
  using assms
proof (induction hs arbitrary: rs)
  case (Cons h hs)
  have "r = h \<and> f \<le> brBlock h \<or> r \<in> set rs \<and> (f \<le> brBlock h \<longrightarrow> \<not> (brKey h = brKey r \<and> brBlock h = brBlock r))"
    if "r \<in> set (insert_balance f h rs)"
    using that by (auto simp: insert_balance_def split: if_splits)
  then show ?case
    using Cons by fastforce
qed simp

lemma distinct_insert_balance:
  "distinct (map (\<lambda>r. (brKey r, brBlock r)) rs) \<Longrightarrow> distinct (map (\<lambda>r. (brKey r, brBlock r)) (fold (insert_balance f) hs rs))"
proof (induction hs arbitrary: rs)
  case (Cons h hs)
  let ?k = "\<lambda>r. (brKey r, brBlock r)"
  have "map ?k (map (\<lambda>q. if brKey q = brKey h \<and> brBlock q = brBlock h then h else q) rs) = map ?k rs"
    by (induction rs) auto
  then have "distinct (map ?k (insert_balance f h rs))"
    using Cons(2) by (auto simp: insert_balance_def simp del: map_map)
  then show ?case
    using Cons(1) by simp
qed simp

lemma write_balances_wf:
  assumes "wf_balances w" and ord: "in_order kept"
  shows "wf_balances (write_balances history kept w)"
proof -
  obtain hist tbc ds where rows: "write_rows history kept w = (hist, tbc, ds)"
    by (cases "write_rows history kept w") auto
  then have "distinct (map (\<lambda>r. (brKey r, brBlock r)) hist)"
    using assms(1) distinct_insert_balance by (auto simp: write_rows_def Let_def wf_balances_def split: prod.splits if_splits)
  then show ?thesis
    using assms(1) write_rows_current(3) [OF rows ord] by (simp add: write_balances_rows [OF rows] wf_balances_def)
qed

lemma history_from_bal [simp]: "history_from (w\<lparr>bal := b\<rparr>) = history_from w" "history_from (apply_holders ds w) = history_from w"
  by (simp_all add: history_from_def apply_holders_tokens)

lemma merged_tops:
  "tops (merged q r) r" "q = Some p \<Longrightarrow> tops p s \<Longrightarrow> brBlock s \<noteq> brBlock r \<Longrightarrow> tops (merged q r) s"
  by (auto simp: merged_def tops_def split: option.splits)

lemma write_balances_latest:
  assumes latest: "current_latest w" and ord: "in_order kept"
  shows "current_latest (write_balances True kept w)"
proof -
  let ?kb = "\<lambda>b. (key_of b, baBlockNumber b)" and ?old = "token_balances_current (bal w)" and ?from = "history_from w"
  obtain hist tbc ds where rows: "write_rows True kept w = (hist, tbc, ds)"
    by (cases "write_rows True kept w") auto
  then have hist: "hist = fold (insert_balance ?from) (map row_of (collapse ?kb kept)) (balances (bal w))"
    by (auto simp: write_rows_def Let_def split: prod.splits)
  note cur = write_rows_current [OF rows ord]
  have read: "\<exists>c \<in> set (collapse key_of kept). key_of c = k" if "k \<in> key_of ` set kept" for k
  proof -
    have "k \<in> key_of ` set (collapse key_of kept)"
      using that collapse_keys [of key_of kept] by simp
    then show ?thesis
      by blast
  qed
  have "\<exists>q. row_at tbc (brKey r) = Some q \<and> tops q r" if rin: "r \<in> set hist" and rfrom: "?from \<le> brBlock r" for r
    using fold_insert_balance [OF rin [unfolded hist]]
  proof
    assume "r \<in> set (map row_of (collapse ?kb kept)) \<and> ?from \<le> brBlock r"
    then obtain h where h: "r = row_of h" "h \<in> set (collapse ?kb kept)"
      by auto
    then have "key_of h \<in> key_of ` set kept"
      using subsetD [OF set_collapse h(2)] by simp
    then obtain c where c: "c \<in> set (collapse key_of kept)" "key_of c = key_of h"
      using read by meson
    then have "baBlockNumber h < baBlockNumber c \<or> h = c"
      using current_tops_history [OF ord c(1) h(2)] by simp
    then have "tops (merged (row_at ?old (key_of c)) (row_of c)) r"
      using h(1) merged_tops(1) [of "row_at ?old (key_of c)" "row_of c"] by (auto simp: tops_def)
    then show ?thesis
      using cur(1) [OF c(1)] c(2) h(1) by simp
  next
    assume r: "r \<in> set (balances (bal w)) \<and> (\<forall>h \<in> set (map row_of (collapse ?kb kept)). ?from \<le> brBlock h \<longrightarrow>
        \<not> (brKey h = brKey r \<and> brBlock h = brBlock r))"
    then obtain q where q: "row_at ?old (brKey r) = Some q" "tops q r"
      using latest rfrom by (auto simp: current_latest_def)
    show ?thesis
    proof (cases "brKey r \<in> key_of ` set kept")
      case True
      then obtain c where c: "c \<in> set (collapse key_of kept)" "key_of c = brKey r"
        using read by meson
      have "row_of c \<in> set (map row_of (collapse ?kb kept))"
        using current_in_history [OF ord c(1)] by simp
      then have "brBlock r \<noteq> brBlock (row_of c)"
        using r c(2) rfrom by fastforce
      then have "tops (merged (Some q) (row_of c)) r"
        using merged_tops(2) [OF refl q(2)] by simp
      then show ?thesis
        using cur(1) [OF c(1)] c(2) q(1) by simp
    qed (use cur(2) q in simp)
  qed
  then show ?thesis
    by (simp add: write_balances_rows [OF rows] current_latest_def)
qed

lemma set_bal_inv:
  assumes "\<And>b. token_balances_current (f b) = token_balances_current b" "\<And>b. balances (f b) = balances b"
  shows "current_latest (set_bal f w) = current_latest w" and "wf_balances (set_bal f w) = wf_balances w"
  using assms by (simp_all add: current_latest_def wf_balances_def set_bal_def)

lemma insert_balances_latest: "current_latest w \<Longrightarrow> current_latest (insert_balances True bs w)"
  using write_balances_latest [OF _ in_order_filter] by (simp add: insert_balances_def Let_def set_bal_inv)

lemma insert_balances_wf: "wf_balances w \<Longrightarrow> wf_balances (insert_balances history bs w)"
  using write_balances_wf [OF _ in_order_filter] by (simp add: insert_balances_def Let_def set_bal_inv)

section \<open>A revert\<close>

lemma latest_row_None: "latest_row rs k = None \<longleftrightarrow> (\<forall>r \<in> set rs. brKey r \<noteq> k)"
proof -
  have "latest_row rs k = None \<longleftrightarrow> set (rev (sort_key brBlock (filter (\<lambda>r. brKey r = k) rs))) = {}"
    unfolding set_empty by (simp add: latest_row_def split: list.split)
  then show ?thesis
    by auto
qed

lemma latest_row_Some:
  assumes "latest_row rs k = Some r"
  shows "r \<in> set rs" "brKey r = k" "\<And>q. q \<in> set rs \<Longrightarrow> brKey q = k \<Longrightarrow> brBlock q \<le> brBlock r"
proof -
  let ?xs = "sort_key brBlock (filter (\<lambda>r. brKey r = k) rs)"
  obtain ys where ys: "?xs = ys @ [r]"
    using assms by (auto simp: latest_row_def split: list.splits)
  then have mem: "set (ys @ [r]) = {q \<in> set rs. brKey q = k}"
    using set_sort [of brBlock "filter (\<lambda>r. brKey r = k) rs"] by simp
  then show "r \<in> set rs" "brKey r = k"
    by auto
  have "sorted (map brBlock (ys @ [r]))"
    unfolding ys [symmetric] by simp
  then show "brBlock q \<le> brBlock r" if "q \<in> set rs" "brKey q = k" for q
    using that mem by (auto simp: sorted_append)
qed

lemma restore_current_rows:
  assumes "distinct_keys rs"
  shows "row_at (restore_current hist restore rs) k = (if k \<in> set restore then latest_row hist k else row_at rs k)"
    and "distinct_keys (restore_current hist restore rs)"
proof -
  let ?f = "\<lambda>k rs. case latest_row hist k of None \<Rightarrow> rs
    | Some r \<Rightarrow> if \<exists>q \<in> set rs. brKey q = k then map (\<lambda>q. if brKey q = k then r else q) rs else rs @ [r]"
  have step: "row_at (?f k rs) j = (if j = k \<and> latest_row hist k \<noteq> None then latest_row hist k else row_at rs j) \<and>
      (distinct_keys rs \<longrightarrow> distinct_keys (?f k rs))" for k j rs
  proof (cases "latest_row hist k")
    case (Some r)
    then have "brKey r = k"
      by (rule latest_row_Some(2))
    moreover have "(\<exists>q \<in> set rs. brKey q = k) \<longleftrightarrow> row_at rs k \<noteq> None"
      by (auto simp: row_at_None)
    ultimately show ?thesis
      using Some by (auto simp: row_at_replace distinct_keys_replace row_at_append distinct_keys_append split: option.split)
  qed simp
  have "row_at (fold ?f ks rs) j = (if j \<in> set ks \<and> latest_row hist j \<noteq> None then latest_row hist j else row_at rs j) \<and>
      (distinct_keys rs \<longrightarrow> distinct_keys (fold ?f ks rs))" for ks j rs
  proof (induction ks arbitrary: rs)
    case (Cons k ks)
    show ?case
      using Cons [of "?f k rs"] step [where k = k and rs = rs and j = j] by auto
  qed simp
  moreover have "distinct_keys (filter P rs)" for P
    using assms by (simp add: distinct_keys_def distinct_map_filter)
  ultimately show "row_at (restore_current hist restore rs) k = (if k \<in> set restore then latest_row hist k else row_at rs k)"
    "distinct_keys (restore_current hist restore rs)"
    unfolding restore_current_def using assms
    by (auto simp: row_at_filter split: option.split dest: row_at_SomeD)
qed

text \<open>What \<open>revertBalances\<close> changes, and that its deltas are the change of the holder counts.\<close>

lemma revertBalances_parts:
  obtains hist tbc restore where
    "snd (revertBalances n w) = w\<lparr>bal := (bal w)\<lparr>balances := hist, token_balances_current := tbc\<rparr>\<rparr>"
    "hist = filter (\<lambda>r. brBlock r \<noteq> n) (balances (bal w))" "tbc = restore_current hist restore (token_balances_current (bal w))"
    "distinct restore" "set restore = set (history_keys n w)"
    "\<And>t. delta_for (snd (fst (revertBalances n w))) t = (\<Sum>k \<leftarrow> restore.
       if fst k = t then boolInt (positive tbc k) - boolInt (positive (token_balances_current (bal w)) k) else 0)"
proof -
  let ?hist = "filter (\<lambda>r. brBlock r \<noteq> n) (balances (bal w))" and ?keys = "blockBalanceKeys n w"
  let ?restore = "map fst (filter snd ?keys)" and ?before = "token_balances_current (bal w)"
  let ?tbc = "restore_current ?hist ?restore ?before"
  have restore: "?restore = filter (\<lambda>k. k \<in> set (history_keys n w)) (sort (remdups (history_keys n w @ transfer_keys n w)))"
    by (simp add: blockBalanceKeys_def filter_map comp_def)
  have sum: "delta_for [(fst k, f k). k \<leftarrow> ks, f k \<noteq> 0] t = (\<Sum>k \<leftarrow> ks. if fst k = t then f k else 0)"
    for ks :: "balance_key list" and f :: "balance_key \<Rightarrow> int" and t
    by (induction ks) (auto simp: delta_for_def)
  have empty: "?hist = balances (bal w)" "?restore = []" if "?keys = []"
  proof -
    have "set (history_keys n w @ transfer_keys n w) = set (map fst ?keys)"
      by (simp add: blockBalanceKeys_def comp_def)
    then have "history_keys n w = []"
      using that by simp
    then show "?hist = balances (bal w)"
      by (auto simp: history_keys_def filter_id_conv filter_empty_conv)
  qed (use that in simp)
  have same: "w = w\<lparr>bal := (bal w)\<lparr>balances := ?hist, token_balances_current := ?tbc\<rparr>\<rparr>" if "?keys = []"
    by (simp add: empty [OF that] restore_current_def)
  show ?thesis
  proof (rule that)
    show "snd (revertBalances n w) = w\<lparr>bal := (bal w)\<lparr>balances := ?hist, token_balances_current := ?tbc\<rparr>\<rparr>"
      using same by (auto simp: revertBalances_def Let_def)
    show "distinct ?restore" "set ?restore = set (history_keys n w)"
      unfolding restore by auto
    show "delta_for (snd (fst (revertBalances n w))) t =
        (\<Sum>k \<leftarrow> ?restore. if fst k = t then boolInt (positive ?tbc k) - boolInt (positive ?before k) else 0)" for t
    proof (cases "?keys = []")
      case False
      let ?d = "\<lambda>k. boolInt (positive ?tbc k) - boolInt (positive ?before k)"
      have "snd (fst (revertBalances n w)) = [(fst k, ?d k). k \<leftarrow> ?restore, ?d k \<noteq> 0]"
        using False by (simp add: revertBalances_def Let_def)
      then show ?thesis
        by (simp only: sum)
    qed (simp add: revertBalances_def Let_def delta_for_def)
  qed simp_all
qed

lemma revertBalances_counts:
  assumes "distinct_keys (token_balances_current (bal w))"
  shows "countTokenHolders (snd (revertBalances n w)) t = countTokenHolders w t + delta_for (snd (fst (revertBalances n w))) t"
proof -
  obtain hist tbc restore where parts:
      "snd (revertBalances n w) = w\<lparr>bal := (bal w)\<lparr>balances := hist, token_balances_current := tbc\<rparr>\<rparr>"
      "tbc = restore_current hist restore (token_balances_current (bal w))" "distinct restore"
      "\<And>t. delta_for (snd (fst (revertBalances n w))) t = (\<Sum>k \<leftarrow> restore.
         if fst k = t then boolInt (positive tbc k) - boolInt (positive (token_balances_current (bal w)) k) else 0)"
    by (rule revertBalances_parts [of n w]) blast
  note rows = restore_current_rows [OF assms, of hist restore]
  have "int (card (holders tbc t)) = int (card (holders (token_balances_current (bal w)) t)) + delta_for (snd (fst (revertBalances n w))) t"
    unfolding parts(4) using rows(1) parts(2) by (intro holders_change [OF parts(3)]) simp
  then show ?thesis
    using count_holders [OF assms] count_holders [OF rows(2)] by (simp add: countTokenHolders_def parts(1,2))
qed

lemma revertBalances_inv:
  assumes wf: "wf_balances w"
  shows "wf_balances (snd (revertBalances n w))" and "current_latest w \<Longrightarrow> current_latest (snd (revertBalances n w))"
proof -
  obtain hist tbc restore where parts:
      "snd (revertBalances n w) = w\<lparr>bal := (bal w)\<lparr>balances := hist, token_balances_current := tbc\<rparr>\<rparr>"
      "hist = filter (\<lambda>r. brBlock r \<noteq> n) (balances (bal w))" "tbc = restore_current hist restore (token_balances_current (bal w))"
    by (rule revertBalances_parts [of n w]) blast
  have dist: "distinct_keys (token_balances_current (bal w))" "distinct (map (\<lambda>r. (brKey r, brBlock r)) hist)"
    using wf by (simp_all add: wf_balances_def parts(2) distinct_map_filter)
  note rows = restore_current_rows [OF dist(1), of hist restore]
  show "wf_balances (snd (revertBalances n w))"
    using dist rows(2) by (simp add: wf_balances_def parts(1,3))
  have "\<exists>q. row_at tbc (brKey r) = Some q \<and> tops q r"
    if latest: "current_latest w" and r: "r \<in> set hist" "history_from w \<le> brBlock r" for r
  proof (cases "brKey r \<in> set restore")
    case True
    obtain q where q: "latest_row hist (brKey r) = Some q"
      using r(1) latest_row_None [of hist "brKey r"] by (cases "latest_row hist (brKey r)") auto
    note q' = latest_row_Some [OF q]
    have "brBlock r = brBlock q \<Longrightarrow> r = q"
      using dist(2) r(1) q'(1,2) by (auto simp: distinct_map inj_on_def)
    then have "tops q r"
      using q'(3) [OF r(1)] by (auto simp: tops_def)
    then show ?thesis
      using True q rows(1) parts(3) by simp
  next
    case False
    then show ?thesis
      using latest r rows(1) by (simp add: current_latest_def parts(2,3))
  qed
  then show "current_latest (snd (revertBalances n w))" if "current_latest w"
    using that by (simp add: current_latest_def parts(1))
qed

section \<open>Epochs\<close>

definition epochs_ok :: "balance_tables \<Rightarrow> bool" where
  "epochs_ok b \<longleftrightarrow> distinct (map reKey (balance_rereads b)) \<and>
     (\<forall>r \<in> set (balance_rereads b). reEpoch r \<le> balance_reorg_epoch b \<and> reAttempts r \<le> MaxBalanceRereadAttempts)"

lemma open_reread_rows:
  "r \<in> set (open_reread f e k rs) \<Longrightarrow>
   r \<in> set rs \<or> (reAttempts r = 0 \<and> (reEpoch r = e \<or> (\<exists>q \<in> set rs. reEpoch r = f (reEpoch q))))"
  by (cases "\<exists>q \<in> set rs. reKey q = k") (auto simp: open_reread_def)

lemma open_reread_keys: "distinct (map reKey rs) \<Longrightarrow> distinct (map reKey (open_reread f e k rs))"
proof -
  have "map reKey (map (\<lambda>r. if reKey r = k then r\<lparr>reEpoch := f (reEpoch r), reOpen := True, reAttempts := 0\<rparr> else r) rs) = map reKey rs"
    by (induction rs) auto
  then show "distinct (map reKey rs) \<Longrightarrow> distinct (map reKey (open_reread f e k rs))"
    by (auto simp: open_reread_def simp del: map_map)
qed

lemma fold_open_reread:
  assumes "\<And>x. x \<le> m \<Longrightarrow> f x \<le> m" "e \<le> m" and "distinct (map reKey rs)"
    and "\<forall>r \<in> set rs. reEpoch r \<le> m \<and> reAttempts r \<le> MaxBalanceRereadAttempts"
  shows "distinct (map reKey (fold (open_reread f e) ks rs)) \<and>
    (\<forall>r \<in> set (fold (open_reread f e) ks rs). reEpoch r \<le> m \<and> reAttempts r \<le> MaxBalanceRereadAttempts)"
  using assms(3,4)
proof (induction ks arbitrary: rs)
  case (Cons k ks)
  have "reEpoch r \<le> m \<and> reAttempts r \<le> MaxBalanceRereadAttempts" if "r \<in> set (open_reread f e k rs)" for r
    using open_reread_rows [OF that]
  proof
    assume "reAttempts r = 0 \<and> (reEpoch r = e \<or> (\<exists>q \<in> set rs. reEpoch r = f (reEpoch q)))"
    then show ?thesis
      using Cons(3) assms(1,2) by auto
  qed (use Cons(3) in simp)
  then have "\<forall>r \<in> set (open_reread f e k rs). reEpoch r \<le> m \<and> reAttempts r \<le> MaxBalanceRereadAttempts"
    by blast
  from Cons(1) [OF open_reread_keys [OF Cons(2)] this] show ?case
    unfolding fold_simps .
qed simp

text \<open>A key asked for is open at the epoch or later.\<close>

lemma open_reread_opens:
  assumes "\<And>x. e \<le> f x"
  shows "\<exists>r \<in> set (open_reread f e k rs). reKey r = k \<and> reOpen r \<and> e \<le> reEpoch r"
proof (cases "\<exists>q \<in> set rs. reKey q = k")
  case True
  then obtain q where q: "q \<in> set rs" "reKey q = k"
    by blast
  let ?g = "\<lambda>r. if reKey r = k then r\<lparr>reEpoch := f (reEpoch r), reOpen := True, reAttempts := 0\<rparr> else r"
  have "?g q \<in> set (map ?g rs)"
    using q(1) by simp
  then have "?g q \<in> set (open_reread f e k rs)"
    using True by (simp add: open_reread_def)
  then show ?thesis
    using q(2) assms by (intro bexI [of _ "?g q"]) auto
qed (simp add: open_reread_def)

lemma open_reread_other: "r \<in> set rs \<Longrightarrow> reKey r \<noteq> k \<Longrightarrow> r \<in> set (open_reread f e k rs)"
  by (force simp: open_reread_def)

lemma fold_open_reread_opens:
  assumes "\<And>x. e \<le> f x" and "k \<in> set ks"
  shows "\<exists>r \<in> set (fold (open_reread f e) ks rs). reKey r = k \<and> reOpen r \<and> e \<le> reEpoch r"
  using assms(2)
proof (induction ks rule: rev_induct)
  case (snoc j ks)
  let ?rs = "fold (open_reread f e) ks rs"
  show ?case
  proof (cases "k = j")
    case True
    then show ?thesis
      using open_reread_opens [OF assms(1)] by simp
  next
    case False
    then obtain r where "r \<in> set ?rs" "reKey r = k" "reOpen r" "e \<le> reEpoch r"
      using snoc by auto
    then show ?thesis
      using False open_reread_other [of r ?rs j] by auto
  qed
qed simp

lemma epochs_ok_record: "epochs_ok b \<Longrightarrow> epochs_ok (recordBalanceRereads keys b)"
proof -
  assume ok: "epochs_ok b"
  let ?e = "balance_reorg_epoch b + 1"
  let ?rs = "fold (open_reread (\<lambda>_. ?e) ?e) keys (balance_rereads b)"
  have "distinct (map reKey ?rs) \<and> (\<forall>r \<in> set ?rs. reEpoch r \<le> ?e \<and> reAttempts r \<le> MaxBalanceRereadAttempts)"
    by (rule fold_open_reread) (use ok in \<open>auto simp: epochs_ok_def intro: le_SucI\<close>)
  then show ?thesis
    by (simp add: epochs_ok_def recordBalanceRereads_def Let_def)
qed

lemma epochs_ok_map:
  assumes "\<And>r. reKey (g r) = reKey r" "\<And>r. reEpoch (g r) = reEpoch r"
    and "\<And>r. r \<in> set (balance_rereads b) \<Longrightarrow> reAttempts r \<le> MaxBalanceRereadAttempts \<Longrightarrow> reAttempts (g r) \<le> MaxBalanceRereadAttempts"
    and "epochs_ok b"
  shows "epochs_ok (b\<lparr>balance_rereads := map g (balance_rereads b)\<rparr>)"
  using assms by (auto simp: epochs_ok_def comp_def)

lemma epochs_ok_close: "epochs_ok b \<Longrightarrow> epochs_ok (closeRereads keys b)"
  unfolding closeRereads_def by (rule epochs_ok_map) simp_all

lemma epochs_ok_reopen: "epochs_ok b \<Longrightarrow> e \<le> balance_reorg_epoch b \<Longrightarrow> epochs_ok (reopenRereads keys e b)"
proof -
  assume ok: "epochs_ok b" and e: "e \<le> balance_reorg_epoch b"
  let ?rs = "fold (open_reread (\<lambda>x. max x e) e) (sort keys) (balance_rereads b)"
  have "distinct (map reKey ?rs) \<and> (\<forall>r \<in> set ?rs. reEpoch r \<le> balance_reorg_epoch b \<and> reAttempts r \<le> MaxBalanceRereadAttempts)"
    by (rule fold_open_reread) (use ok e in \<open>auto simp: epochs_ok_def\<close>)
  then show ?thesis
    by (simp add: epochs_ok_def reopenRereads_def)
qed

lemma write_balances_rereads:
  "balance_rereads (bal (write_balances h kept w)) = balance_rereads (bal w)"
  "balance_reorg_epoch (bal (write_balances h kept w)) = balance_reorg_epoch (bal w)"
  by (simp_all add: write_balances_def Let_def split: prod.split)

lemma epoch_close [simp]: "balance_reorg_epoch (closeRereads ks b) = balance_reorg_epoch b"
  by (simp add: closeRereads_def)

lemma epochs_ok_insert: "epochs_ok (bal w) \<Longrightarrow> epochs_ok (bal (insert_balances h bs w))"
proof -
  assume ok: "epochs_ok (bal w)"
  have "epochs_ok (bal (write_balances h kept w))" for kept
    using ok by (simp add: epochs_ok_def write_balances_rereads)
  then have "epochs_ok (closeRereads ks (bal (write_balances h kept w)))" for ks kept
    by (rule epochs_ok_close)
  then show ?thesis
    using ok by (simp add: insert_balances_def Let_def set_bal_def epochs_ok_reopen write_balances_rereads)
qed

text \<open>A read at the latest epoch is never dropped.\<close>

lemma kept_iff_fresh:
  assumes "epochs_ok b"
  shows "is_kept (balance_reorg_epoch b) (balance_rereads b) x \<longleftrightarrow> \<not> is_late (balance_reorg_epoch b) x"
  using assms by (auto simp: is_kept_def is_late_def epochs_ok_def reread_at_def find_Some_iff split: option.split)
    (meson le_trans not_less nth_mem)+

lemma kept_is_stored:
  assumes "b \<in> set kept" and ord: "in_order kept"
  shows "\<exists>q. row_at (token_balances_current (bal (write_balances h kept w))) (key_of b) = Some q \<and> baBlockNumber b \<le> brBlock q"
proof -
  obtain hist tbc ds where rows: "write_rows h kept w = (hist, tbc, ds)"
    by (cases "write_rows h kept w") auto
  have "key_of b \<in> key_of ` set (collapse key_of kept)"
    using assms(1) collapse_keys [of key_of kept] by simp
  then obtain c where c: "c \<in> set (collapse key_of kept)" "key_of c = key_of b"
    by (metis imageE)
  obtain ys zs where split: "kept = ys @ c # zs" "key_of c \<notin> key_of ` set zs"
    using c(1) in_collapse [OF in_order_keys(1) [OF ord]] by blast
  have "b = c \<or> b \<in> set ys"
    using assms(1) c(2) split by (metis Un_iff image_eqI set_ConsD set_append)
  then have "(key_of b, baBlockNumber b) \<le> (key_of c, baBlockNumber c)"
    using in_order_keys(2) [OF ord] unfolding split(1) by (auto simp: sorted_append)
  then have "baBlockNumber b \<le> baBlockNumber c"
    using c(2) by (simp add: less_eq_prod_def)
  then show ?thesis
    using write_rows_current(1) [OF rows ord c(1)] c(2)
    by (auto simp: write_balances_rows [OF rows] merged_def split: option.splits)
qed

text \<open>Reads from before the latest revert do not count.\<close>

lemma insert_balances_fresh:
  fixes w :: world and bs :: "balance list"
  defines "fresh \<equiv> filter (\<lambda>b. \<not> is_late (balance_reorg_epoch (bal w)) b) bs"
  shows "tokens (insert_balances True bs w) = tokens (insert_balances True fresh w)"
    and "balances (bal (insert_balances True bs w)) = balances (bal (insert_balances True fresh w))"
    and "token_balances_current (bal (insert_balances True bs w)) = token_balances_current (bal (insert_balances True fresh w))"
proof -
  let ?kept = "\<lambda>bs. filter (is_kept (balance_reorg_epoch (bal w)) (balance_rereads (bal w))) (sort_balances bs)"
  have kept: "?kept fresh = ?kept bs"
    unfolding fresh_def sort_balances_def filter_sort filter_filter by (rule arg_cong, rule filter_cong) (auto simp: is_kept_def)
  have none: "?kept bs = []" if "fresh = []"
    using kept that by (simp add: sort_balances_def)
  have norm: "tokens (insert_balances True xs w) = tokens (if ?kept xs = [] then w else write_balances True (?kept xs) w)"
    "balances (bal (insert_balances True xs w)) = balances (bal (if ?kept xs = [] then w else write_balances True (?kept xs) w))"
    "token_balances_current (bal (insert_balances True xs w)) =
       token_balances_current (bal (if ?kept xs = [] then w else write_balances True (?kept xs) w))" for xs
    by (auto simp: insert_balances_def Let_def set_bal_def sort_balances_def)
  show "tokens (insert_balances True bs w) = tokens (insert_balances True fresh w)"
    "balances (bal (insert_balances True bs w)) = balances (bal (insert_balances True fresh w))"
    "token_balances_current (bal (insert_balances True bs w)) = token_balances_current (bal (insert_balances True fresh w))"
    unfolding norm kept by simp_all
qed

lemma insert_balances_reopens:
  assumes "b \<in> set bs" and "is_late (balance_reorg_epoch (bal w)) b"
  shows "\<exists>r \<in> set (balance_rereads (bal (insert_balances True bs w))).
    reKey r = key_of b \<and> reOpen r \<and> balance_reorg_epoch (bal w) \<le> reEpoch r"
proof -
  let ?e = "balance_reorg_epoch (bal w)"
  let ?late = "remdups (map key_of (filter (is_late ?e) (sort_balances bs)))"
  have key: "key_of b \<in> set (sort ?late)"
    using assms by (simp add: sort_balances_def)
  have "\<exists>v. bal (insert_balances True bs w) = reopenRereads ?late ?e v"
    using assms(1) by (auto simp: insert_balances_def Let_def set_bal_def)
  then obtain v where v: "bal (insert_balances True bs w) = reopenRereads ?late ?e v"
    by blast
  show ?thesis
    using fold_open_reread_opens [where f = "\<lambda>x. max x ?e" and e = ?e, OF _ key] unfolding v reopenRereads_def by simp
qed

lemma insert_balances_stores:
  assumes "epochs_ok (bal w)" and "b \<in> set bs" and "\<not> is_late (balance_reorg_epoch (bal w)) b"
  shows "\<exists>q. row_at (token_balances_current (bal (insert_balances True bs w))) (key_of b) = Some q \<and> baBlockNumber b \<le> brBlock q"
proof -
  let ?kept = "filter (is_kept (balance_reorg_epoch (bal w)) (balance_rereads (bal w))) (sort_balances bs)"
  have b: "b \<in> set ?kept"
    using assms by (simp add: kept_iff_fresh sort_balances_def)
  then have ne: "?kept \<noteq> []" "bs \<noteq> []"
    using assms(2) by (metis empty_iff list.set(1), auto)
  show ?thesis
    using kept_is_stored [OF b in_order_filter] ne by (simp add: insert_balances_def Let_def set_bal_def)
qed

lemma retire_simps [simp]: "reKey (retire r) = reKey r" "reEpoch (retire r) = reEpoch r" "reAttempts (retire r) = reAttempts r"
  by (simp_all add: retire_def)

lemma attempt_simps [simp]: "reKey (attempt ks r) = reKey r" "reEpoch (attempt ks r) = reEpoch r"
  "reAttempts (attempt ks r) = (if reKey r \<in> set ks then reAttempts r + 1 else reAttempts r)"
  by (simp_all add: attempt_def)

lemma lowest_open_is_open:
  assumes "distinct (map reKey rs)" and "r \<in> set rs" and "reKey r \<in> set (lowest_open limit rs)"
  shows "reOpen r"
proof -
  obtain q where q: "q \<in> set (take limit (sort_key reEpoch (filter reOpen rs)))" "reKey q = reKey r"
    using assms(3) by (auto simp: lowest_open_def)
  have "q \<in> set rs \<and> reOpen q"
    using in_set_takeD [OF q(1)] by simp
  then show ?thesis
    using assms(1,2) q(2) by (metis distinct_map inj_onD)
qed

lemma claim_rereads_bounds:
  assumes ok: "epochs_ok b" and claim: "claim_rereads limit b = ((claimed, dropped), b')"
  shows "epochs_ok b'" and "length claimed \<le> limit"
    and "r \<in> set claimed \<Longrightarrow> balance_reorg_epoch b \<le> reEpoch r \<and> 0 < reAttempts r \<and> reAttempts r \<le> MaxBalanceRereadAttempts"
proof -
  define rs where "rs = map retire (balance_rereads b)"
  define ks where "ks = lowest_open limit rs"
  have b': "b' = b\<lparr>balance_rereads := map (attempt ks) rs\<rparr>"
    and claimed: "claimed = map (\<lambda>r. r\<lparr>reEpoch := max (reEpoch r) (balance_reorg_epoch b)\<rparr>) (filter (\<lambda>r. reKey r \<in> set ks) (map (attempt ks) rs))"
    using claim by (simp_all add: claim_rereads_def Let_def rs_def ks_def)
  have ok1: "epochs_ok (b\<lparr>balance_rereads := rs\<rparr>)"
    unfolding rs_def using ok by (intro epochs_ok_map) simp_all
  have room: "reAttempts r < MaxBalanceRereadAttempts" if r: "r \<in> set rs" "reKey r \<in> set ks" for r
  proof -
    have "reOpen r"
      using lowest_open_is_open [of rs r limit] r ok1 by (simp add: epochs_ok_def ks_def)
    then show ?thesis
      using r(1) by (auto simp: rs_def retire_def spent_def not_le split: if_splits)
  qed
  show "epochs_ok b'"
    unfolding b' using epochs_ok_map [where g = "attempt ks", OF _ _ _ ok1] room by (simp add: Suc_le_eq)
  show "length claimed \<le> limit"
  proof -
    let ?ks = "map reKey (filter (\<lambda>r. reKey r \<in> set ks) (map (attempt ks) rs))"
    have "distinct (map reKey (map (attempt ks) rs))"
      using ok1 by (simp add: epochs_ok_def comp_def)
    then have "distinct ?ks"
      by (rule distinct_map_filter)
    then have "length ?ks = card (set ?ks)"
      by (simp only: distinct_card)
    also have "\<dots> \<le> card (set ks)"
      by (rule card_mono) auto
    also have "\<dots> \<le> limit"
      using card_length [of ks] by (simp add: ks_def lowest_open_def)
    finally show ?thesis
      by (simp add: claimed)
  qed
  show "r \<in> set claimed \<Longrightarrow> balance_reorg_epoch b \<le> reEpoch r \<and> 0 < reAttempts r \<and> reAttempts r \<le> MaxBalanceRereadAttempts"
    using room unfolding claimed by (auto simp: Suc_le_eq)
qed

section \<open>What the balance tables promise\<close>

definition sample_read :: "nat \<Rightarrow> int \<Rightarrow> nat \<Rightarrow> balance" where
  "sample_read n v e = \<lparr>baAddress = ''0xA'', baTokenAddress = ''0xT'', baBlockNumber = n, baBalance = v, baEpoch = e\<rparr>"

lemma empty_world_balances: "wf_balances empty_world" "current_latest empty_world" "epochs_ok (bal empty_world)" "holders_exact empty_world"
  by (simp_all add: wf_balances_def current_latest_def epochs_ok_def holders_exact_def distinct_keys_def empty_world_def)



text \<open>C17. A balance read on a fork never outlives the fork.  In any flush the reads decided before the latest
  revert leave no trace in the two tables or the holder counts; each of their keys has an open request to
  be read again at that revert's epoch or later; and no read decided since is dropped: afterwards its key
  has a current row at least as recent.\<close>

theorem stale_reads_are_fenced:
  fixes bs :: "balance list"
  assumes "epochs_ok (bal w)"
  defines "late \<equiv> is_late (balance_reorg_epoch (bal w))" and "w' \<equiv> insert_balances True bs w"
  shows "tokens w' = tokens (insert_balances True (filter (\<lambda>b. \<not> late b) bs) w) \<and>
    balances (bal w') = balances (bal (insert_balances True (filter (\<lambda>b. \<not> late b) bs) w)) \<and>
    token_balances_current (bal w') = token_balances_current (bal (insert_balances True (filter (\<lambda>b. \<not> late b) bs) w)) \<and>
    (\<forall>b \<in> set bs. if late b
       then (\<exists>r \<in> set (balance_rereads (bal w')). reKey r = key_of b \<and> reOpen r \<and> balance_reorg_epoch (bal w) \<le> reEpoch r)
       else (\<exists>q. row_at (token_balances_current (bal w')) (key_of b) = Some q \<and> baBlockNumber b \<le> brBlock q)) \<and>
    epochs_ok (bal w')"
  using assms(1) insert_balances_fresh insert_balances_reopens insert_balances_stores epochs_ok_insert
  unfolding late_def w'_def by auto

lemma stale_reads_are_fenced_witness:
  "let w = empty_world\<lparr>bal := recordBalanceRereads [] (bal empty_world)\<rparr>;
       w' = insert_balances True [sample_read 6 9 0, sample_read 5 7 1] w
   in epochs_ok (bal w') \<and> token_balances_current (bal w') = token_balances_current (bal (insert_balances True [sample_read 5 7 1] w)) \<and>
      map brBalance (token_balances_current (bal w')) = [7] \<and> map reOpen (balance_rereads (bal w')) = [True]"
proof -
  define w where "w = empty_world\<lparr>bal := recordBalanceRereads [] (bal empty_world)\<rparr>"
  let ?bs = "[sample_read 6 9 0, sample_read 5 7 1]"
  have "epochs_ok (bal w)"
    using epochs_ok_record [OF empty_world_balances(3)] by (simp add: w_def)
  note fence = stale_reads_are_fenced [OF this, of ?bs]
  have "filter (\<lambda>b. \<not> is_late (balance_reorg_epoch (bal w)) b) ?bs = [sample_read 5 7 1]"
    by (simp add: w_def is_late_def sample_read_def recordBalanceRereads_def Let_def empty_world_def)
  moreover have "map brBalance (token_balances_current (bal (insert_balances True ?bs w))) = [7]"
    "map reOpen (balance_rereads (bal (insert_balances True ?bs w))) = [True]"
    unfolding w_def by code_simp+
  ultimately show ?thesis
    using fence by (simp add: w_def [symmetric] Let_def)
qed

text \<open>C18. Requests to read a balance again are handed out within bounds: a claim returns at most \<open>limit\<close> of
  them, each stamped with the latest epoch or a later one, so the read it leads to is written unless
  another revert comes first; and no request is handed out more than \<open>MaxBalanceRereadAttempts\<close> times
  before it is dropped.\<close>

theorem claims_are_bounded:
  assumes "epochs_ok b" and "claim_rereads limit b = ((claimed, dropped), b')"
  shows "length claimed \<le> limit \<and> epochs_ok b' \<and>
    (\<forall>r \<in> set claimed. balance_reorg_epoch b \<le> reEpoch r \<and> 0 < reAttempts r \<and> reAttempts r \<le> MaxBalanceRereadAttempts)"
  using claim_rereads_bounds [OF assms] by blast

lemma claims_are_bounded_witness:
  "\<exists>claimed dropped b'. claim_rereads 1 (recordBalanceRereads [(''0xt'', ''0xa''), (''0xt'', ''0xb'')] (bal empty_world)) =
     ((claimed, dropped), b') \<and> length claimed = 1 \<and> epochs_ok b'"
proof -
  let ?b = "recordBalanceRereads [(''0xt'', ''0xa''), (''0xt'', ''0xb'')] (bal empty_world)"
  obtain claimed dropped b' where claim: "claim_rereads 1 ?b = ((claimed, dropped), b')"
    by (metis prod.exhaust)
  moreover have "length (fst (fst (claim_rereads 1 ?b))) = 1"
    by code_simp
  ultimately show ?thesis
    using claims_are_bounded [OF epochs_ok_record [OF empty_world_balances(3)] claim] by auto
qed

end
