(* ===== verification/Address_Stats.thy ===== *)
theory Address_Stats
  imports Balance_Tables
begin

text \<open>
  The rows of \<open>address_stats\<close>: the writer's upsert (\<open>internal/db/batch.go\<close>), the ledger's definition of
  what a history row contributes to an address (\<open>ledger_address_contributions\<close>, migration 026), and what a
  reorg revert takes off again (\<open>internal/db/address_stats_revert.go\<close>).
\<close>

section \<open>The writer's upsert\<close>

record address_delta =
  adAddress :: string
  adTxCount :: int
  adInternalTxCount :: int
  adTokenTransfer :: int
  adSent :: int
  adIsContract :: bool
  adLastBlock :: u64
  adBlockNumber :: u64

text \<open>\<open>LEAST\<close> and \<open>GREATEST\<close> ignore \<open>NULL\<close>.\<close>

definition least_seen :: "u64 option \<Rightarrow> u64 \<Rightarrow> u64 option" where
  "least_seen old new = Some (case old of None \<Rightarrow> new | Some x \<Rightarrow> min x new)"

definition greatest_seen :: "u64 option \<Rightarrow> u64 \<Rightarrow> u64 option" where
  "greatest_seen old new = Some (case old of None \<Rightarrow> new | Some x \<Rightarrow> max x new)"

definition new_address :: "address_delta \<Rightarrow> address_stat" where
  "new_address d = \<lparr>asAddress = ToLower (adAddress d), asTxCount = adTxCount d, asInternalTxCount = adInternalTxCount d,
     asTokenTransferCount = adTokenTransfer d, asSentCount = adSent d, asFirstSeen = Some (adBlockNumber d),
     asLastSeen = Some (max (adBlockNumber d) (adLastBlock d)), asIsContract = adIsContract d\<rparr>"

definition add_address :: "address_delta \<Rightarrow> address_stat \<Rightarrow> address_stat" where
  "add_address d q = q\<lparr>asTxCount := asTxCount q + adTxCount d, asInternalTxCount := asInternalTxCount q + adInternalTxCount d,
     asTokenTransferCount := asTokenTransferCount q + adTokenTransfer d, asSentCount := asSentCount q + adSent d,
     asFirstSeen := least_seen (asFirstSeen q) (adBlockNumber d),
     asLastSeen := greatest_seen (asLastSeen q) (max (adBlockNumber d) (adLastBlock d)),
     asIsContract := asIsContract q \<or> adIsContract d\<rparr>"

definition upsert_address :: "address_delta \<Rightarrow> address_stat list \<Rightarrow> bool \<times> address_stat list" where
  "upsert_address d rs =
     (let a = ToLower (adAddress d) in
      if \<exists>q \<in> set rs. asAddress q = a
      then (False, map (\<lambda>q. if asAddress q = a then add_address d q else q) rs)
      else (True, rs @ [new_address d]))"

fun upsert_addresses :: "address_delta list \<Rightarrow> address_stat list \<Rightarrow> nat \<times> address_stat list" where
  "upsert_addresses [] rs = (0, rs)"
| "upsert_addresses (d # ds) rs =
     (case upsert_address d rs of (wasNew, rs1) \<Rightarrow>
      case upsert_addresses ds rs1 of (n, rs2) \<Rightarrow> (if wasNew then Suc n else n, rs2))"

text \<open>\<open>data.AddressStats\<close>, a map from lower-case addresses, as a list; written in address order.\<close>

definition write_address_stats :: "bool \<Rightarrow> address_delta list \<Rightarrow> world \<Rightarrow> nat \<times> world" where
  "write_address_stats skip ds w =
     (if ds = [] \<or> skip then (0, w)
      else case upsert_addresses (sort_key adAddress ds) (address_stats (addr w)) of
             (n, rs) \<Rightarrow> (n, w\<lparr>addr := (addr w)\<lparr>address_stats := rs\<rparr>\<rparr>))"

section \<open>What a row contributes\<close>

record contribution =
  ctAddress :: string
  ctTx :: "string option"
  ctBlock :: u64
  ctSent :: int
  ctInternal :: int
  ctTransfers :: int

definition contribute :: "string \<Rightarrow> string option \<Rightarrow> u64 \<Rightarrow> int \<Rightarrow> int \<Rightarrow> int \<Rightarrow> contribution" where
  "contribute a tx b s i t = \<lparr>ctAddress = a, ctTx = tx, ctBlock = b, ctSent = s, ctInternal = i, ctTransfers = t\<rparr>"

definition bumps_nonce :: "nat \<Rightarrow> bool" where
  "bumps_nonce t \<longleftrightarrow> t \<le> 4"

definition tx_contributions :: "transaction \<Rightarrow> contribution list" where
  "tx_contributions t =
     contribute (txFrom t) (Some (txHash t)) (txBlockNumber t) (if bumps_nonce (txType t) then 1 else 0) 0 0 #
     (case txTo t of None \<Rightarrow> [] | Some a \<Rightarrow> [contribute a (Some (txHash t)) (txBlockNumber t) 0 0 0])"

definition transfer_contributions :: "token_transfer \<Rightarrow> contribution list" where
  "transfer_contributions t =
     (if ttFrom t \<noteq> zeroAddress then [contribute (ttFrom t) (Some (ttTxHash t)) (ttBlockNumber t) 0 0 1] else []) @
     (if ttTo t \<noteq> zeroAddress \<and> ttTo t \<noteq> ttFrom t then [contribute (ttTo t) (Some (ttTxHash t)) (ttBlockNumber t) 0 0 1] else [])"

definition internal_contributions :: "internal_transaction \<Rightarrow> contribution list" where
  "internal_contributions t =
     contribute (itFrom t) None (itBlockNumber t) 0 1 0 #
     (case itTo t of None \<Rightarrow> [] | Some a \<Rightarrow> if a \<noteq> itFrom t then [contribute a None (itBlockNumber t) 0 1 0] else [])"

definition ledger_address_contributions :: "u64 \<Rightarrow> u64 \<Rightarrow> world \<Rightarrow> contribution list" where
  "ledger_address_contributions lo hi w =
     concat (map tx_contributions (filter (\<lambda>t. lo \<le> txBlockNumber t \<and> txBlockNumber t < hi) (transactions w))) @
     concat (map transfer_contributions (filter (\<lambda>t. lo \<le> ttBlockNumber t \<and> ttBlockNumber t < hi) (token_transfers w))) @
     concat (map internal_contributions (filter (\<lambda>t. lo \<le> itBlockNumber t \<and> itBlockNumber t < hi) (internal_transactions w))) @
     map (\<lambda>c. contribute (coAddress c) None (coBlockNumber c) 0 0 0)
       (filter (\<lambda>c. lo \<le> coBlockNumber c \<and> coBlockNumber c < hi) (contracts w))"

text \<open>\<open>GROUP BY address\<close>: the distinct transactions, and the sums.\<close>

definition count_txs :: "contribution list \<Rightarrow> string \<Rightarrow> int" where
  "count_txs cs a = int (length (remdups (List.map_filter ctTx (filter (\<lambda>c. ctAddress c = a) cs))))"

definition sum_of :: "(contribution \<Rightarrow> int) \<Rightarrow> contribution list \<Rightarrow> string \<Rightarrow> int" where
  "sum_of f cs a = (\<Sum>c \<leftarrow> filter (\<lambda>c. ctAddress c = a) cs. f c)"

section \<open>A revert\<close>

text \<open>The other blocks that hold an address: the first and the last of them are what the statement reads.\<close>

definition other_blocks :: "u64 \<Rightarrow> string \<Rightarrow> world \<Rightarrow> u64 list" where
  "other_blocks number a w =
     map txBlockNumber (filter (\<lambda>t. (txFrom t = a \<or> txTo t = Some a) \<and> txBlockNumber t \<noteq> number) (transactions w)) @
     map ttBlockNumber (filter (\<lambda>t. (ttFrom t = a \<or> ttTo t = a) \<and> a \<noteq> zeroAddress \<and> ttBlockNumber t \<noteq> number) (token_transfers w)) @
     map itBlockNumber (filter (\<lambda>t. (itFrom t = a \<or> itTo t = Some a) \<and> itBlockNumber t \<noteq> number) (internal_transactions w)) @
     map coBlockNumber (filter (\<lambda>c. coAddress c = a \<and> coBlockNumber c \<noteq> number) (contracts w))"

definition still_seen :: "u64 \<Rightarrow> string \<Rightarrow> address_stat list \<Rightarrow> bool" where
  "still_seen number a rs \<longleftrightarrow>
     (\<exists>q \<in> set rs. asAddress q = a \<and> (case asFirstSeen q of None \<Rightarrow> False | Some f \<Rightarrow> f < number))"

definition move_seen :: "u64 \<Rightarrow> u64 option \<Rightarrow> u64 option \<Rightarrow> u64 option" where
  "move_seen number new old =
     (case old of None \<Rightarrow> None | Some x \<Rightarrow> if number \<le> x \<and> new \<noteq> None then new else Some x)"

definition subtract_address ::
    "u64 \<Rightarrow> world \<Rightarrow> contribution list \<Rightarrow> u64 option \<Rightarrow> u64 option \<Rightarrow> address_stat \<Rightarrow> address_stat" where
  "subtract_address number w cs firstSeen lastSeen q =
     (let a = asAddress q in q\<lparr>
        asTxCount := max (asTxCount q - count_txs cs a) 0,
        asSentCount := max (asSentCount q - sum_of ctSent cs a) 0,
        asInternalTxCount := max (asInternalTxCount q - sum_of ctInternal cs a) 0,
        asTokenTransferCount := max (asTokenTransferCount q - sum_of ctTransfers cs a) 0,
        asFirstSeen := move_seen number firstSeen (asFirstSeen q),
        asLastSeen := move_seen number lastSeen (asLastSeen q),
        asIsContract := (if \<exists>c \<in> set (contracts w). coAddress c = a \<and> coBlockNumber c = number
                         then \<exists>c \<in> set (contracts w). coAddress c = a \<and> coBlockNumber c \<noteq> number
                         else asIsContract q)\<rparr>)"

definition revert_address :: "u64 \<Rightarrow> world \<Rightarrow> contribution list \<Rightarrow> string \<Rightarrow> address_stat list \<Rightarrow> address_stat list" where
  "revert_address number w cs a rs =
     (let others = other_blocks number a w in
      if others = [] \<and> \<not> still_seen number a rs then filter (\<lambda>q. asAddress q \<noteq> a) rs
      else
        let firstSeen = (if others = [] then None else Some (Min (set others)));
            lastSeen = (if others = [] then ledger_last_seen (addr w) a else Some (Max (set others)))
        in map (\<lambda>q. if asAddress q = a then subtract_address number w cs firstSeen lastSeen q else q) rs)"

definition touched_addresses :: "contribution list \<Rightarrow> string list" where
  "touched_addresses cs = sort (remdups (map ctAddress cs))"

definition record_reverted :: "string \<Rightarrow> string list \<Rightarrow> string list" where
  "record_reverted a as = (if a \<in> set as then as else as @ [a])"

text \<open>The rows after the revert; the number of rows removed is what the two lengths differ by.\<close>

definition revert_addresses :: "u64 \<Rightarrow> world \<Rightarrow> address_stat list" where
  "revert_addresses number w =
     (let cs = ledger_address_contributions number (number + 1) w
      in fold (revert_address number w cs) (touched_addresses cs) (address_stats (addr w)))"

definition bump :: "string \<Rightarrow> int \<Rightarrow> world \<Rightarrow> world" where
  "bump name k w = w\<lparr>chain_counters := (chain_counters w)(name \<mapsto>
     (case chain_counters w name of None \<Rightarrow> k | Some c \<Rightarrow> c + k))\<rparr>"

definition revertAddressStats :: "u64 \<Rightarrow> world \<Rightarrow> nat \<times> world" where
  "revertAddressStats number w =
     (let w1 = bump ''address_stats_reverts'' 1 w;
          cs = ledger_address_contributions number (number + 1) w1;
          rs = revert_addresses number w1;
          gone = fold record_reverted (touched_addresses cs) (ledger_reverted_address (addr w1))
      in (length (address_stats (addr w1)) - length rs,
          w1\<lparr>addr := (addr w1)\<lparr>address_stats := rs, ledger_reverted_address := gone\<rparr>\<rparr>))"

section \<open>The number of rows\<close>

lemma upsert_addresses_length: "upsert_addresses ds rs = (n, rs') \<Longrightarrow> length rs' = length rs + n"
proof (induction ds rs arbitrary: n rs' rule: upsert_addresses.induct)
  case (2 d ds rs)
  then show ?case
    by (fastforce simp: upsert_address_def Let_def split: prod.splits if_splits)
qed simp

lemma write_address_stats_length:
  "write_address_stats skip ds w = (n, w') \<Longrightarrow> length (address_stats (addr w')) = length (address_stats (addr w)) + n"
  by (auto simp: write_address_stats_def dest: upsert_addresses_length split: if_splits prod.splits)

lemma revert_address_length: "length (revert_address number w cs a rs) \<le> length rs"
  by (simp add: revert_address_def Let_def)

lemma revert_addresses_length: "length (revert_addresses number w) \<le> length (address_stats (addr w))"
proof -
  have "length (fold (revert_address number w cs) as rs) \<le> length rs" for cs as rs
  proof (induction as arbitrary: rs)
    case (Cons a as)
    then show ?case
      using order_trans [OF Cons revert_address_length] by simp
  qed simp
  then show ?thesis
    by (simp add: revert_addresses_def Let_def)
qed

end
