(* ===== verification/Daily_Watermark.thy ===== *)
theory Daily_Watermark
  imports Missing_Ranges
begin

text \<open>
  The watermark of the daily statistics as block writes and reverts move it: \<open>daily_stats_invalidate\<close>
  (migrations 012 and 037), \<open>keepDailyStatsWatermarkOnStoredBlocks\<close> (\<open>internal/db/queries.go\<close>) and the
  notes of late blocks the process keeps (\<open>lateDays\<close> of \<open>internal/db/daily_fold.go\<close>).

  A day is the number of days since the epoch.  Of a day's accumulator the model keeps its date and its
  first block, which is all these read.
\<close>

section \<open>Days\<close>

definition daily_stats_day :: "u64 \<Rightarrow> nat" where
  "daily_stats_day ts = ts div 86400"

definition daily_stats_epoch :: "nat \<Rightarrow> nat" where
  "daily_stats_epoch d = d * 86400"

definition block_timestamp :: "world \<Rightarrow> u64 \<Rightarrow> u64 option" where
  "block_timestamp w n = map_option bTimestamp (List.find (\<lambda>b. bNumber b = n) (blocks w))"

text \<open>The lowest stored block of a day or a later one, less one.\<close>

definition below_day :: "world \<Rightarrow> nat \<Rightarrow> int" where
  "below_day w d = int (Min (set (map bNumber (filter (\<lambda>b. daily_stats_epoch d \<le> bTimestamp b) (blocks w))))) - 1"

section \<open>A revert\<close>

definition set_daily :: "(daily_tables \<Rightarrow> daily_tables) \<Rightarrow> world \<Rightarrow> world" where
  "set_daily f w = w\<lparr>daily := f (daily w)\<rparr>"

definition daily_stats_invalidate :: "u64 \<Rightarrow> world \<Rightarrow> db_error + world" where
  "daily_stats_invalidate from_block w =
     (case daily_watermark (daily w) of
        None \<Rightarrow> Inr w
      | Some (lastBlock, gen) \<Rightarrow>
          let w1 = set_daily (\<lambda>t. t\<lparr>daily_watermark := Some (lastBlock, gen + 1)\<rparr>) w in
          if lastBlock < int from_block then Inr w1
          else case block_timestamp w from_block of
                 None \<Rightarrow> Inr w1
               | Some ts \<Rightarrow>
                   let d = daily_stats_day ts in
                   if daily_stats_epoch d \<le> pruned_through_ts (daily w) then Inl (DayPruned from_block d)
                   else Inr (set_daily (\<lambda>t. t\<lparr>
                          daily_stats_acc := filter (\<lambda>a. dayDate a < d) (daily_stats_acc t),
                          daily_active_addresses := filter (\<lambda>(e, _). e < d) (daily_active_addresses t),
                          daily_watermark := Some (below_day w d, gen + 1)\<rparr>) w1))"

text \<open>
  The watermark goes down to the last stored block at or below it, but never below the first block of the
  earliest day aggregated.
\<close>

definition stored_at_or_below :: "world \<Rightarrow> int \<Rightarrow> int option" where
  "stored_at_or_below w x =
     (let ns = filter (\<lambda>n. int n \<le> x) (map bNumber (blocks w)) in if ns = [] then None else Some (int (Max (set ns))))"

definition aggregated_floor :: "daily_tables \<Rightarrow> int \<Rightarrow> int option" where
  "aggregated_floor t x =
     (let fs = filter (\<lambda>f. f \<le> x) (List.map_filter dayFirstBlock (daily_stats_acc t))
      in if fs = [] then None else Some (Min (set fs) - 1))"

definition keepDailyStatsWatermarkOnStoredBlocks :: "world \<Rightarrow> world" where
  "keepDailyStatsWatermarkOnStoredBlocks w =
     (case daily_watermark (daily w) of
        None \<Rightarrow> w
      | Some (lastBlock, gen) \<Rightarrow>
          (case (stored_at_or_below w lastBlock, aggregated_floor (daily w) lastBlock) of
             (Some below, Some floor) \<Rightarrow>
               if max below floor < lastBlock
               then set_daily (\<lambda>t. t\<lparr>daily_watermark := Some (max below floor, gen)\<rparr>) w
               else w
           | _ \<Rightarrow> w))"

section \<open>Late blocks\<close>

text \<open>The notes are kept in memory, outside the transaction; \<open>int64\<close> of a block number is the number.\<close>

definition noteBlock :: "u64 \<Rightarrow> u64 \<Rightarrow> daily_tables \<Rightarrow> daily_tables" where
  "noteBlock number timestamp t =
     (case late_watermark t of
        Some wm \<Rightarrow>
          if wm < int number then t else t\<lparr>late_days := List.insert (timestamp div 86400) (late_days t)\<rparr>
      | None \<Rightarrow> t\<lparr>late_days := List.insert (timestamp div 86400) (late_days t)\<rparr>)"

definition take_late :: "daily_tables \<Rightarrow> (nat list \<times> bool) \<times> daily_tables" where
  "take_late t = ((late_days t, \<not> late_searched t), t\<lparr>late_days := []\<rparr>)"

definition giveBack :: "nat list \<Rightarrow> bool \<Rightarrow> daily_tables \<Rightarrow> daily_tables" where
  "giveBack days search t =
     t\<lparr>late_days := fold List.insert days (late_days t), late_searched := (if search then False else late_searched t)\<rparr>"

definition advanced :: "int \<Rightarrow> bool \<Rightarrow> daily_tables \<Rightarrow> daily_tables" where
  "advanced watermark searched t =
     t\<lparr>late_watermark := Some watermark, late_searched := (searched \<or> late_searched t)\<rparr>"

end
