(* ===== verification/Block_Writer.thy ===== *)
theory Block_Writer
  imports Address_Stats Daily_Watermark "HOL-Library.Multiset"
begin

text \<open>
  \<open>internal/db/batch.go\<close> and the block statements of \<open>internal/db/queries.go\<close>: reading blocks, and writing a
  block with its rows and everything the rows move.

  \<^item> \<open>BeginBlockData\<close> and \<open>Finish\<close> are the two halves of one transaction; \<open>InsertBlockDataBatch\<close> runs both
    and, once it has committed, notes the block's day.
  \<^item> The advisory and row locks of the source order concurrent transactions; a transaction of the model
    runs at one moment (the order of the lock keys is in \<open>Lock_Keys\<close>).
  \<^item> The locale \<open>token_column\<close> is what the three counters of a token row have in common: how a new row is
    seeded, a known row merged and a block's delta added.  It is interpreted on the transfer count, the
    supply and the holder count.
\<close>

section \<open>Reading blocks\<close>

definition block_at :: "world \<Rightarrow> u64 \<Rightarrow> block option" where
  "block_at w n = List.find (\<lambda>b. bNumber b = n) (blocks w)"

definition GetBlock :: "u64 \<Rightarrow> (block option) dbm" where
  "GetBlock number = run_query (\<lambda>w. block_at w number)"

definition GetLatestBlockNumber :: "u64 dbm" where
  "GetLatestBlockNumber = run_query (\<lambda>w. if blocks w = [] then 0 else Max (set (block_numbers w)))"

definition HighestBlockAtOrBelow :: "u64 \<Rightarrow> ((u64 \<times> string) option) dbm" where
  "HighestBlockAtOrBelow number = run_query (\<lambda>w.
     case rev (sort_key bNumber (filter (\<lambda>b. bNumber b \<le> number) (blocks w))) of
       [] \<Rightarrow> None
     | b # _ \<Rightarrow> Some (bNumber b, bHash b))"

section \<open>Writing a block row\<close>

text \<open>\<open>INSERT INTO blocks ... ON CONFLICT DO NOTHING\<close>: the number is the key, the hash is unique in a partition.\<close>

definition block_taken :: "block \<Rightarrow> world \<Rightarrow> bool" where
  "block_taken b w \<longleftrightarrow> (\<exists>c \<in> set (blocks w).
     bNumber c = bNumber b \<or> (partition_of w (bNumber c) = partition_of w (bNumber b) \<and> bHash c = bHash b))"

definition storedBlockDiffers :: "block \<Rightarrow> world \<Rightarrow> db_error option" where
  "storedBlockDiffers b w =
     (case block_at w (bNumber b) of
        None \<Rightarrow> None
      | Some c \<Rightarrow>
          if \<not> EqualFold (bHash c) (bHash b) then Some (StoredBlockDiffers (bNumber b) (bHash c) (bHash b))
          else None)"

definition insert_block :: "block \<Rightarrow> world \<Rightarrow> db_error + world" where
  "insert_block b w =
     (if block_taken b w
      then (case storedBlockDiffers b w of Some e \<Rightarrow> Inl e | None \<Rightarrow> Inr w)
      else Inr (bump ''blocks_total'' 1 (w\<lparr>blocks := blocks w @ [b]\<rparr>)))"

text \<open>
  A committed write that added the block notes its day, in memory: a commit whose acknowledgement is lost
  notes nothing.
\<close>

definition note_day :: "bool \<Rightarrow> block option \<Rightarrow> (world, db_error + unit) state" where
  "note_day written ob = State (\<lambda>w. (Inr (),
     case ob of
       Some b \<Rightarrow> if written then set_daily (noteBlock (bNumber b) (bTimestamp b)) w else w
     | None \<Rightarrow> w))"

definition InsertBlock :: "block \<Rightarrow> unit dbm" where
  "InsertBlock b = do {
     r \<leftarrow> run_tx (\<lambda>w. case insert_block b w of Inl e \<Rightarrow> Inl e | Inr w' \<Rightarrow> Inr (\<not> block_taken b w, w'));
     case r of Inl e \<Rightarrow> State_Monad.return (Inl e) | Inr written \<Rightarrow> note_day written (Some b)
   }"

section \<open>Writing a block with its rows\<close>

definition numeric78Max :: int where
  "numeric78Max = 10 ^ 78 - 1"

definition clampSupply :: "int \<Rightarrow> int" where
  "clampSupply x = min (max x (- numeric78Max)) numeric78Max"

record block_data =
  bdBlock :: "block option"
  bdTransactions :: "transaction list"
  bdLogs :: "log_row list"
  bdTransfers :: "token_transfer list"
  bdContracts :: "contract list"
  bdTokens :: "token list"
  bdNFTTokens :: "nft_token list"
  bdInternalTransactions :: "internal_transaction list"
  bdAddressStats :: "address_delta list"
  bdSkipAddressStats :: bool

text \<open>The categories of a transaction (\<open>internal/db/categories.go\<close>).\<close>

definition isEmptyCalldata :: "string \<Rightarrow> bool" where
  "isEmptyCalldata input \<longleftrightarrow> input = '''' \<or> input = ''0x'' \<or> input = ''0X''"

definition hasMethodSelector :: "string \<Rightarrow> bool" where
  "hasMethodSelector input \<longleftrightarrow> 10 \<le> length input"

definition computeTxCategories :: "transaction \<Rightarrow> bool \<Rightarrow> nat" where
  "computeTxCategories t hasTokenTransfer =
     (if txValue t \<noteq> '''' \<and> txValue t \<noteq> ''0'' \<and> isEmptyCalldata (txInputData t) then 1 else 0) +
     (if txTo t = None \<and> txStatus t = 1 then 2 else 0) +
     (if txTo t \<noteq> None \<and> hasMethodSelector (txInputData t) then 4 else 0) +
     (if hasTokenTransfer then 8 else 0)"

definition buildTokenTransferTxSet :: "token_transfer list \<Rightarrow> string set" where
  "buildTokenTransferTxSet transfers = ttTxHash ` set transfers"

text \<open>The inserts, each \<open>ON CONFLICT DO NOTHING\<close>; they report the rows they wrote or could not write.\<close>

fun insert_transactions ::
    "u64 option \<Rightarrow> token_transfer list \<Rightarrow> transaction list \<Rightarrow> world \<Rightarrow> nat \<times> world" where
  "insert_transactions ts transfers [] w = (0, w)"
| "insert_transactions ts transfers (t # txs) w =
     (let row = t\<lparr>txBlockTimestamp := ts, txFrom := ToLower (txFrom t), txTo := map_option ToLower (txTo t),
                 txCategories := computeTxCategories t (txHash t \<in> buildTokenTransferTxSet transfers)\<rparr>
      in if \<exists>q \<in> set (transactions w).
              txHash q = txHash t \<and> partition_of w (txBlockNumber q) = partition_of w (txBlockNumber t)
         then insert_transactions ts transfers txs w
         else case insert_transactions ts transfers txs (w\<lparr>transactions := transactions w @ [row]\<rparr>) of
                (n, w') \<Rightarrow> (Suc n, w'))"

fun insert_logs :: "log_row list \<Rightarrow> world \<Rightarrow> log_row list \<times> world" where
  "insert_logs [] w = ([], w)"
| "insert_logs (l # ls) w =
     (if \<exists>q \<in> set (logs w). lgBlockNumber q = lgBlockNumber l \<and> lgLogIndex q = lgLogIndex l
      then (case insert_logs ls w of (cs, w') \<Rightarrow> (l # cs, w'))
      else insert_logs ls (w\<lparr>logs := logs w @ [l\<lparr>lgAddress := ToLower (lgAddress l)\<rparr>]\<rparr>))"

definition transfer_row :: "token_transfer \<Rightarrow> token_transfer" where
  "transfer_row t = t\<lparr>ttTokenAddress := ToLower (ttTokenAddress t), ttFrom := ToLower (ttFrom t), ttTo := ToLower (ttTo t)\<rparr>"

fun insert_transfers :: "token_transfer list \<Rightarrow> world \<Rightarrow> token_transfer list \<times> token_transfer list \<times> world" where
  "insert_transfers [] w = ([], [], w)"
| "insert_transfers (t # ts) w =
     (if \<exists>q \<in> set (token_transfers w). ttBlockNumber q = ttBlockNumber t \<and> ttLogIndex q = ttLogIndex t
      then (case insert_transfers ts w of (cs, ws, w') \<Rightarrow> (t # cs, ws, w'))
      else (case insert_transfers ts (w\<lparr>token_transfers := token_transfers w @ [transfer_row t]\<rparr>) of
              (cs, ws, w') \<Rightarrow> (cs, t # ws, w')))"

fun insert_internal :: "internal_transaction list \<Rightarrow> world \<Rightarrow> world" where
  "insert_internal [] w = w"
| "insert_internal (t # ts) w =
     (if \<exists>q \<in> set (internal_transactions w). itTxHash q = itTxHash t \<and> itTraceAddress q = itTraceAddress t \<and>
           partition_of w (itBlockNumber q) = partition_of w (itBlockNumber t)
      then insert_internal ts w
      else insert_internal ts (w\<lparr>internal_transactions := internal_transactions w @
             [t\<lparr>itFrom := ToLower (itFrom t), itTo := map_option ToLower (itTo t)\<rparr>]\<rparr>))"

text \<open>
  \<open>checkLogConflicts\<close>, on the keys an insert could not write: the row stored there must come from the
  same transaction.
\<close>

fun checkLogConflicts :: "(u64 \<Rightarrow> nat \<Rightarrow> string option) \<Rightarrow> (u64 \<times> nat \<times> string) list \<Rightarrow> db_error option" where
  "checkLogConflicts stored [] = None"
| "checkLogConflicts stored ((block, index, tx) # cs) =
     (case stored block index of
        Some tx' \<Rightarrow> if \<not> EqualFold tx' tx then Some (LogIndexPerTransaction block index) else checkLogConflicts stored cs
      | None \<Rightarrow> checkLogConflicts stored cs)"

definition log_at :: "world \<Rightarrow> u64 \<Rightarrow> nat \<Rightarrow> string option" where
  "log_at w block index =
     map_option lgTxHash (List.find (\<lambda>l. lgBlockNumber l = block \<and> lgLogIndex l = index) (logs w))"

definition transfer_at :: "world \<Rightarrow> u64 \<Rightarrow> nat \<Rightarrow> string option" where
  "transfer_at w block index =
     map_option ttTxHash (List.find (\<lambda>t. ttBlockNumber t = block \<and> ttLogIndex t = index) (token_transfers w))"

text \<open>
  \<open>tokenDeltas\<close>: per token, the transfers that landed and the supply they add.  Mints add and burns
  subtract; a row from and to the zero address does both.
\<close>

type_synonym deltas = "(string \<times> int \<times> int) list"

definition SetString10 :: "string \<Rightarrow> int option" where
  "SetString10 s =
     (let neg = (s \<noteq> [] \<and> hd s = CHR ''-'');
          digits = (if s \<noteq> [] \<and> (hd s = CHR ''-'' \<or> hd s = CHR ''+'') then tl s else s)
      in if digits = [] then None
         else case parse_digits 10 0 digits of
                None \<Rightarrow> None
              | Some n \<Rightarrow> Some (if neg then - int n else int n))"

fun add_delta :: "string \<Rightarrow> int \<Rightarrow> deltas \<Rightarrow> deltas" where
  "add_delta token s [] = [(token, 1, s)]"
| "add_delta token s ((t, n, m) # ds) =
     (if t = token then (t, n + 1, m + s) # ds else (t, n, m) # add_delta token s ds)"

definition supply_change :: "token_transfer \<Rightarrow> int \<Rightarrow> int" where
  "supply_change t v =
     (if ToLower (ttFrom t) = zeroAddress then v else 0) - (if ToLower (ttTo t) = zeroAddress then v else 0)"

fun count_transfers :: "token_transfer list \<Rightarrow> deltas \<Rightarrow> db_error + deltas" where
  "count_transfers [] ds = Inr ds"
| "count_transfers (t # ts) ds =
     (if ttTokenType t \<noteq> ''ERC20'' then count_transfers ts (add_delta (ToLower (ttTokenAddress t)) 0 ds)
      else case SetString10 (ttValue t) of
             None \<Rightarrow> Inl (InvalidValue (ttValue t))
           | Some v \<Rightarrow> count_transfers ts (add_delta (ToLower (ttTokenAddress t)) (supply_change t v) ds))"

text \<open>
  \<open>BeginBlockData\<close>: the rows that belong to this block alone.  \<open>Stored\<close> is the write of a block another
  writer has committed, which is dropped; \<open>Open\<close> carries what \<open>Finish\<close> needs.
\<close>

datatype block_write = Stored | Open block_data nat nat nat deltas

definition begin_transfers :: "token_transfer list \<Rightarrow> world \<Rightarrow> db_error + nat \<times> deltas \<times> world" where
  "begin_transfers transfers w =
     (case insert_transfers transfers w of (conflicts, written, w') \<Rightarrow>
      case count_transfers written [] of
        Inl e \<Rightarrow> Inl e
      | Inr deltas \<Rightarrow>
          (case checkLogConflicts (transfer_at w') (map (\<lambda>t. (ttBlockNumber t, ttLogIndex t, ttTxHash t)) conflicts) of
             Some e \<Rightarrow> Inl e
           | None \<Rightarrow> Inr (length written, deltas, w')))"

definition begin_logs :: "log_row list \<Rightarrow> world \<Rightarrow> db_error + world" where
  "begin_logs ls w =
     (case insert_logs ls w of (conflicts, w') \<Rightarrow>
      case checkLogConflicts (log_at w') (map (\<lambda>l. (lgBlockNumber l, lgLogIndex l, lgTxHash l)) conflicts) of
        Some e \<Rightarrow> Inl e
      | None \<Rightarrow> Inr w')"

definition begin_rows :: "block_data \<Rightarrow> nat \<Rightarrow> world \<Rightarrow> db_error + block_write \<times> world" where
  "begin_rows data deltaBlocks w =
     (case insert_transactions (map_option bTimestamp (bdBlock data)) (bdTransfers data) (bdTransactions data) w of
        (deltaTxs, w1) \<Rightarrow>
          (case begin_logs (bdLogs data) w1 of
             Inl e \<Rightarrow> Inl e
           | Inr w2 \<Rightarrow>
               (case begin_transfers (bdTransfers data) w2 of
                  Inl e \<Rightarrow> Inl e
                | Inr (deltaTransfers, deltas, w3) \<Rightarrow>
                    Inr (Open data deltaBlocks deltaTxs deltaTransfers deltas,
                         insert_internal (bdInternalTransactions data) w3))))"

definition BeginBlockData :: "block_data \<Rightarrow> world \<Rightarrow> db_error + block_write \<times> world" where
  "BeginBlockData data w =
     (case bdBlock data of
        None \<Rightarrow> begin_rows data 0 w
      | Some b \<Rightarrow>
          if block_taken b w
          then (case storedBlockDiffers b w of Some e \<Rightarrow> Inl e | None \<Rightarrow> Inr (Stored, w))
          else begin_rows data 1 (w\<lparr>blocks := blocks w @ [b]\<rparr>))"

section \<open>The rows blocks share\<close>

text \<open>Contracts: the first of each address, in address order; an address already there keeps its row.\<close>

definition first_of_address :: "contract list \<Rightarrow> string \<Rightarrow> contract option" where
  "first_of_address cs a = List.find (\<lambda>c. ToLower (coAddress c) = a) cs"

definition insert_contract :: "contract list \<Rightarrow> string \<Rightarrow> world \<Rightarrow> world" where
  "insert_contract cs a w =
     (case first_of_address cs a of
        None \<Rightarrow> w
      | Some c \<Rightarrow>
          if \<exists>q \<in> set (contracts w). coAddress q = a then w
          else w\<lparr>contracts := contracts w @ [c\<lparr>coAddress := a\<rparr>]\<rparr>)"

definition write_contracts :: "contract list \<Rightarrow> world \<Rightarrow> world" where
  "write_contracts cs w = fold (insert_contract cs) (sort (remdups (map (ToLower \<circ> coAddress) cs))) w"

text \<open>Tokens: the upsert, which returns whether the row is new, and the seed of the new rows.\<close>

definition merge_token :: "token \<Rightarrow> token \<Rightarrow> token" where
  "merge_token new old = old\<lparr>
     tkSymbol := tkSymbol new,
     tkName := (case tkName new of None \<Rightarrow> tkName old | Some n \<Rightarrow> Some n),
     tkDecimals := tkDecimals new,
     tkTokenType := (if tkTokenType new \<noteq> ''ERC20'' then tkTokenType new else tkTokenType old),
     tkTotalSupply := (case tkTotalSupply new of None \<Rightarrow> tkTotalSupply old | Some s \<Rightarrow> Some s),
     tkCreationTx := (if tkBlockNumber new < tkBlockNumber old then tkCreationTx new else tkCreationTx old),
     tkBlockNumber := min (tkBlockNumber old) (tkBlockNumber new)\<rparr>"

definition upsert_token :: "token \<Rightarrow> world \<Rightarrow> bool \<times> world" where
  "upsert_token t w =
     (let a = ToLower (tkAddress t) in
      if \<exists>q \<in> set (tokens w). tkAddress q = a
      then (False, w\<lparr>tokens := map (\<lambda>q. if tkAddress q = a then merge_token t q else q) (tokens w)\<rparr>)
      else (True, w\<lparr>tokens := tokens w @ [t\<lparr>tkAddress := a, tkHolderCount := 0, tkTransferCount := 0\<rparr>]\<rparr>))"

fun upsert_tokens :: "token list \<Rightarrow> world \<Rightarrow> string list \<times> world" where
  "upsert_tokens [] w = ([], w)"
| "upsert_tokens (t # ts) w =
     (case upsert_token t w of (wasNew, w1) \<Rightarrow>
      case upsert_tokens ts w1 of (seeds, w2) \<Rightarrow>
        (if wasNew then ToLower (tkAddress t) # seeds else seeds, w2))"

text \<open>\<open>token_counted\<close> (migration 028): the stored transfers from the kept history on, and the pruned ones.\<close>

definition transfer_supply :: "token_transfer \<Rightarrow> int" where
  "transfer_supply t =
     (if ttTokenType t = ''ERC20''
      then (case SetString10 (ttValue t) of
              None \<Rightarrow> 0
            | Some v \<Rightarrow> (if ttFrom t = zeroAddress then v else 0) - (if ttTo t = zeroAddress then v else 0))
      else 0)"

definition kept_transfers :: "world \<Rightarrow> string \<Rightarrow> token_transfer list" where
  "kept_transfers w token =
     filter (\<lambda>t. ttTokenAddress t = token \<and> history_from w \<le> ttBlockNumber t) (token_transfers w)"

definition token_counted :: "world \<Rightarrow> string \<Rightarrow> int \<times> int" where
  "token_counted w token =
     (int (fst (pruned_counts w token)) + int (length (kept_transfers w token)),
      snd (pruned_counts w token) + (\<Sum>t \<leftarrow> kept_transfers w token. transfer_supply t))"

definition seeded :: "int \<times> int \<Rightarrow> int \<Rightarrow> token \<Rightarrow> token" where
  "seeded counted h q = q\<lparr>tkTransferCount := fst counted,
     tkTotalSupply := (if tkTokenType q = ''ERC20'' then Some (clampSupply (snd counted)) else tkTotalSupply q),
     tkHolderCount := h\<rparr>"

definition seed_token :: "string \<Rightarrow> world \<Rightarrow> world" where
  "seed_token a w = set_token a (seeded (token_counted w a) (countTokenHolders w a)) w"

text \<open>NFT owners: the latest block's owner stays.\<close>

definition upsert_nft :: "nft_token \<Rightarrow> world \<Rightarrow> world" where
  "upsert_nft n w =
     (if \<exists>q \<in> set (nft_tokens w). nfTokenAddress q = nfTokenAddress n \<and> nfTokenID q = nfTokenID n
      then w\<lparr>nft_tokens := map (\<lambda>q.
             if nfTokenAddress q = nfTokenAddress n \<and> nfTokenID q = nfTokenID n
             then q\<lparr>nfOwner := (if nfBlockNumber q \<le> nfBlockNumber n then nfOwner n else nfOwner q),
                    nfTokenURI := (case nfTokenURI q of None \<Rightarrow> nfTokenURI n | Some u \<Rightarrow> Some u),
                    nfBlockNumber := max (nfBlockNumber q) (nfBlockNumber n)\<rparr>
             else q) (nft_tokens w)\<rparr>
      else w\<lparr>nft_tokens := nft_tokens w @ [n]\<rparr>)"

definition write_nfts :: "nft_token list \<Rightarrow> world \<Rightarrow> world" where
  "write_nfts ns w = fold upsert_nft (sort_key nfTokenAddress (sort_key nfTokenID ns)) w"

definition moved :: "int \<times> int \<Rightarrow> token \<Rightarrow> token" where
  "moved d q = q\<lparr>tkTransferCount := tkTransferCount q + fst d,
     tkTotalSupply := (if tkTokenType q = ''ERC20''
       then Some (clampSupply ((case tkTotalSupply q of None \<Rightarrow> 0 | Some x \<Rightarrow> x) + snd d)) else tkTotalSupply q)\<rparr>"

definition apply_delta :: "string \<times> int \<times> int \<Rightarrow> world \<Rightarrow> world" where
  "apply_delta d w = set_token (fst d) (moved (snd d)) w"

definition bump_all :: "nat \<Rightarrow> nat \<Rightarrow> nat \<Rightarrow> nat \<Rightarrow> nat \<Rightarrow> world \<Rightarrow> world" where
  "bump_all bs txs toks addrs trs w =
     (if bs \<noteq> 0 \<or> txs \<noteq> 0 \<or> toks \<noteq> 0 \<or> addrs \<noteq> 0 \<or> trs \<noteq> 0
      then bump ''transfers_total'' (int trs) (bump ''addresses_total'' (int addrs) (bump ''tokens_total'' (int toks)
             (bump ''transactions_total'' (int txs) (bump ''blocks_total'' (int bs) w))))
      else w)"

definition writeSharedRows :: "block_data \<Rightarrow> nat \<Rightarrow> nat \<Rightarrow> nat \<Rightarrow> deltas \<Rightarrow> world \<Rightarrow> world" where
  "writeSharedRows data deltaBlocks deltaTxs deltaTransfers tokenDeltas w =
     (let w1 = write_contracts (bdContracts data) w in
      case upsert_tokens (sort_key (ToLower \<circ> tkAddress) (bdTokens data)) w1 of (seeds, w2) \<Rightarrow>
        let w3 = fold seed_token seeds w2;
            w4 = write_nfts (bdNFTTokens data) w3;
            ds = filter (\<lambda>(a, _). a \<notin> set seeds) tokenDeltas;
            w5 = fold apply_delta (sort_key fst ds) w4
        in case write_address_stats (bdSkipAddressStats data) (bdAddressStats data) w5 of (deltaAddresses, w6) \<Rightarrow>
             bump_all deltaBlocks deltaTxs (length seeds) deltaAddresses deltaTransfers w6)"

definition Finish :: "block_write \<Rightarrow> world \<Rightarrow> world" where
  "Finish bw w =
     (case bw of
        Stored \<Rightarrow> w
      | Open data deltaBlocks deltaTxs deltaTransfers tokenDeltas \<Rightarrow>
          writeSharedRows data deltaBlocks deltaTxs deltaTransfers tokenDeltas w)"

definition write_block :: "block_data \<Rightarrow> world \<Rightarrow> db_error + world" where
  "write_block data w =
     (case BeginBlockData data w of Inl e \<Rightarrow> Inl e | Inr (bw, w') \<Rightarrow> Inr (Finish bw w'))"

definition changed :: "block_write \<Rightarrow> bool" where
  "changed bw = (case bw of Stored \<Rightarrow> False | Open data bs txs trs ds \<Rightarrow> 0 < bs \<or> 0 < txs \<or> 0 < trs)"

definition InsertBlockDataBatch :: "block_data \<Rightarrow> unit dbm" where
  "InsertBlockDataBatch data = do {
     r \<leftarrow> run_tx (\<lambda>w. case BeginBlockData data w of Inl e \<Rightarrow> Inl e | Inr (bw, w') \<Rightarrow> Inr (changed bw, Finish bw w'));
     case r of Inl e \<Rightarrow> State_Monad.return (Inl e) | Inr written \<Rightarrow> note_day written (bdBlock data)
   }"

section \<open>The counters are exact\<close>

text \<open>What each part of a write changes.\<close>

lemma insert_transactions_frame:
  "insert_transactions ts trs txs w = (n, w') \<Longrightarrow>
   \<exists>rows. w' = w\<lparr>transactions := transactions w @ rows\<rparr> \<and> length rows = n"
proof (induction ts trs txs w arbitrary: n w' rule: insert_transactions.induct)
  case (1 ts trs w)
  then show ?case
    by (auto intro: exI [of _ "[]"])
next
  case (2 ts trs t txs w)
  then show ?case
    by (fastforce simp: Let_def split: if_splits prod.splits)
qed

lemma insert_logs_frame: "insert_logs ls w = (cs, w') \<Longrightarrow> \<exists>rows. w' = w\<lparr>logs := logs w @ rows\<rparr>"
proof (induction ls w arbitrary: cs w' rule: insert_logs.induct)
  case (1 w)
  then show ?case
    by (auto intro: exI [of _ "[]"])
next
  case (2 l ls w)
  then show ?case
    by (fastforce split: if_splits prod.splits)
qed

lemma insert_transfers_frame:
  "insert_transfers ts w = (cs, ws, w') \<Longrightarrow>
   w' = w\<lparr>token_transfers := token_transfers w @ map transfer_row ws\<rparr> \<and> set ws \<subseteq> set ts"
proof (induction ts w arbitrary: cs ws w' rule: insert_transfers.induct)
  case (2 t ts w)
  then show ?case
    by (fastforce split: if_splits prod.splits)
qed simp

lemma insert_internal_frame: "\<exists>rows. insert_internal ts w = w\<lparr>internal_transactions := internal_transactions w @ rows\<rparr>"
proof (induction ts w rule: insert_internal.induct)
  case (1 w)
  then show ?case
    by (auto intro: exI [of _ "[]"])
next
  case (2 t ts w)
  then show ?case
    by (cases "\<exists>q \<in> set (internal_transactions w). itTxHash q = itTxHash t \<and> itTraceAddress q = itTraceAddress t \<and>
           partition_of w (itBlockNumber q) = partition_of w (itBlockNumber t)") auto
qed

text \<open>The deltas: per token the transfers counted and their supply.\<close>

definition delta_of :: "deltas \<Rightarrow> string \<Rightarrow> int \<times> int" where
  "delta_of ds a = ((\<Sum>(t, n, s) \<leftarrow> ds. if t = a then n else 0), (\<Sum>(t, n, s) \<leftarrow> ds. if t = a then s else 0))"

lemma delta_of_simps [simp]:
  "delta_of [] a = (0, 0)"
  "delta_of ((t, n, s) # ds) a = (if t = a then (n + fst (delta_of ds a), s + snd (delta_of ds a)) else delta_of ds a)"
  by (simp_all add: delta_of_def)

lemma delta_of_add:
  "delta_of (add_delta b s ds) a =
     (if a = b then (fst (delta_of ds a) + 1, snd (delta_of ds a) + s) else delta_of ds a)"
  by (induction b s ds rule: add_delta.induct) auto

lemma transfer_supply_row:
  "transfer_supply (transfer_row t) =
     (if ttTokenType t = ''ERC20'' then (case SetString10 (ttValue t) of None \<Rightarrow> 0 | Some v \<Rightarrow> supply_change t v) else 0)"
  by (simp add: transfer_supply_def transfer_row_def supply_change_def split: option.split)

lemma count_transfers_deltas:
  "count_transfers ts ds = Inr ds' \<Longrightarrow> delta_of ds' a =
     (fst (delta_of ds a) + int (length (filter (\<lambda>t. ttTokenAddress t = a) (map transfer_row ts))),
      snd (delta_of ds a) + (\<Sum>t \<leftarrow> filter (\<lambda>t. ttTokenAddress t = a) (map transfer_row ts). transfer_supply t))"
proof (induction ts ds rule: count_transfers.induct)
  case (2 t ts ds)
  have addr: "ttTokenAddress (transfer_row t) = ToLower (ttTokenAddress t)"
    by (simp add: transfer_row_def)
  show ?case
    using 2 by (auto simp: delta_of_add addr transfer_supply_row split: if_splits option.splits)
qed simp

lemma distinct_add_delta: "distinct (map fst ds) \<Longrightarrow> distinct (map fst (add_delta a s ds))"
proof (induction a s ds rule: add_delta.induct)
  case (2 a s t n m ds)
  have "fst ` set (add_delta a s ds) = insert a (fst ` set ds)"
    by (induction a s ds rule: add_delta.induct) auto
  then show ?case
    using 2 by auto
qed simp

lemma distinct_count_transfers: "count_transfers ts ds = Inr ds' \<Longrightarrow> distinct (map fst ds) \<Longrightarrow> distinct (map fst ds')"
  by (induction ts ds rule: count_transfers.induct) (auto simp: distinct_add_delta split: if_splits option.splits)

subsection \<open>Frames\<close>

text \<open>
  \<open>same_rows\<close>: the rows the counters count stay, and the rest of the world that is not a table of the
  writer; \<open>shared_only\<close>: contracts, NFTs and addresses may change and nothing else.
\<close>

definition same_rows :: "world \<Rightarrow> world \<Rightarrow> bool" where
  "same_rows w w' \<longleftrightarrow>
     blocks w' = blocks w \<and> transactions w' = transactions w \<and> token_transfers w' = token_transfers w \<and>
     bal w' = bal w \<and> daily w' = daily w \<and> pruned_through w' = pruned_through w \<and> pruned_counts w' = pruned_counts w \<and>
     missing_block_ranges w' = missing_block_ranges w \<and> missing_seq w' = missing_seq w \<and>
     node w' = node w \<and> faults w' = faults w \<and> calls w' = calls w \<and> ctx_done w' = ctx_done w"

definition shared_only :: "world \<Rightarrow> world \<Rightarrow> bool" where
  "shared_only w w' \<longleftrightarrow> same_rows w w' \<and> tokens w' = tokens w \<and> chain_counters w' = chain_counters w"

lemma same_rows_refl [simp]: "same_rows w w"
  by (simp add: same_rows_def)

lemma same_rows_trans [trans]: "same_rows w w' \<Longrightarrow> same_rows w' w'' \<Longrightarrow> same_rows w w''"
  by (simp add: same_rows_def)

lemma same_rows_tokens [simp]: "same_rows w (w\<lparr>tokens := ts\<rparr>)"
  by (simp add: same_rows_def)

lemma token_counted_cong:
  "token_transfers w' = token_transfers w \<Longrightarrow> pruned_through w' = pruned_through w \<Longrightarrow> pruned_counts w' = pruned_counts w \<Longrightarrow>
   token_counted w' = token_counted w"
  by (auto simp: fun_eq_iff token_counted_def kept_transfers_def history_from_def)

lemma same_rows_counted: "same_rows w w' \<Longrightarrow> token_counted w' = token_counted w"
  by (rule token_counted_cong) (simp_all add: same_rows_def)

lemma same_rows_holders: "same_rows w w' \<Longrightarrow> countTokenHolders w' = countTokenHolders w"
  by (simp add: fun_eq_iff same_rows_def countTokenHolders_def)

lemma shared_only_refl [simp]: "shared_only w w"
  by (simp add: shared_only_def)

lemma shared_only_trans: "shared_only w w' \<Longrightarrow> shared_only w' w'' \<Longrightarrow> shared_only w w''"
  by (auto simp: shared_only_def dest: same_rows_trans)

lemma shared_only_fold: "(\<And>a w. shared_only w (f a w)) \<Longrightarrow> shared_only w (fold f as w)"
proof (induction as arbitrary: w)
  case (Cons a as)
  then show ?case
    using shared_only_trans [of w "f a w"] by simp
qed simp

lemma shared_only_contracts: "shared_only w (write_contracts cs w)"
  unfolding write_contracts_def
proof (rule shared_only_fold)
  show "shared_only w (insert_contract cs a w)" for a w
    by (auto simp: insert_contract_def shared_only_def same_rows_def split: option.split)
qed

lemma shared_only_nfts: "shared_only w (write_nfts ns w)"
  unfolding write_nfts_def
proof (rule shared_only_fold)
  show "shared_only w (upsert_nft n w)" for n w
    by (auto simp: upsert_nft_def shared_only_def same_rows_def)
qed

lemma shared_only_addresses: "shared_only w (snd (write_address_stats skip ds w))"
  by (auto simp: write_address_stats_def shared_only_def same_rows_def split: prod.split)

text \<open>What changes token rows only.\<close>

definition token_rows :: "(world \<Rightarrow> world) \<Rightarrow> bool" where
  "token_rows f \<longleftrightarrow> (\<forall>w. \<exists>rows. f w = w\<lparr>tokens := rows\<rparr>)"

lemma token_rowsD: "token_rows f \<Longrightarrow> \<exists>rows. f w = w\<lparr>tokens := rows\<rparr>"
  by (simp add: token_rows_def)

lemma token_rows_same: "token_rows f \<Longrightarrow> same_rows w (f w)" "token_rows f \<Longrightarrow> chain_counters (f w) = chain_counters w"
  using token_rowsD [of f w] by auto

lemma token_rows_set_token: "token_rows (set_token a g)"
  by (auto simp: token_rows_def set_token_def)

lemma token_rows_fold: "(\<And>a. token_rows (f a)) \<Longrightarrow> token_rows (fold f as)"
proof (induction as)
  case Nil
  have "\<exists>rows. w = w\<lparr>tokens := rows\<rparr>" for w :: world
    by (rule exI [of _ "tokens w"]) simp
  then show ?case
    by (simp add: token_rows_def)
next
  case (Cons a as)
  show ?case
    unfolding token_rows_def
  proof
    fix w
    obtain rows where "f a w = w\<lparr>tokens := rows\<rparr>"
      using token_rowsD [OF Cons(2)] by blast
    moreover obtain rows' where "fold f as (w\<lparr>tokens := rows\<rparr>) = w\<lparr>tokens := rows, tokens := rows'\<rparr>"
      using token_rowsD [OF Cons(1) [OF Cons(2)]] by blast
    ultimately show "\<exists>rows. fold f (a # as) w = w\<lparr>tokens := rows\<rparr>"
      by auto
  qed
qed

lemma token_rows_seed: "token_rows (seed_token a)"
  by (auto simp: token_rows_def seed_token_def set_token_def)

lemma token_rows_apply: "token_rows (apply_delta d)"
  by (auto simp: token_rows_def apply_delta_def set_token_def)

lemma upsert_tokens_frame: "upsert_tokens ts w = (seeds, w') \<Longrightarrow> \<exists>rows. w' = w\<lparr>tokens := rows\<rparr>"
proof (induction ts w arbitrary: seeds w' rule: upsert_tokens.induct)
  case (1 w)
  then show ?case
    by (auto intro: exI [of _ "tokens w"])
next
  case (2 t ts w)
  then show ?case
    by (fastforce simp: upsert_token_def Let_def split: prod.splits if_splits)
qed

lemma bump_all_frame: "\<exists>kc. bump_all a b c d e w = w\<lparr>chain_counters := kc\<rparr>"
proof -
  have "\<exists>kc. w = w\<lparr>chain_counters := kc\<rparr>"
    by (rule exI [of _ "chain_counters w"]) simp
  then show ?thesis
    by (auto simp: bump_all_def bump_def)
qed

lemma upsert_tokens_length: "upsert_tokens ts w = (seeds, w') \<Longrightarrow> length (tokens w') = length (tokens w) + length seeds"
proof (induction ts w arbitrary: seeds w' rule: upsert_tokens.induct)
  case (2 t ts w)
  then show ?case
    by (fastforce simp: upsert_token_def Let_def split: prod.splits if_splits)
qed simp

text \<open>What keeps the address rows.\<close>

lemma fold_addr: "(\<And>a w. addr (f a w) = addr w) \<Longrightarrow> addr (fold f as w) = addr w"
  by (induction as arbitrary: w) simp_all

lemma addr_write_contracts: "addr (write_contracts cs w) = addr w"
  unfolding write_contracts_def by (rule fold_addr) (simp add: insert_contract_def split: option.split)

lemma addr_write_nfts: "addr (write_nfts ns w) = addr w"
  unfolding write_nfts_def by (rule fold_addr) (simp add: upsert_nft_def)

lemma token_rows_addr: "token_rows f \<Longrightarrow> addr (f w) = addr w"
  using token_rowsD [of f w] by auto

text \<open>The stages of \<open>writeSharedRows\<close>.\<close>

lemma writeSharedRows_parts:
  obtains seeds na w1 w2 w4 w6 where
    "w1 = write_contracts (bdContracts data) w" "shared_only w w1"
    "upsert_tokens (sort_key (ToLower \<circ> tkAddress) (bdTokens data)) w1 = (seeds, w2)"
    "shared_only (fold seed_token seeds w2) w4"
    "shared_only (fold apply_delta (sort_key fst (filter (\<lambda>(t, _). t \<notin> set seeds) ds)) w4) w6"
    "writeSharedRows data a b c ds w = bump_all a b (length seeds) na c w6"
    "length (tokens w2) = length (tokens w) + length seeds" "length (address_stats (addr w6)) = length (address_stats (addr w)) + na"
proof -
  obtain seeds w2 where up:
      "upsert_tokens (sort_key (ToLower \<circ> tkAddress) (bdTokens data)) (write_contracts (bdContracts data) w) = (seeds, w2)"
    by fastforce
  let ?w5 = "fold apply_delta (sort_key fst (filter (\<lambda>(t, _). t \<notin> set seeds) ds)) (write_nfts (bdNFTTokens data) (fold seed_token seeds w2))"
  obtain na w6 where st: "write_address_stats (bdSkipAddressStats data) (bdAddressStats data) ?w5 = (na, w6)"
    by fastforce
  have w6: "shared_only ?w5 w6"
    using shared_only_addresses [of ?w5 "bdSkipAddressStats data" "bdAddressStats data"] st by simp
  have toks: "length (tokens w2) = length (tokens w) + length seeds"
    using upsert_tokens_length [OF up] shared_only_contracts [of w "bdContracts data"] by (simp add: shared_only_def)
  have "addr ?w5 = addr w2"
    by (simp add: token_rows_addr [OF token_rows_fold [OF token_rows_apply]] token_rows_addr [OF token_rows_fold [OF token_rows_seed]]
        addr_write_nfts)
  also have "\<dots> = addr w"
    using upsert_tokens_frame [OF up] addr_write_contracts [of "bdContracts data" w] by auto
  finally have addrs: "length (address_stats (addr w6)) = length (address_stats (addr w)) + na"
    using write_address_stats_length [OF st] by simp
  show ?thesis
    by (rule that [OF refl shared_only_contracts up shared_only_nfts w6 _ toks addrs]) (simp add: writeSharedRows_def up Let_def st)
qed

lemma same_rows_writeSharedRows: "same_rows w (writeSharedRows data a b c ds w)"
proof -
  obtain seeds na w1 w2 w4 w6 where parts: "shared_only w w1"
      "upsert_tokens (sort_key (ToLower \<circ> tkAddress) (bdTokens data)) w1 = (seeds, w2)"
      "shared_only (fold seed_token seeds w2) w4"
      "shared_only (fold apply_delta (sort_key fst (filter (\<lambda>(t, _). t \<notin> set seeds) ds)) w4) w6"
      "writeSharedRows data a b c ds w = bump_all a b (length seeds) na c w6"
    by (rule writeSharedRows_parts)
  have "same_rows w w1"
    using parts(1) by (simp add: shared_only_def)
  also have "same_rows w1 w2"
    using upsert_tokens_frame [OF parts(2)] by auto
  also have "same_rows w2 (fold seed_token seeds w2)"
    by (rule token_rows_same [OF token_rows_fold [OF token_rows_seed]])
  also have "same_rows (fold seed_token seeds w2) w4"
    using parts(3) by (simp add: shared_only_def)
  also have "same_rows w4 (fold apply_delta (sort_key fst (filter (\<lambda>(t, _). t \<notin> set seeds) ds)) w4)"
    by (rule token_rows_same [OF token_rows_fold [OF token_rows_apply]])
  also have "same_rows (fold apply_delta (sort_key fst (filter (\<lambda>(t, _). t \<notin> set seeds) ds)) w4) w6"
    using parts(4) by (simp add: shared_only_def)
  also have "same_rows w6 (writeSharedRows data a b c ds w)"
    unfolding parts(5) using bump_all_frame [of a b "length seeds" na c w6] by (auto simp: same_rows_def)
  finally show ?thesis .
qed

subsection \<open>The counters of a token row\<close>

text \<open>
  \<open>tokens_on w S P\<close>: the rows of the tokens with an address in \<open>S\<close> satisfy \<open>P\<close>.  An upsert changes no
  counter of a row that was there; the new rows are the ones to seed.
\<close>

definition tokens_on :: "world \<Rightarrow> string set \<Rightarrow> (token \<Rightarrow> bool) \<Rightarrow> bool" where
  "tokens_on w S P \<longleftrightarrow> (\<forall>t \<in> set (tokens w). tkAddress t \<in> S \<longrightarrow> P t)"

lemma shared_only_tokens_on: "shared_only w w' \<Longrightarrow> tokens_on w S P \<Longrightarrow> tokens_on w' S P"
  by (simp add: tokens_on_def shared_only_def)

lemma tokens_on_mono: "tokens_on w S P \<Longrightarrow> T \<subseteq> S \<Longrightarrow> (\<And>q. tkAddress q \<in> T \<Longrightarrow> P q \<Longrightarrow> Q q) \<Longrightarrow> tokens_on w T Q"
  by (auto simp: tokens_on_def)

lemma upsert_tokens_on:
  assumes "upsert_tokens ts w = (seeds, w')" and "tokens_on w (- S) P"
    and "\<And>t q. t \<in> set ts \<Longrightarrow> P q \<Longrightarrow> P (merge_token t q)"
  shows "tokens_on w' (- (S \<union> set seeds)) P"
  using assms
proof (induction ts w arbitrary: S seeds w' rule: upsert_tokens.induct)
  case (2 t ts w)
  obtain new w1 seeds1 where up: "upsert_token t w = (new, w1)" "upsert_tokens ts w1 = (seeds1, w')"
      "seeds = (if new then ToLower (tkAddress t) # seeds1 else seeds1)"
    using 2(2) by (auto split: prod.splits)
  let ?S = "S \<union> (if new then {ToLower (tkAddress t)} else {})"
  have "tkAddress (merge_token t q) = tkAddress q" for q
    by (simp add: merge_token_def)
  then have "tokens_on w1 (- ?S) P"
    using up(1) 2(3,4) by (auto simp: upsert_token_def tokens_on_def Let_def split: if_splits)
  then have "tokens_on w' (- (?S \<union> set seeds1)) P"
    by (rule 2(1) [OF up(1) [symmetric] up(2)]) (use 2(4) in auto)
  then show ?case
    using up(3) by (auto simp: tokens_on_def split: if_splits)
qed simp

lemma set_token_on:
  assumes "tokens_on w S P" and "\<And>q. tkAddress (f q) = tkAddress q"
    and "\<And>q. tkAddress q = a \<Longrightarrow> a \<in> S \<Longrightarrow> P q \<Longrightarrow> Q (f q)" and "\<And>q. tkAddress q \<noteq> a \<Longrightarrow> tkAddress q \<in> S \<Longrightarrow> P q \<Longrightarrow> Q q"
  shows "tokens_on (set_token a f w) S Q"
  using assms by (auto simp: tokens_on_def set_token_def)

text \<open>The deltas of a column: per token the sum of its moves.\<close>

definition moves_of :: "(int \<times> int \<Rightarrow> int) \<Rightarrow> deltas \<Rightarrow> string \<Rightarrow> int" where
  "moves_of move ds a = (\<Sum>(t, p) \<leftarrow> ds. if t = a then move p else 0)"

lemma moves_of_simps [simp]:
  "moves_of move [] a = 0" "moves_of move (d # ds) a = (if fst d = a then move (snd d) else 0) + moves_of move ds a"
  by (simp_all add: moves_of_def case_prod_beta)

lemma moves_of_untouched: "a \<notin> fst ` set ds \<Longrightarrow> moves_of move ds a = 0"
  by (induction ds) auto

lemma moves_of_sort: "moves_of move (sort_key h ds) a = moves_of move ds a"
proof -
  have "sum_list (map f (sort_key h ds)) = sum_list (map f ds)" for f :: "string \<times> int \<times> int \<Rightarrow> int"
    by (metis mset_map mset_sort sum_mset_sum_list)
  then show ?thesis
    by (simp add: moves_of_def)
qed

lemma moves_of_filter: "moves_of move (filter (\<lambda>(t, _). t \<notin> S) ds) a = (if a \<in> S then 0 else moves_of move ds a)"
  by (induction ds) (auto split: if_splits)

lemma delta_of_moves: "delta_of ds a = (moves_of fst ds a, moves_of snd ds a)"
  by (induction ds) auto

locale token_column =
  fixes holds :: "(string \<Rightarrow> int) \<Rightarrow> token \<Rightarrow> bool"
    and counted :: "world \<Rightarrow> string \<Rightarrow> int"
    and move :: "int \<times> int \<Rightarrow> int"
    and plain :: "token \<Rightarrow> bool"
    and fits :: "int \<Rightarrow> bool"
  assumes holds_cong: "holds f q \<Longrightarrow> f (tkAddress q) = g (tkAddress q) \<Longrightarrow> holds g q"
    and holds_merge: "plain t \<Longrightarrow> holds f q \<Longrightarrow> holds f (merge_token t q)"
    and holds_seeded: "fits (counted w (tkAddress q)) \<Longrightarrow>
      holds (counted w) (seeded (token_counted w (tkAddress q)) (countTokenHolders w (tkAddress q)) q)"
    and holds_moved: "holds f q \<Longrightarrow> fits (f (tkAddress q) + move d) \<Longrightarrow> g (tkAddress q) = f (tkAddress q) + move d \<Longrightarrow> holds g (moved d q)"
    and counted_frame: "same_rows w w' \<Longrightarrow> counted w' = counted w"
begin

lemma seed_holds:
  assumes "tokens_on w S (holds f)" and "f a = counted w a" "fits (f a)"
  shows "tokens_on (seed_token a w) (S \<union> {a}) (holds f)"
  unfolding tokens_on_def
proof (intro ballI impI)
  fix q assume "q \<in> set (tokens (seed_token a w))" and q: "tkAddress q \<in> S \<union> {a}"
  then obtain p where p: "p \<in> set (tokens w)"
      "q = (if tkAddress p = a then seeded (token_counted w a) (countTokenHolders w a) p else p)"
    by (auto simp: seed_token_def set_token_def)
  show "holds f q"
  proof (cases "tkAddress p = a")
    case True
    have "holds (counted w) (seeded (token_counted w (tkAddress p)) (countTokenHolders w (tkAddress p)) p)"
      using assms(2,3) True by (intro holds_seeded) simp
    then show ?thesis
      using p(2) True assms(2) by (auto intro: holds_cong simp: seeded_def)
  next
    case False
    then show ?thesis
      using p q assms(1) by (auto simp: tokens_on_def)
  qed
qed

lemma fold_seed_holds:
  assumes "tokens_on w S (holds f)" and "\<forall>a \<in> set as. f a = counted w a \<and> fits (f a)"
  shows "tokens_on (fold seed_token as w) (S \<union> set as) (holds f)"
  using assms
proof (induction as arbitrary: w S)
  case (Cons a as)
  have "counted (seed_token a w) = counted w"
    by (rule counted_frame [OF token_rows_same(1) [OF token_rows_seed]])
  then have "tokens_on (fold seed_token as (seed_token a w)) ((S \<union> {a}) \<union> set as) (holds f)"
    using Cons.prems by (intro Cons.IH seed_holds) auto
  then show ?case
    by (simp add: Un_assoc)
qed simp

lemma fold_apply_holds:
  assumes "tokens_on w UNIV (holds f)" and "distinct (map fst ds)" and "\<And>a. fits (f a + moves_of move ds a)"
  shows "tokens_on (fold apply_delta ds w) UNIV (holds (\<lambda>a. f a + moves_of move ds a))"
  using assms
proof (induction ds arbitrary: f w)
  case (Cons d ds)
  have zero: "moves_of move ds (fst d) = 0"
    using Cons.prems(2) by (intro moves_of_untouched) simp
  let ?f = "\<lambda>a. f a + (if fst d = a then move (snd d) else 0)"
  have fits: "fits (f (fst d) + move (snd d))"
    using Cons.prems(3) [of "fst d"] zero by simp
  have one: "tokens_on (apply_delta d w) UNIV (holds ?f)"
    unfolding apply_delta_def
  proof (rule set_token_on [OF Cons.prems(1)], goal_cases)
    case (2 q)
    then show ?case
      using fits by (intro holds_moved [of f]) simp_all
  next
    case (3 q)
    then show ?case
      by (auto intro: holds_cong)
  qed (simp add: moved_def)
  have sum: "?f a + moves_of move ds a = f a + moves_of move (d # ds) a" for a
    by simp
  have "tokens_on (fold apply_delta ds (apply_delta d w)) UNIV (holds (\<lambda>a. ?f a + moves_of move ds a))"
  proof (rule Cons.IH [OF one])
    show "fits (?f a + moves_of move ds a)" for a
      using Cons.prems(3) [of a] by (simp only: sum)
  qed (use Cons.prems(2) in simp)
  then show ?case
    by (simp only: sum fold_simps)
qed simp

lemma writeSharedRows_holds:
  assumes "tokens_on w UNIV (holds f)" and "\<And>t. f t + moves_of move ds t = counted w t" and "\<And>t. fits (counted w t)"
    and "distinct (map fst ds)" and "\<And>t. t \<in> set (bdTokens data) \<Longrightarrow> plain t"
  shows "tokens_on (writeSharedRows data a b c ds w) UNIV (holds (counted w))"
proof -
  obtain seeds na w1 w2 w4 w6 where parts: "shared_only w w1"
      "upsert_tokens (sort_key (ToLower \<circ> tkAddress) (bdTokens data)) w1 = (seeds, w2)"
      "shared_only (fold seed_token seeds w2) w4"
      "shared_only (fold apply_delta (sort_key fst (filter (\<lambda>(t, _). t \<notin> set seeds) ds)) w4) w6"
      "writeSharedRows data a b c ds w = bump_all a b (length seeds) na c w6"
    by (rule writeSharedRows_parts)
  let ?F = "\<lambda>t. if t \<in> set seeds then counted w t else f t" and ?es = "sort_key fst (filter (\<lambda>(t, _). t \<notin> set seeds) ds)"
  have "same_rows w w2"
    using parts(1) upsert_tokens_frame [OF parts(2)] by (auto simp: shared_only_def same_rows_def)
  then have counted: "counted w2 = counted w"
    by (rule counted_frame)
  have "tokens_on w1 (- {}) (holds f)"
    using shared_only_tokens_on [OF parts(1) assms(1)] by simp
  then have "tokens_on w2 (- ({} \<union> set seeds)) (holds f)"
    by (rule upsert_tokens_on [OF parts(2)]) (simp add: holds_merge assms(5))
  then have "tokens_on w2 (- set seeds) (holds ?F)"
    by (rule tokens_on_mono) (auto intro: holds_cong)
  then have "tokens_on (fold seed_token seeds w2) (- set seeds \<union> set seeds) (holds ?F)"
    by (rule fold_seed_holds) (simp add: counted assms(3))
  then have w4: "tokens_on w4 UNIV (holds ?F)"
    using shared_only_tokens_on [OF parts(3)] by simp
  have sum: "?F t + moves_of move ?es t = counted w t" for t
    using assms(2) [of t] by (simp add: moves_of_sort moves_of_filter)
  have "distinct (map fst ?es)"
    using assms(4) by (simp add: distinct_map distinct_filter inj_on_def)
  with w4 have "tokens_on (fold apply_delta ?es w4) UNIV (holds (\<lambda>t. ?F t + moves_of move ?es t))"
    by (rule fold_apply_holds) (simp only: sum assms(3))
  then have "tokens_on w6 UNIV (holds (counted w))"
    unfolding sum by (rule shared_only_tokens_on [OF parts(4)])
  then show ?thesis
    using bump_all_frame [of a b "length seeds" na c w6] unfolding parts(5) by (auto simp: tokens_on_def)
qed

end

text \<open>The three columns.  The supply is claimed of ERC20 tokens only; one never computed counts as zero.\<close>

definition the_supply :: "token \<Rightarrow> int" where
  "the_supply t = (case tkTotalSupply t of None \<Rightarrow> 0 | Some s \<Rightarrow> s)"

definition count_is :: "(string \<Rightarrow> int) \<Rightarrow> token \<Rightarrow> bool" where
  "count_is f t \<longleftrightarrow> tkTransferCount t = f (tkAddress t)"

definition supply_is :: "(string \<Rightarrow> int) \<Rightarrow> token \<Rightarrow> bool" where
  "supply_is g t \<longleftrightarrow> (tkTokenType t = ''ERC20'' \<longrightarrow> the_supply t = g (tkAddress t))"

definition holder_is :: "(string \<Rightarrow> int) \<Rightarrow> token \<Rightarrow> bool" where
  "holder_is f t \<longleftrightarrow> tkHolderCount t = f (tkAddress t)"

interpretation transfer_col: token_column count_is "\<lambda>w t. fst (token_counted w t)" fst "\<lambda>_. True" "\<lambda>_. True"
  by unfold_locales (auto simp: count_is_def merge_token_def seeded_def moved_def dest: same_rows_counted)

interpretation supply_col: token_column supply_is "\<lambda>w t. snd (token_counted w t)" snd "\<lambda>t. tkTotalSupply t = None" "\<lambda>x. clampSupply x = x"
  by unfold_locales (auto simp: supply_is_def the_supply_def merge_token_def seeded_def moved_def dest: same_rows_counted split: option.splits)

interpretation holder_col: token_column holder_is countTokenHolders "\<lambda>_. 0" "\<lambda>_. True" "\<lambda>_. True"
  by unfold_locales (auto simp: holder_is_def merge_token_def seeded_def moved_def dest: same_rows_holders)

subsection \<open>A write\<close>

definition counter :: "world \<Rightarrow> string \<Rightarrow> int" where
  "counter w name = (case chain_counters w name of None \<Rightarrow> 0 | Some c \<Rightarrow> c)"

lemma counter_bump: "counter (bump n k w) m = counter w m + (if m = n then k else 0)"
  by (simp add: counter_def bump_def split: option.split)

lemma counter_bump_all:
  "counter (bump_all bs txs toks addrs trs w) m = counter w m +
     (if m = ''blocks_total'' then int bs else 0) + (if m = ''transactions_total'' then int txs else 0) +
     (if m = ''tokens_total'' then int toks else 0) + (if m = ''addresses_total'' then int addrs else 0) +
     (if m = ''transfers_total'' then int trs else 0)"
  by (simp add: bump_all_def counter_bump)

text \<open>
  \<open>ledger_ok c w\<close>: block numbers are distinct; the totals are the rows there are on top of the pruned
  ones \<open>c\<close>; and every token's transfer count is its transfers, kept and pruned.
\<close>

definition row_totals :: "world \<Rightarrow> (string \<times> int) list" where
  "row_totals w =
     [(''blocks_total'', int (length (blocks w))), (''transactions_total'', int (length (transactions w))),
      (''transfers_total'', int (length (token_transfers w))), (''tokens_total'', int (length (tokens w))),
      (''addresses_total'', int (length (address_stats (addr w))))]"

definition totals_exact :: "(string \<Rightarrow> int) \<Rightarrow> world \<Rightarrow> bool" where
  "totals_exact c w \<longleftrightarrow> (\<forall>(name, k) \<in> set (row_totals w). counter w name = c name + k)"

definition counts_exact :: "world \<Rightarrow> bool" where
  "counts_exact w \<longleftrightarrow> tokens_on w UNIV (count_is (\<lambda>t. fst (token_counted w t)))"

definition supplies_exact :: "world \<Rightarrow> bool" where
  "supplies_exact w \<longleftrightarrow> tokens_on w UNIV (supply_is (\<lambda>t. snd (token_counted w t)))"

definition wf_blocks :: "world \<Rightarrow> bool" where
  "wf_blocks w \<longleftrightarrow> distinct (map bNumber (blocks w))"

definition ledger_ok :: "(string \<Rightarrow> int) \<Rightarrow> world \<Rightarrow> bool" where
  "ledger_ok c w \<longleftrightarrow> wf_blocks w \<and> totals_exact c w \<and> counts_exact w"

text \<open>The rows \<open>BeginBlockData\<close> adds, and the numbers it passes on.\<close>

lemma begin_rows_parts:
  assumes "begin_rows data k w = Inr (bw, w')"
  obtains n w1 cl w2 ct ws w3 ds where
    "insert_transactions (map_option bTimestamp (bdBlock data)) (bdTransfers data) (bdTransactions data) w = (n, w1)"
    "insert_logs (bdLogs data) w1 = (cl, w2)" "insert_transfers (bdTransfers data) w2 = (ct, ws, w3)"
    "count_transfers ws [] = Inr ds" "bw = Open data k n (length ws) ds"
    "w' = insert_internal (bdInternalTransactions data) w3"
proof -
  obtain n w1 where tx: "insert_transactions (map_option bTimestamp (bdBlock data)) (bdTransfers data) (bdTransactions data) w = (n, w1)"
    by fastforce
  obtain cl w2 where lg: "insert_logs (bdLogs data) w1 = (cl, w2)" "begin_logs (bdLogs data) w1 = Inr w2"
    using assms tx by (auto simp: begin_rows_def begin_logs_def split: sum.splits prod.splits option.splits)
  obtain ct ws w3 ds where tr: "insert_transfers (bdTransfers data) w2 = (ct, ws, w3)" "count_transfers ws [] = Inr ds"
      "bw = Open data k n (length ws) ds" "w' = insert_internal (bdInternalTransactions data) w3"
    using assms tx lg(2) by (auto simp: begin_rows_def begin_transfers_def split: sum.splits prod.splits option.splits)
  show ?thesis
    by (rule that [OF tx lg(1) tr])
qed

lemma begin_rows_adds:
  assumes "begin_rows data k w = Inr (bw, w')"
  obtains txs ls ws its ds where
    "bw = Open data k (length txs) (length ws) ds"
    "w' = w\<lparr>transactions := transactions w @ txs, logs := logs w @ ls, token_transfers := token_transfers w @ map transfer_row ws,
            internal_transactions := internal_transactions w @ its\<rparr>"
    "count_transfers ws [] = Inr ds" "set ws \<subseteq> set (bdTransfers data)"
proof -
  obtain n w1 cl w2 ct ws w3 ds where tx:
      "insert_transactions (map_option bTimestamp (bdBlock data)) (bdTransfers data) (bdTransactions data) w = (n, w1)"
    and lg: "insert_logs (bdLogs data) w1 = (cl, w2)" and tr: "insert_transfers (bdTransfers data) w2 = (ct, ws, w3)"
      "count_transfers ws [] = Inr ds" "bw = Open data k n (length ws) ds" "w' = insert_internal (bdInternalTransactions data) w3"
    by (rule begin_rows_parts [OF assms])
  obtain txs where "w1 = w\<lparr>transactions := transactions w @ txs\<rparr>" "length txs = n"
    using insert_transactions_frame [OF tx] by blast
  moreover obtain ls where "w2 = w1\<lparr>logs := logs w1 @ ls\<rparr>"
    using insert_logs_frame [OF lg] by blast
  moreover obtain its where "w' = w3\<lparr>internal_transactions := internal_transactions w3 @ its\<rparr>"
    using insert_internal_frame tr(4) by blast
  ultimately show ?thesis
    using that [of txs ws ds its ls] tr insert_transfers_frame [OF tr(1)] by simp
qed

lemma kept_transfers_append:
  assumes "\<forall>t \<in> set ws. history_from w \<le> ttBlockNumber t"
  shows "token_counted (w\<lparr>token_transfers := token_transfers w @ map transfer_row ws\<rparr>) a =
    (fst (token_counted w a) + int (length (filter (\<lambda>t. ttTokenAddress t = a) (map transfer_row ws))),
     snd (token_counted w a) + (\<Sum>t \<leftarrow> filter (\<lambda>t. ttTokenAddress t = a) (map transfer_row ws). transfer_supply t))"
proof -
  have "filter (\<lambda>t. ttTokenAddress t = a \<and> history_from w \<le> ttBlockNumber t) (map transfer_row ws) =
      filter (\<lambda>t. ttTokenAddress t = a) (map transfer_row ws)"
    using assms by (intro filter_cong) (auto simp: transfer_row_def)
  moreover have "history_from (w\<lparr>token_transfers := token_transfers w @ map transfer_row ws\<rparr>) = history_from w"
    "pruned_counts (w\<lparr>token_transfers := token_transfers w @ map transfer_row ws\<rparr>) = pruned_counts w"
    "token_transfers (w\<lparr>token_transfers := token_transfers w @ map transfer_row ws\<rparr>) = token_transfers w @ map transfer_row ws"
    by (simp_all add: history_from_def)
  ultimately show ?thesis
    by (simp only: token_counted_def kept_transfers_def filter_append length_append map_append sum_list_append
        of_nat_add add.assoc fst_conv snd_conv)
qed

text \<open>The write as a whole: it adds rows, and its deltas are what they add to the counts.\<close>

lemma write_block_cases:
  assumes "write_block data w = Inr w'"
  obtains (stored) "w' = w"
  | (written) bs txs ls ws its ds w1 where
      "w1 = w\<lparr>blocks := blocks w @ bs, transactions := transactions w @ txs, logs := logs w @ ls,
               token_transfers := token_transfers w @ map transfer_row ws, internal_transactions := internal_transactions w @ its\<rparr>"
      "w' = writeSharedRows data (length bs) (length txs) (length ws) ds w1"
      "count_transfers ws [] = Inr ds" "set ws \<subseteq> set (bdTransfers data)"
      "bs = (case bdBlock data of None \<Rightarrow> [] | Some b \<Rightarrow> [b])" "\<forall>b \<in> set bs. \<not> block_taken b w"
proof (cases "bdBlock data")
  case None
  then obtain bw v where bg: "begin_rows data 0 w = Inr (bw, v)" "w' = Finish bw v"
    using assms by (auto simp: write_block_def BeginBlockData_def split: sum.splits)
  obtain txs ls ws its ds where adds: "bw = Open data 0 (length txs) (length ws) ds"
      "v = w\<lparr>transactions := transactions w @ txs, logs := logs w @ ls,
         token_transfers := token_transfers w @ map transfer_row ws, internal_transactions := internal_transactions w @ its\<rparr>"
      "count_transfers ws [] = Inr ds" "set ws \<subseteq> set (bdTransfers data)"
    by (rule begin_rows_adds [OF bg(1)]) simp
  then show ?thesis
    using bg(2) None
    by (intro written [where bs = "[]" and txs = txs and ls = ls and ws = ws and its = its and ds = ds])
      (auto simp: Finish_def)
next
  case (Some b)
  show ?thesis
  proof (cases "block_taken b w")
    case True
    then show ?thesis
      using assms Some stored by (auto simp: write_block_def BeginBlockData_def Finish_def split: option.splits)
  next
    case False
    then obtain bw v where bg: "begin_rows data 1 (w\<lparr>blocks := blocks w @ [b]\<rparr>) = Inr (bw, v)" "w' = Finish bw v"
      using assms Some by (auto simp: write_block_def BeginBlockData_def split: sum.splits)
    obtain txs ls ws its ds where adds: "bw = Open data 1 (length txs) (length ws) ds"
        "v = w\<lparr>blocks := blocks w @ [b], transactions := transactions w @ txs, logs := logs w @ ls,
           token_transfers := token_transfers w @ map transfer_row ws, internal_transactions := internal_transactions w @ its\<rparr>"
        "count_transfers ws [] = Inr ds" "set ws \<subseteq> set (bdTransfers data)"
      by (rule begin_rows_adds [OF bg(1)]) simp
    then show ?thesis
      using bg(2) Some False
      by (intro written [where bs = "[b]" and txs = txs and ls = ls and ws = ws and its = its and ds = ds])
        (auto simp: Finish_def)
  qed
qed

lemma written_counted:
  assumes "w1 = w\<lparr>blocks := bs, transactions := txs, logs := ls,
      token_transfers := token_transfers w @ map transfer_row ws, internal_transactions := its\<rparr>"
    and "count_transfers ws [] = Inr ds" and "\<forall>t \<in> set ws. history_from w \<le> ttBlockNumber t"
  shows "fst (token_counted w a) + moves_of fst ds a = fst (token_counted w1 a)"
    and "snd (token_counted w a) + moves_of snd ds a = snd (token_counted w1 a)"
proof -
  have "token_counted w1 = token_counted (w\<lparr>token_transfers := token_transfers w @ map transfer_row ws\<rparr>)"
    by (rule token_counted_cong) (simp_all add: assms(1))
  then have "token_counted w1 a = (fst (token_counted w a) + fst (delta_of ds a), snd (token_counted w a) + snd (delta_of ds a))"
    using kept_transfers_append [OF assms(3), of a] count_transfers_deltas [OF assms(2), of a] by simp
  then show "fst (token_counted w a) + moves_of fst ds a = fst (token_counted w1 a)"
    "snd (token_counted w a) + moves_of snd ds a = snd (token_counted w1 a)"
    by (simp_all add: delta_of_moves)
qed

lemma token_rows_length: "(\<And>a w. length (tokens (f a w)) = length (tokens w)) \<Longrightarrow> length (tokens (fold f as w)) = length (tokens w)"
  by (induction as arbitrary: w) simp_all

lemma totals_writeSharedRows:
  assumes "\<forall>(name, k) \<in> set (row_totals w). counter w name + (if name = ''blocks_total'' then int a
      else if name = ''transactions_total'' then int b else if name = ''transfers_total'' then int t else 0) = c name + k"
  shows "totals_exact c (writeSharedRows data a b t ds w)"
proof -
  obtain seeds na w1 w2 w4 w6 where parts: "shared_only w w1"
      "upsert_tokens (sort_key (ToLower \<circ> tkAddress) (bdTokens data)) w1 = (seeds, w2)"
      "shared_only (fold seed_token seeds w2) w4"
      "shared_only (fold apply_delta (sort_key fst (filter (\<lambda>(t, _). t \<notin> set seeds) ds)) w4) w6"
      "writeSharedRows data a b t ds w = bump_all a b (length seeds) na t w6"
      "length (tokens w2) = length (tokens w) + length seeds" "length (address_stats (addr w6)) = length (address_stats (addr w)) + na"
    by (rule writeSharedRows_parts)
  let ?w' = "writeSharedRows data a b t ds w"
  have same: "same_rows w ?w'"
    by (rule same_rows_writeSharedRows)
  have "chain_counters w2 = chain_counters w"
    using upsert_tokens_frame [OF parts(2)] parts(1) by (auto simp: shared_only_def)
  then have "chain_counters w6 = chain_counters w"
    using parts(3,4) by (simp add: shared_only_def token_rows_same(2) [OF token_rows_fold [OF token_rows_seed]]
        token_rows_same(2) [OF token_rows_fold [OF token_rows_apply]])
  then have ctr: "counter w6 = counter w"
    by (simp add: fun_eq_iff counter_def)
  have "length (tokens w6) = length (tokens w4)"
    using parts(4) by (simp add: shared_only_def token_rows_length apply_delta_def set_token_def)
  also have "\<dots> = length (tokens w2)"
    using parts(3) by (simp add: shared_only_def token_rows_length seed_token_def set_token_def)
  finally have len: "length (tokens ?w') = length (tokens w) + length seeds"
      "length (address_stats (addr ?w')) = length (address_stats (addr w)) + na"
    using parts(6,7) bump_all_frame [of a b "length seeds" na t w6] unfolding parts(5) by auto
  have rows: "length (blocks ?w') = length (blocks w)" "length (transactions ?w') = length (transactions w)"
      "length (token_transfers ?w') = length (token_transfers w)"
    using same by (simp_all add: same_rows_def)
  have "counter ?w' m = counter w m + (if m = ''blocks_total'' then int a else 0) + (if m = ''transactions_total'' then int b else 0) +
      (if m = ''tokens_total'' then int (length seeds) else 0) + (if m = ''addresses_total'' then int na else 0) +
      (if m = ''transfers_total'' then int t else 0)" for m
    unfolding parts(5) counter_bump_all ctr ..
  then show ?thesis
    using assms by (simp add: totals_exact_def row_totals_def len rows)
qed

lemma write_block_ledger:
  assumes ok: "ledger_ok c w" and run: "write_block data w = Inr w'"
    and hist: "\<forall>t \<in> set (bdTransfers data). history_from w \<le> ttBlockNumber t"
  shows "ledger_ok c w'"
proof (cases rule: write_block_cases [OF run])
  case 1
  then show ?thesis
    using ok by simp
next
  case (2 bs txs ls ws its ds w1)
  have same: "same_rows w1 w'"
    unfolding 2(2) by (rule same_rows_writeSharedRows)
  have "tokens_on w1 UNIV (count_is (\<lambda>t. fst (token_counted w t)))"
    using ok 2(1) by (simp add: ledger_ok_def counts_exact_def tokens_on_def)
  then have "tokens_on (writeSharedRows data (length bs) (length txs) (length ws) ds w1) UNIV (count_is (\<lambda>t. fst (token_counted w1 t)))"
    using written_counted(1) [OF 2(1) 2(3)] hist 2(4) distinct_count_transfers [OF 2(3)]
    by (intro transfer_col.writeSharedRows_holds) auto
  then have "counts_exact w'"
    unfolding 2(2) [symmetric] counts_exact_def same_rows_counted [OF same] .
  moreover have "wf_blocks w'"
    using ok same 2(1,5,6) by (auto simp: ledger_ok_def wf_blocks_def same_rows_def block_taken_def split: option.splits)
  moreover have "counter w1 n = counter w n" for n
    by (simp add: counter_def 2(1))
  then have "totals_exact c w'"
    using ok unfolding 2(2) by (intro totals_writeSharedRows) (simp add: ledger_ok_def totals_exact_def row_totals_def 2(1))
  ultimately show ?thesis
    by (simp add: ledger_ok_def)
qed

lemma write_block_supply:
  assumes ok: "supplies_exact w" and run: "write_block data w = Inr w'"
    and hist: "\<forall>t \<in> set (bdTransfers data). history_from w \<le> ttBlockNumber t"
    and toks: "\<forall>t \<in> set (bdTokens data). tkTotalSupply t = None"
    and fits: "\<And>t. clampSupply (snd (token_counted w' t)) = snd (token_counted w' t)"
  shows "supplies_exact w'"
proof (cases rule: write_block_cases [OF run])
  case 1
  then show ?thesis
    using ok by simp
next
  case (2 bs txs ls ws its ds w1)
  have counted: "token_counted w' = token_counted w1"
    unfolding 2(2) by (rule same_rows_counted [OF same_rows_writeSharedRows])
  have "tokens_on w1 UNIV (supply_is (\<lambda>t. snd (token_counted w t)))"
    using ok 2(1) by (simp add: supplies_exact_def tokens_on_def)
  then have "tokens_on (writeSharedRows data (length bs) (length txs) (length ws) ds w1) UNIV (supply_is (\<lambda>t. snd (token_counted w1 t)))"
    using written_counted(2) [OF 2(1) 2(3)] hist 2(4) distinct_count_transfers [OF 2(3)] fits toks
    by (intro supply_col.writeSharedRows_holds) (auto simp: counted)
  then show ?thesis
    unfolding 2(2) [symmetric] supplies_exact_def counted .
qed

text \<open>The holder counts: the write takes them from the balances only for the tokens it adds.\<close>

lemma write_block_holders:
  assumes ok: "holders_exact w" and run: "write_block data w = Inr w'"
  shows "holders_exact w'"
proof (cases rule: write_block_cases [OF run])
  case 1
  then show ?thesis
    using ok by simp
next
  case (2 bs txs ls ws its ds w1)
  have w1: "countTokenHolders w1 = countTokenHolders w"
    by (simp add: fun_eq_iff 2(1) countTokenHolders_def)
  have zero: "moves_of (\<lambda>_. 0) ds t = 0" for t
    by (induction ds) simp_all
  have "tokens_on w1 UNIV (holder_is (countTokenHolders w))"
    using ok 2(1) by (simp add: holders_exact_def tokens_on_def holder_is_def)
  then have "tokens_on (writeSharedRows data (length bs) (length txs) (length ws) ds w1) UNIV (holder_is (countTokenHolders w1))"
    using distinct_count_transfers [OF 2(3)] by (intro holder_col.writeSharedRows_holds) (auto simp: w1 zero)
  then show ?thesis
    unfolding 2(2) by (simp add: same_rows_holders [OF same_rows_writeSharedRows] holders_exact_def tokens_on_def holder_is_def)
qed

end
