(* ===== verification/Block_Revert.thy ===== *)
theory Block_Revert
  imports Block_Writer
begin

text \<open>
  Taking a block off: \<open>DeleteBlock\<close> (\<open>internal/db/queries.go\<close>) with \<open>revertNFTTokens\<close>
  (\<open>internal/db/nft_tokens_revert.go\<close>), \<open>revertBalances\<close> and \<open>revertAddressStats\<close>, one transaction that
  undoes on every table what \<open>InsertBlockDataBatch\<close> did.  The theorems: the ledger's totals, transfer counts,
  supplies and holder counts stay exact across writes, balance flushes and reverts in any order.
\<close>

section \<open>The statements\<close>

text \<open>What the block's transfers added to a token.\<close>

definition block_transfers :: "world \<Rightarrow> u64 \<Rightarrow> token_transfer list" where
  "block_transfers w number = filter (\<lambda>t. ttBlockNumber t = number) (token_transfers w)"

definition doomed :: "world \<Rightarrow> u64 \<Rightarrow> string \<Rightarrow> int \<times> int" where
  "doomed w number token =
     (let ts = filter (\<lambda>t. ttTokenAddress t = token) (block_transfers w number)
      in (int (length ts), \<Sum>t \<leftarrow> ts. transfer_supply t))"

text \<open>The token rows, in address order: the transfers of the block, then the holders the restored balances change.\<close>

definition take_transfers :: "int \<times> int \<Rightarrow> token \<Rightarrow> token" where
  "take_transfers d q = q\<lparr>
     tkTransferCount := max (tkTransferCount q - fst d) 0,
     tkTotalSupply := (if tkTokenType q = ''ERC20''
       then Some (clampSupply ((case tkTotalSupply q of None \<Rightarrow> 0 | Some x \<Rightarrow> x) - snd d))
       else tkTotalSupply q)\<rparr>"

definition take_holders :: "int \<Rightarrow> token \<Rightarrow> token" where
  "take_holders d q = (if d \<noteq> 0 then q\<lparr>tkHolderCount := max (tkHolderCount q + d) 0\<rparr> else q)"

definition revert_token :: "world \<Rightarrow> u64 \<Rightarrow> (string \<times> int) list \<Rightarrow> string \<Rightarrow> token \<Rightarrow> token" where
  "revert_token w number holderDelta token q =
     take_holders (delta_for holderDelta token)
       (if token \<in> set (map ttTokenAddress (block_transfers w number)) then take_transfers (doomed w number token) q else q)"

definition revert_tokens :: "u64 \<Rightarrow> (string \<times> int) list \<Rightarrow> world \<Rightarrow> world" where
  "revert_tokens number holderDelta w =
     fold (\<lambda>t. set_token t (revert_token w number holderDelta t))
       (sort (remdups (map ttTokenAddress (block_transfers w number) @ map fst holderDelta))) w"

text \<open>
  \<open>revertNFTTokens\<close>: every NFT whose latest block is the reverted one or above goes back to its latest
  transfer in another block; with none, to the sender of its first transfer in the block, or away when
  that was a mint; and one the block did not move keeps its owner.
\<close>

definition latest_move :: "world \<Rightarrow> u64 \<Rightarrow> nft_token \<Rightarrow> token_transfer option" where
  "latest_move w number n =
     (case rev (sort_key ttBlockNumber (sort_key ttLogIndex
        (filter (\<lambda>t. ttTokenAddress t = ToLower (nfTokenAddress n) \<and> ttTokenID t = Some (nfTokenID n) \<and>
                     ttTokenType t = ''ERC721'' \<and> ttBlockNumber t \<noteq> number) (token_transfers w)))) of
        [] \<Rightarrow> None
      | t # _ \<Rightarrow> Some t)"

definition first_move_in :: "world \<Rightarrow> u64 \<Rightarrow> nft_token \<Rightarrow> token_transfer option" where
  "first_move_in w number n =
     (case sort_key ttLogIndex
        (filter (\<lambda>t. ttBlockNumber t = number \<and> ttTokenAddress t = ToLower (nfTokenAddress n) \<and>
                     ttTokenID t = Some (nfTokenID n) \<and> ttTokenType t = ''ERC721'') (token_transfers w)) of
        [] \<Rightarrow> None
      | t # _ \<Rightarrow> Some t)"

definition revert_nft :: "world \<Rightarrow> u64 \<Rightarrow> nft_token \<Rightarrow> nft_token option" where
  "revert_nft w number n =
     (let checksum = (\<lambda>a. Address_Hex (keccak256 w) (HexToAddress a)); below = int number - 1 in
      case latest_move w number n of
        Some t \<Rightarrow> Some (n\<lparr>nfOwner := checksum (ttTo t), nfBlockNumber := int (ttBlockNumber t)\<rparr>)
      | None \<Rightarrow>
          (case first_move_in w number n of
             None \<Rightarrow> Some (n\<lparr>nfBlockNumber := below\<rparr>)
           | Some t \<Rightarrow>
               if ttFrom t = zeroAddress then None
               else Some (n\<lparr>nfOwner := checksum (ttFrom t), nfBlockNumber := below\<rparr>)))"

definition revertNFTTokens :: "u64 \<Rightarrow> world \<Rightarrow> world" where
  "revertNFTTokens number w = w\<lparr>nft_tokens := List.map_filter
     (\<lambda>n. if nfBlockNumber n < int number then Some n else revert_nft w number n) (nft_tokens w)\<rparr>"

definition unbump :: "string \<Rightarrow> int \<Rightarrow> world \<Rightarrow> world" where
  "unbump name k w = w\<lparr>chain_counters := (chain_counters w)(name \<mapsto>
     (case chain_counters w name of None \<Rightarrow> - k | Some c \<Rightarrow> max (c - k) 0))\<rparr>"

text \<open>The totals; \<open>tokens_total\<close> stays, as the token rows do.\<close>

definition revert_counters :: "u64 \<Rightarrow> nat \<Rightarrow> world \<Rightarrow> world" where
  "revert_counters number forgotten w =
     (let revertedTransfers = int (length (block_transfers w number));
          revertedTxs = int (length (filter (\<lambda>t. txBlockNumber t = number) (transactions w)));
          revertedBlocks = (if stored_number w number then 1 else 0)
      in if revertedBlocks \<noteq> 0 \<or> revertedTxs \<noteq> 0 \<or> revertedTransfers \<noteq> 0 \<or> int forgotten \<noteq> 0
         then unbump ''addresses_total'' (int forgotten) (unbump ''transfers_total'' revertedTransfers
                (unbump ''transactions_total'' revertedTxs (unbump ''blocks_total'' revertedBlocks w)))
         else w)"

definition delete_rows :: "u64 \<Rightarrow> world \<Rightarrow> world" where
  "delete_rows number w =
     w\<lparr>token_transfers := filter (\<lambda>t. ttBlockNumber t \<noteq> number) (token_transfers w),
       logs := filter (\<lambda>l. lgBlockNumber l \<noteq> number) (logs w),
       op_deposits := filter (\<lambda>d. \<not> (\<exists>t \<in> set (transactions w). txBlockNumber t = number \<and> txHash t = odL2TxHash d)) (op_deposits w),
       contracts := filter (\<lambda>c. coBlockNumber c \<noteq> number) (contracts w),
       internal_transactions := filter (\<lambda>t. itBlockNumber t \<noteq> number) (internal_transactions w),
       transactions := filter (\<lambda>t. txBlockNumber t \<noteq> number) (transactions w),
       blocks := filter (\<lambda>b. bNumber b \<noteq> number) (blocks w)\<rparr>"

definition revert_rows :: "u64 \<Rightarrow> world \<Rightarrow> world" where
  "revert_rows number w =
     (case revertBalances number w of ((keys, holderDelta), w1) \<Rightarrow>
      case revertAddressStats number (revertNFTTokens number (revert_tokens number holderDelta w1)) of (forgotten, w4) \<Rightarrow>
        set_bal (recordBalanceRereads keys) (delete_rows number (revert_counters number forgotten w4)))"

definition revert_block :: "u64 \<Rightarrow> world \<Rightarrow> db_error + world" where
  "revert_block number w =
     (case daily_stats_invalidate number w of
        Inl e \<Rightarrow> Inl e
      | Inr w1 \<Rightarrow> Inr (revert_rows number (keepDailyStatsWatermarkOnStoredBlocks w1)))"

definition DeleteBlock :: "u64 \<Rightarrow> unit dbm" where
  "DeleteBlock number = tx_of (revert_block number)"

section \<open>What a revert changes\<close>

lemma doomed_untouched:
  assumes "a \<notin> ttTokenAddress ` set (block_transfers w n)"
  shows "doomed w n a = (0, 0)"
proof -
  have "filter (\<lambda>t. ttTokenAddress t = a) (block_transfers w n) = []"
    using assms by (auto simp: filter_empty_conv)
  then show ?thesis
    by (simp add: doomed_def)
qed

lemma delta_for_absent: "t \<notin> set (map fst ds) \<Longrightarrow> delta_for ds t = 0"
  by (induction ds) (auto simp: delta_for_def)

lemma revert_token_address: "tkAddress (revert_token w n hds t q) = tkAddress q"
  by (simp add: revert_token_def take_holders_def take_transfers_def)

lemma revert_tokens_rows:
  "revert_tokens n hds w = w\<lparr>tokens := map (\<lambda>q. revert_token w n hds (tkAddress q) q) (tokens w)\<rparr>"
proof -
  let ?ts = "sort (remdups (map ttTokenAddress (block_transfers w n) @ map fst hds))"
  have "revert_token w n hds a q = q" if "a \<notin> set ?ts" for a q
    using that delta_for_absent [of a hds] by (simp add: revert_token_def take_holders_def)
  then have "(if tkAddress q \<in> set ?ts then revert_token w n hds (tkAddress q) q else q) = revert_token w n hds (tkAddress q) q" for q
    by presburger
  moreover have "revert_tokens n hds w =
      w\<lparr>tokens := map (\<lambda>q. if tkAddress q \<in> set ?ts then revert_token w n hds (tkAddress q) q else q) (tokens w)\<rparr>"
    unfolding revert_tokens_def by (rule fold_set_token) (simp_all add: revert_token_address)
  ultimately show ?thesis
    by simp
qed

lemma revert_token_count:
  "0 \<le> tkTransferCount q \<Longrightarrow> tkTransferCount (revert_token w n hds a q) = max (tkTransferCount q - fst (doomed w n a)) 0"
  using doomed_untouched [of a w n] by (simp add: revert_token_def take_holders_def take_transfers_def)

lemma revert_token_supply:
  assumes "clampSupply (the_supply q - snd (doomed w n a)) = the_supply q - snd (doomed w n a)" and "tkTokenType q = ''ERC20''"
  shows "the_supply (revert_token w n hds a q) = the_supply q - snd (doomed w n a)"
  using assms doomed_untouched [of a w n]
  by (auto simp: revert_token_def take_holders_def take_transfers_def the_supply_def)

lemma revert_token_type: "tkTokenType (revert_token w n hds a q) = tkTokenType q"
  by (simp add: revert_token_def take_holders_def take_transfers_def)

lemma revert_token_holders:
  "0 \<le> tkHolderCount q \<Longrightarrow> tkHolderCount (revert_token w n hds a q) = max (tkHolderCount q + delta_for hds a) 0"
  by (simp add: revert_token_def take_holders_def take_transfers_def)

text \<open>The counters.\<close>

lemma counter_unbump:
  "0 \<le> k \<Longrightarrow> k \<le> counter w n \<Longrightarrow> counter (unbump n k w) m = counter w m - (if m = n then k else 0)"
  by (auto simp: counter_def unbump_def split: option.splits)

lemma unbump_frame: "\<exists>kc. v = w\<lparr>chain_counters := kc\<rparr> \<Longrightarrow> \<exists>kc. unbump m k v = w\<lparr>chain_counters := kc\<rparr>"
  by (auto simp: unbump_def)

lemma revert_counters_frame: "\<exists>kc. revert_counters n k w = w\<lparr>chain_counters := kc\<rparr>"
proof -
  have "\<exists>kc. w = w\<lparr>chain_counters := kc\<rparr>"
    by (rule exI [of _ "chain_counters w"]) simp
  moreover have "\<exists>kc. (if b then x else w) = w\<lparr>chain_counters := kc\<rparr>" if "\<exists>kc. x = w\<lparr>chain_counters := kc\<rparr>" for b x
    using that calculation by (cases b) simp_all
  ultimately show ?thesis
    unfolding revert_counters_def Let_def by (simp only: unbump_frame)
qed

lemma revertAddressStats_frame:
  obtains kc tables where "snd (revertAddressStats n w) = w\<lparr>addr := tables, chain_counters := kc\<rparr>"
    "length (address_stats tables) + fst (revertAddressStats n w) = length (address_stats (addr w))"
    "\<And>m. m \<noteq> ''address_stats_reverts'' \<Longrightarrow> kc m = chain_counters w m"
proof -
  let ?w1 = "bump ''address_stats_reverts'' 1 w"
  let ?gone = "fold record_reverted (touched_addresses (ledger_address_contributions n (n + 1) ?w1)) (ledger_reverted_address (addr ?w1))"
  let ?tables = "(addr ?w1)\<lparr>address_stats := revert_addresses n ?w1, ledger_reverted_address := ?gone\<rparr>"
  have addr: "addr ?w1 = addr w"
    by (simp add: bump_def)
  show ?thesis
  proof (rule that [where tables = ?tables and kc = "chain_counters ?w1"])
    have "snd (revertAddressStats n w) = ?w1\<lparr>addr := ?tables\<rparr>"
      by (simp add: revertAddressStats_def Let_def)
    also have "\<dots> = w\<lparr>addr := ?tables, chain_counters := chain_counters ?w1\<rparr>"
      by (rule world.equality) (simp_all add: bump_def)
    finally show "snd (revertAddressStats n w) = w\<lparr>addr := ?tables, chain_counters := chain_counters ?w1\<rparr>" .
    show "length (address_stats ?tables) + fst (revertAddressStats n w) = length (address_stats (addr w))"
      using revert_addresses_length [of n ?w1] by (simp add: revertAddressStats_def Let_def addr)
    show "chain_counters ?w1 m = chain_counters w m" if "m \<noteq> ''address_stats_reverts''" for m
      using that by (simp add: bump_def)
  qed
qed

text \<open>The stages of \<open>DeleteBlock\<close>.\<close>

lemma revert_rows_parts:
  obtains keys hds b ts ns kc tables f kc' where
    "revertBalances n w = ((keys, hds), w\<lparr>bal := b\<rparr>)"
    "ts = map (\<lambda>q. revert_token w n hds (tkAddress q) q) (tokens w)"
    "length (address_stats tables) + f = length (address_stats (addr w))"
    "\<And>m. m \<noteq> ''address_stats_reverts'' \<Longrightarrow> kc m = chain_counters w m"
    "revert_counters n f (w\<lparr>bal := b, tokens := ts, nft_tokens := ns, addr := tables, chain_counters := kc\<rparr>) =
       w\<lparr>bal := b, tokens := ts, nft_tokens := ns, addr := tables, chain_counters := kc'\<rparr>"
    "revert_rows n w = set_bal (recordBalanceRereads keys)
       (delete_rows n (w\<lparr>bal := b, tokens := ts, nft_tokens := ns, addr := tables, chain_counters := kc'\<rparr>))"
proof -
  obtain keys hds b where rb: "revertBalances n w = ((keys, hds), w\<lparr>bal := b\<rparr>)"
    using revertBalances_parts [of n w] by (metis prod.collapse)
  let ?ts = "map (\<lambda>q. revert_token w n hds (tkAddress q) q) (tokens w)"
  have "revert_token (w\<lparr>bal := b\<rparr>) n hds t = revert_token w n hds t" for t
    by (simp add: fun_eq_iff revert_token_def block_transfers_def doomed_def)
  then have ts: "revert_tokens n hds (w\<lparr>bal := b\<rparr>) = w\<lparr>bal := b, tokens := ?ts\<rparr>"
    by (simp add: revert_tokens_rows)
  obtain ns where ns: "revertNFTTokens n (w\<lparr>bal := b, tokens := ?ts\<rparr>) = w\<lparr>bal := b, tokens := ?ts, nft_tokens := ns\<rparr>"
    by (auto simp: revertNFTTokens_def)
  let ?v = "w\<lparr>bal := b, tokens := ?ts, nft_tokens := ns\<rparr>"
  obtain kc tables where ad: "snd (revertAddressStats n ?v) = ?v\<lparr>addr := tables, chain_counters := kc\<rparr>"
      "length (address_stats tables) + fst (revertAddressStats n ?v) = length (address_stats (addr ?v))"
      "\<And>m. m \<noteq> ''address_stats_reverts'' \<Longrightarrow> kc m = chain_counters ?v m"
    by (rule revertAddressStats_frame [of n ?v]) blast
  obtain kc' where kc': "revert_counters n (fst (revertAddressStats n ?v)) (?v\<lparr>addr := tables, chain_counters := kc\<rparr>) =
      ?v\<lparr>addr := tables, chain_counters := kc'\<rparr>"
    using revert_counters_frame [of n _ "?v\<lparr>addr := tables, chain_counters := kc\<rparr>"] by auto
  show ?thesis
  proof (rule that [OF rb refl])
    show "revert_rows n w = set_bal (recordBalanceRereads keys)
        (delete_rows n (w\<lparr>bal := b, tokens := ?ts, nft_tokens := ns, addr := tables, chain_counters := kc'\<rparr>))"
      by (simp add: revert_rows_def rb ts ns case_prod_beta ad(1) kc')
  qed (use ad kc' in simp_all)
qed

lemma daily_stats_invalidate_frame: "daily_stats_invalidate n w = Inr w' \<Longrightarrow> \<exists>d. w' = w\<lparr>daily := d\<rparr>"
proof -
  have "\<exists>d. w = w\<lparr>daily := d\<rparr>"
    by (rule exI [of _ "daily w"]) simp
  then show "daily_stats_invalidate n w = Inr w' \<Longrightarrow> \<exists>d. w' = w\<lparr>daily := d\<rparr>"
    by (auto simp: daily_stats_invalidate_def set_daily_def Let_def split: option.splits prod.splits if_splits)
qed

lemma keepDailyStats_frame: "\<exists>d. keepDailyStatsWatermarkOnStoredBlocks w = w\<lparr>daily := d\<rparr>"
proof -
  have "\<exists>d. w = w\<lparr>daily := d\<rparr>"
    by (rule exI [of _ "daily w"]) simp
  then show ?thesis
    by (auto simp: keepDailyStatsWatermarkOnStoredBlocks_def set_daily_def Let_def split: option.split)
qed

lemma revert_block_rows:
  assumes "revert_block n w = Inr w'"
  obtains d where "w' = revert_rows n (w\<lparr>daily := d\<rparr>)"
proof -
  obtain w1 where w1: "daily_stats_invalidate n w = Inr w1" "w' = revert_rows n (keepDailyStatsWatermarkOnStoredBlocks w1)"
    using assms by (auto simp: revert_block_def split: sum.splits)
  obtain d where "w1 = w\<lparr>daily := d\<rparr>"
    using daily_stats_invalidate_frame [OF w1(1)] by blast
  moreover obtain d' where "keepDailyStatsWatermarkOnStoredBlocks (w\<lparr>daily := d\<rparr>) = w\<lparr>daily := d, daily := d'\<rparr>"
    using keepDailyStats_frame by blast
  ultimately show ?thesis
    using that [of d'] w1(2) by simp
qed

section \<open>The ledger stays exact\<close>

text \<open>What the counts lose is what the block's transfers were.\<close>

lemma length_filter_split:
  "int (length (filter P xs)) = int (length (filter (\<lambda>x. P x \<and> Q x) xs)) + int (length (filter (\<lambda>x. P x \<and> \<not> Q x) xs))"
  by (induction xs) auto

lemma sum_filter_split:
  "(\<Sum>x \<leftarrow> filter P xs. f x) = (\<Sum>x \<leftarrow> filter (\<lambda>x. P x \<and> Q x) xs. f x) + (\<Sum>x \<leftarrow> filter (\<lambda>x. P x \<and> \<not> Q x) xs. f x :: int)"
  by (induction xs) auto

lemma token_counted_delete:
  assumes "history_from w \<le> n" and "token_transfers w' = filter (\<lambda>t. ttBlockNumber t \<noteq> n) (token_transfers w)"
    and "pruned_through w' = pruned_through w" and "pruned_counts w' = pruned_counts w"
  shows "token_counted w' a = (fst (token_counted w a) - fst (doomed w n a), snd (token_counted w a) - snd (doomed w n a))"
proof -
  have hist: "history_from w' = history_from w"
    using assms(3) by (simp add: history_from_def)
  let ?P = "\<lambda>t. ttTokenAddress t = a \<and> history_from w \<le> ttBlockNumber t" and ?Q = "\<lambda>t. ttBlockNumber t \<noteq> n"
  have kept: "kept_transfers w' a = filter (\<lambda>t. ?P t \<and> ?Q t) (token_transfers w)"
    by (auto simp: kept_transfers_def assms(2) hist intro: filter_cong)
  have gone: "filter (\<lambda>t. ?P t \<and> \<not> ?Q t) (token_transfers w) = filter (\<lambda>t. ttTokenAddress t = a) (block_transfers w n)"
    using assms(1) by (auto simp: block_transfers_def intro: filter_cong)
  show ?thesis
    unfolding token_counted_def kept doomed_def Let_def gone [symmetric] assms(4)
    using length_filter_split [of ?P "token_transfers w" ?Q] sum_filter_split [of transfer_supply ?P "token_transfers w" ?Q]
    by (simp add: kept_transfers_def)
qed

lemma length_filter_not: "int (length (filter (\<lambda>x. \<not> P x) xs)) = int (length xs) - int (length (filter P xs))"
  by (induction xs) auto

lemma blocks_at_number:
  assumes "wf_blocks w"
  shows "length (filter (\<lambda>b. bNumber b = n) (blocks w)) = (if stored_number w n then 1 else 0)"
proof -
  have "distinct (map bNumber bs) \<Longrightarrow> length (filter (\<lambda>b. bNumber b = n) bs) = (if \<exists>b \<in> set bs. bNumber b = n then 1 else 0)" for bs :: "block list"
    by (induction bs) (auto simp: filter_empty_conv image_iff)
  then show ?thesis
    using assms by (simp add: wf_blocks_def stored_number_def)
qed

text \<open>The totals lose what is deleted, as no counter is below the rows it counts.\<close>

lemma revert_counters_exact:
  assumes "wf_blocks w" and le: "int (length (blocks w)) \<le> counter w ''blocks_total''" "int (length (transactions w)) \<le> counter w ''transactions_total''"
    "int (length (token_transfers w)) \<le> counter w ''transfers_total''" "int f \<le> counter w ''addresses_total''"
  shows "counter (revert_counters n f w) m = counter w m
    - (if m = ''blocks_total'' then int (length (filter (\<lambda>b. bNumber b = n) (blocks w))) else 0)
    - (if m = ''transactions_total'' then int (length (filter (\<lambda>t. txBlockNumber t = n) (transactions w))) else 0)
    - (if m = ''transfers_total'' then int (length (block_transfers w n)) else 0)
    - (if m = ''addresses_total'' then int f else 0)"
proof -
  let ?b = "if stored_number w n then 1 else 0 :: int" and ?t = "int (length (block_transfers w n))"
  let ?x = "int (length (filter (\<lambda>t. txBlockNumber t = n) (transactions w)))"
  have b: "int (length (filter (\<lambda>b. bNumber b = n) (blocks w))) = ?b"
    using blocks_at_number [OF assms(1), of n] by simp
  have bounds: "?b \<le> counter w ''blocks_total''" "?x \<le> counter w ''transactions_total''" "?t \<le> counter w ''transfers_total''"
    unfolding b [symmetric] block_transfers_def using le(1-3) by (auto intro: order_trans [OF of_nat_mono [OF length_filter_le]])
  let ?w' = "unbump ''addresses_total'' (int f) (unbump ''transfers_total'' ?t (unbump ''transactions_total'' ?x (unbump ''blocks_total'' ?b w)))"
  have k: "counter ?w' m = counter w m - (if m = ''blocks_total'' then ?b else 0) - (if m = ''transactions_total'' then ?x else 0)
      - (if m = ''transfers_total'' then ?t else 0) - (if m = ''addresses_total'' then int f else 0)"
    using bounds le(4) by (simp add: counter_unbump)
  show ?thesis
  proof (cases "?b \<noteq> 0 \<or> ?x \<noteq> 0 \<or> ?t \<noteq> 0 \<or> int f \<noteq> 0")
    case True
    then have "revert_counters n f w = ?w'"
      unfolding revert_counters_def Let_def by (rule if_P)
    then show ?thesis
      unfolding b using k by simp
  next
    case False
    then have "revert_counters n f w = w"
      unfolding revert_counters_def Let_def by (rule if_not_P)
    then show ?thesis
      unfolding b using False by simp
  qed
qed

lemma totals_revert_rows:
  assumes ok: "wf_blocks w" "totals_exact c w" and c: "\<And>m. 0 \<le> c m"
  shows "totals_exact c (revert_rows n w)"
proof -
  obtain keys hds b ts ns kc tables f kc' where parts:
      "ts = map (\<lambda>q. revert_token w n hds (tkAddress q) q) (tokens w)"
      "length (address_stats tables) + f = length (address_stats (addr w))"
      "\<And>m. m \<noteq> ''address_stats_reverts'' \<Longrightarrow> kc m = chain_counters w m"
      "revert_counters n f (w\<lparr>bal := b, tokens := ts, nft_tokens := ns, addr := tables, chain_counters := kc\<rparr>) =
         w\<lparr>bal := b, tokens := ts, nft_tokens := ns, addr := tables, chain_counters := kc'\<rparr>"
      "revert_rows n w = set_bal (recordBalanceRereads keys)
         (delete_rows n (w\<lparr>bal := b, tokens := ts, nft_tokens := ns, addr := tables, chain_counters := kc'\<rparr>))"
    by (rule revert_rows_parts [of n w]) blast
  let ?v = "w\<lparr>bal := b, tokens := ts, nft_tokens := ns, addr := tables, chain_counters := kc\<rparr>" and ?w' = "revert_rows n w"
  have ctr: "counter ?v m = counter w m" if "m \<noteq> ''address_stats_reverts''" for m
    using parts(3) [OF that] by (simp add: counter_def)
  have tot: "counter w ''blocks_total'' = c ''blocks_total'' + int (length (blocks w))"
    "counter w ''transactions_total'' = c ''transactions_total'' + int (length (transactions w))"
    "counter w ''transfers_total'' = c ''transfers_total'' + int (length (token_transfers w))"
    "counter w ''tokens_total'' = c ''tokens_total'' + int (length (tokens w))"
    "counter w ''addresses_total'' = c ''addresses_total'' + int (length (address_stats (addr w)))"
    using ok(2) by (simp_all add: totals_exact_def row_totals_def)
  have "counter (revert_counters n f ?v) m = counter ?v m
    - (if m = ''blocks_total'' then int (length (filter (\<lambda>b. bNumber b = n) (blocks ?v))) else 0)
    - (if m = ''transactions_total'' then int (length (filter (\<lambda>t. txBlockNumber t = n) (transactions ?v))) else 0)
    - (if m = ''transfers_total'' then int (length (block_transfers ?v n)) else 0)
    - (if m = ''addresses_total'' then int f else 0)" for m
    using ok(1) c [of "''blocks_total''"] c [of "''transactions_total''"] c [of "''transfers_total''"] c [of "''addresses_total''"] parts(2)
    by (intro revert_counters_exact) (simp_all add: ctr tot wf_blocks_def)
  moreover have "counter ?w' m = counter (revert_counters n f ?v) m" for m
    unfolding parts(4,5) by (simp add: counter_def set_bal_def delete_rows_def)
  moreover have "length (tokens ?w') = length (tokens w)" "addr ?w' = tables"
    "blocks ?w' = filter (\<lambda>b. bNumber b \<noteq> n) (blocks w)" "transactions ?w' = filter (\<lambda>t. txBlockNumber t \<noteq> n) (transactions w)"
    "token_transfers ?w' = filter (\<lambda>t. ttBlockNumber t \<noteq> n) (token_transfers w)"
    by (simp_all add: parts(1,5) set_bal_def delete_rows_def)
  ultimately show ?thesis
    using parts(2) by (simp add: totals_exact_def row_totals_def ctr tot length_filter_not block_transfers_def)
qed

lemma revert_rows_tokens:
  assumes "history_from w \<le> n"
  obtains hds where
    "tokens (revert_rows n w) = map (\<lambda>q. revert_token w n hds (tkAddress q) q) (tokens w)" "hds = snd (fst (revertBalances n w))"
    "token_counted (revert_rows n w) = (\<lambda>a. (fst (token_counted w a) - fst (doomed w n a), snd (token_counted w a) - snd (doomed w n a)))"
    "countTokenHolders (revert_rows n w) = countTokenHolders (snd (revertBalances n w))"
    "blocks (revert_rows n w) = filter (\<lambda>b. bNumber b \<noteq> n) (blocks w)"
    "token_balances_current (bal (revert_rows n w)) = token_balances_current (bal (snd (revertBalances n w)))"
proof -
  obtain keys hds b ts ns kc tables f kc' where parts: "revertBalances n w = ((keys, hds), w\<lparr>bal := b\<rparr>)"
      "ts = map (\<lambda>q. revert_token w n hds (tkAddress q) q) (tokens w)"
      "revert_rows n w = set_bal (recordBalanceRereads keys)
         (delete_rows n (w\<lparr>bal := b, tokens := ts, nft_tokens := ns, addr := tables, chain_counters := kc'\<rparr>))"
    by (rule revert_rows_parts [of n w]) blast
  have counted: "token_counted (revert_rows n w) a =
      (fst (token_counted w a) - fst (doomed w n a), snd (token_counted w a) - snd (doomed w n a))" for a
    by (rule token_counted_delete [OF assms]) (simp_all add: parts(3) set_bal_def delete_rows_def)
  have rereads: "token_balances_current (recordBalanceRereads keys b) = token_balances_current b"
    by (simp add: recordBalanceRereads_def)
  show ?thesis
    by (rule that [OF _ _ ext [OF counted]]) (simp_all add: parts set_bal_def delete_rows_def fun_eq_iff countTokenHolders_def rereads)
qed

lemma revert_rows_ledger:
  assumes ok: "ledger_ok c w" and hist: "history_from w \<le> n" and c: "\<And>m. 0 \<le> c m"
  shows "ledger_ok c (revert_rows n w)"
proof -
  let ?w' = "revert_rows n w"
  obtain hds where parts: "tokens ?w' = map (\<lambda>q. revert_token w n hds (tkAddress q) q) (tokens w)"
      "token_counted ?w' = (\<lambda>a. (fst (token_counted w a) - fst (doomed w n a), snd (token_counted w a) - snd (doomed w n a)))"
      "blocks ?w' = filter (\<lambda>b. bNumber b \<noteq> n) (blocks w)"
    by (rule revert_rows_tokens [OF hist]) blast
  have "0 \<le> fst (token_counted ?w' a)" "0 \<le> fst (token_counted w a)" for a
    by (simp_all add: token_counted_def)
  then have "counts_exact ?w'"
    using ok parts(2) by (auto simp: ledger_ok_def counts_exact_def tokens_on_def count_is_def parts(1) revert_token_count revert_token_address)
  moreover have "wf_blocks ?w'"
    using ok by (simp add: parts(3) ledger_ok_def wf_blocks_def distinct_map_filterI)
  ultimately show ?thesis
    using ok totals_revert_rows [where w = w and n = n, OF _ _ c] by (simp add: ledger_ok_def)
qed

lemma revert_rows_supply:
  assumes ok: "supplies_exact w" and hist: "history_from w \<le> n"
    and fits: "\<And>t. clampSupply (snd (token_counted (revert_rows n w) t)) = snd (token_counted (revert_rows n w) t)"
  shows "supplies_exact (revert_rows n w)"
proof -
  let ?w' = "revert_rows n w"
  obtain hds where parts: "tokens ?w' = map (\<lambda>q. revert_token w n hds (tkAddress q) q) (tokens w)"
      "token_counted ?w' = (\<lambda>a. (fst (token_counted w a) - fst (doomed w n a), snd (token_counted w a) - snd (doomed w n a)))"
    by (rule revert_rows_tokens [OF hist]) blast
  have fits: "clampSupply (snd (token_counted w a) - snd (doomed w n a)) = snd (token_counted w a) - snd (doomed w n a)" for a
    using fits [of a] by (simp add: parts(2))
  then show ?thesis
    using ok revert_token_supply [of _ w n]
    by (auto simp: supplies_exact_def tokens_on_def supply_is_def parts revert_token_address revert_token_type)
qed

lemma revert_rows_holders:
  assumes ok: "holders_exact w" and hist: "history_from w \<le> n" and keys: "distinct_keys (token_balances_current (bal w))"
  shows "holders_exact (revert_rows n w)"
proof -
  let ?w' = "revert_rows n w"
  obtain hds where parts: "tokens ?w' = map (\<lambda>q. revert_token w n hds (tkAddress q) q) (tokens w)"
      "hds = snd (fst (revertBalances n w))" "countTokenHolders ?w' = countTokenHolders (snd (revertBalances n w))"
    by (rule revert_rows_tokens [OF hist]) blast
  have "0 \<le> countTokenHolders v t" for v t
    by (simp add: countTokenHolders_def)
  then have "max (countTokenHolders w t + delta_for hds t) 0 = countTokenHolders ?w' t" for t
    unfolding parts(2,3) revertBalances_counts [OF keys, symmetric] by (simp add: max_absorb1)
  moreover have "0 \<le> countTokenHolders w t" for t
    by (simp add: countTokenHolders_def)
  ultimately show ?thesis
    using ok by (auto simp: holders_exact_def parts(1) revert_token_holders revert_token_address)
qed

text \<open>A revert leaves the balances consistent, and takes the daily tables as it finds them.\<close>

lemma revert_rows_wf:
  assumes "wf_balances w" and "history_from w \<le> n"
  shows "wf_balances (revert_rows n w)"
proof -
  obtain keys hds b ts ns kc tables f kc' where parts: "revertBalances n w = ((keys, hds), w\<lparr>bal := b\<rparr>)"
      "revert_rows n w = set_bal (recordBalanceRereads keys)
         (delete_rows n (w\<lparr>bal := b, tokens := ts, nft_tokens := ns, addr := tables, chain_counters := kc'\<rparr>))"
    by (rule revert_rows_parts [of n w]) blast
  have rr: "recordBalanceRereads keys b = b\<lparr>balance_reorg_epoch := balance_reorg_epoch (recordBalanceRereads keys b),
      balance_rereads := balance_rereads (recordBalanceRereads keys b)\<rparr>"
    by (simp add: recordBalanceRereads_def Let_def)
  have "wf_balances (snd (revertBalances n w))"
    using revertBalances_inv(1) assms(1) by blast
  then have "distinct_keys (token_balances_current b)" "distinct (map (\<lambda>r. (brKey r, brBlock r)) (balances b))"
    by (simp_all add: parts(1) wf_balances_def)
  then show ?thesis
    by (simp add: wf_balances_def parts(2) set_bal_def delete_rows_def)
qed

lemma daily_frame [simp]:
  "ledger_ok c (w\<lparr>daily := d\<rparr>) = ledger_ok c w" "holders_exact (w\<lparr>daily := d\<rparr>) = holders_exact w"
  "wf_balances (w\<lparr>daily := d\<rparr>) = wf_balances w" "supplies_exact (w\<lparr>daily := d\<rparr>) = supplies_exact w"
  "history_from (w\<lparr>daily := d\<rparr>) = history_from w" "bal (w\<lparr>daily := d\<rparr>) = bal w"
proof -
  have "token_counted (w\<lparr>daily := d\<rparr>) = token_counted w"
    by (rule token_counted_cong) simp_all
  then show "ledger_ok c (w\<lparr>daily := d\<rparr>) = ledger_ok c w" "supplies_exact (w\<lparr>daily := d\<rparr>) = supplies_exact w"
    by (simp_all add: ledger_ok_def wf_blocks_def totals_exact_def row_totals_def counter_def counts_exact_def supplies_exact_def tokens_on_def)
qed (simp_all add: holders_exact_def countTokenHolders_def wf_balances_def history_from_def)

text \<open>A flush of balances moves holder counts only.\<close>

lemma insert_balances_frame:
  obtains h b where "insert_balances history bs w = w\<lparr>tokens := map (\<lambda>q. q\<lparr>tkHolderCount := h q\<rparr>) (tokens w), bal := b\<rparr>"
proof -
  have step: "\<exists>b h. write_balances history kept w = w\<lparr>tokens := map (\<lambda>q. q\<lparr>tkHolderCount := h q\<rparr>) (tokens w), bal := b\<rparr>" for kept
  proof -
    obtain hist tbc ds where rows: "write_rows history kept w = (hist, tbc, ds)"
      by (cases "write_rows history kept w") auto
    show ?thesis
      unfolding write_balances_rows [OF rows] apply_holders_tokens
      by (intro exI [of _ "(bal w)\<lparr>balances := hist, token_balances_current := tbc\<rparr>"]
          exI [of _ "\<lambda>q. if tkAddress q \<in> set (touched_tokens ds) then max (tkHolderCount q + delta_for ds (tkAddress q)) 0 else tkHolderCount q"])
        (rule world.equality, simp_all)
  qed
  let ?latest = "if history then balance_reorg_epoch (bal w) else 0" and ?rr = "balance_rereads (bal w)"
  let ?kept = "filter (is_kept ?latest ?rr) (sort_balances bs)"
  show ?thesis
  proof (cases "bs = []")
    case True
    then show ?thesis
      using that [where h = tkHolderCount and b = "bal w"] by (simp add: insert_balances_def)
  next
    case bs: False
    show ?thesis
    proof (cases "?kept = []")
      case True
      then show ?thesis
        using that [where h = tkHolderCount and b = "reopenRereads (remdups (map key_of (filter (is_late ?latest) (sort_balances bs)))) ?latest (bal w)"] bs
        by (simp add: insert_balances_def Let_def set_bal_def)
    next
      case False
      obtain b h where "write_balances history ?kept w = w\<lparr>tokens := map (\<lambda>q. q\<lparr>tkHolderCount := h q\<rparr>) (tokens w), bal := b\<rparr>"
        using step by blast
      then show ?thesis
        using bs False by (intro that [where h = h]) (simp add: insert_balances_def Let_def set_bal_def)
    qed
  qed
qed

lemma insert_balances_ledger:
  assumes "ledger_ok c w"
  shows "ledger_ok c (insert_balances history bs w)"
proof -
  obtain h b where f: "insert_balances history bs w = w\<lparr>tokens := map (\<lambda>q. q\<lparr>tkHolderCount := h q\<rparr>) (tokens w), bal := b\<rparr>"
    by (rule insert_balances_frame)
  have "token_counted (w\<lparr>tokens := ts, bal := b\<rparr>) = token_counted w" for ts
    by (rule token_counted_cong) simp_all
  then show ?thesis
    using assms unfolding f
    by (simp add: ledger_ok_def wf_blocks_def totals_exact_def row_totals_def counter_def counts_exact_def tokens_on_def count_is_def)
qed

section \<open>The ledger's contract\<close>

text \<open>
  The transactions that change the ledger, in whatever order the workers commit them: a block's write, a
  flush of balances with or without the history, and a revert.  History below the pruned horizon is not
  written again.
\<close>

inductive ledger_step :: "world \<Rightarrow> world \<Rightarrow> bool" where
  wrote: "write_block data w = Inr w' \<Longrightarrow> \<forall>t \<in> set (bdTransfers data). history_from w \<le> ttBlockNumber t \<Longrightarrow> ledger_step w w'"
| flushed: "ledger_step w (insert_balances history bs w)"
| reverted: "revert_block n w = Inr w' \<Longrightarrow> history_from w \<le> n \<Longrightarrow> ledger_step w w'"

definition exact :: "(string \<Rightarrow> int) \<Rightarrow> world \<Rightarrow> bool" where
  "exact c w \<longleftrightarrow> ledger_ok c w \<and> holders_exact w \<and> wf_balances w"

lemma write_block_bal: "write_block data w = Inr w' \<Longrightarrow> bal w' = bal w"
proof (erule write_block_cases)
  fix bs txs ls ws its ds w1
  assume w1: "w1 = w\<lparr>blocks := blocks w @ bs, transactions := transactions w @ txs, logs := logs w @ ls,
      token_transfers := token_transfers w @ map transfer_row ws, internal_transactions := internal_transactions w @ its\<rparr>"
    and w': "w' = writeSharedRows data (length bs) (length txs) (length ws) ds w1"
  have "same_rows w1 w'"
    unfolding w' by (rule same_rows_writeSharedRows)
  then show ?thesis
    by (simp add: same_rows_def w1)
qed simp

lemma ledger_step_exact:
  assumes "ledger_step w w'" and "exact c w" and c: "\<And>m. 0 \<le> c m"
  shows "exact c w'"
  using assms(1)
proof cases
  case (wrote data)
  then show ?thesis
    using assms(2) write_block_ledger write_block_holders write_block_bal [OF wrote(1)] by (auto simp: exact_def wf_balances_def)
next
  case (flushed history bs)
  then show ?thesis
    using assms(2) insert_balances_wf [of w history bs] insert_balances_holders [of w history bs]
    by (simp add: exact_def insert_balances_ledger wf_balances_def)
next
  case (reverted n)
  obtain d where d: "w' = revert_rows n (w\<lparr>daily := d\<rparr>)"
    by (rule revert_block_rows [OF reverted(1)])
  have facts: "ledger_ok c (w\<lparr>daily := d\<rparr>)" "holders_exact (w\<lparr>daily := d\<rparr>)" "wf_balances (w\<lparr>daily := d\<rparr>)"
      "history_from (w\<lparr>daily := d\<rparr>) \<le> n" "distinct_keys (token_balances_current (bal (w\<lparr>daily := d\<rparr>)))"
    using assms(2) reverted(2) by (simp_all add: exact_def wf_balances_def)
  show ?thesis
    unfolding d exact_def by (intro conjI revert_rows_ledger revert_rows_holders revert_rows_wf facts c)
qed

definition sample_block :: "nat \<Rightarrow> block" where
  "sample_block n = \<lparr>bNumber = n, bHash = ''h'' @ nat_text 10 n, bParentHash = ''h'' @ nat_text 10 (n - 1), bTimestamp = n, bGasUsed = 0,
     bGasLimit = 0, bBaseFeePerGas = None, bTransactionCount = 1, bSize = 0, bDifficulty = ''0'', bTotalDifficulty = ''0'',
     bNonce = [], bMiner = [], bExtraData = [], bStateRoot = [], bTransactionsRoot = [], bReceiptsRoot = []\<rparr>"

definition sample_transfer :: "nat \<Rightarrow> nat \<Rightarrow> token_transfer" where
  "sample_transfer n i = \<lparr>ttTxHash = ''0xa'', ttLogIndex = i, ttTokenAddress = ''0xT'', ttFrom = zeroAddress, ttTo = ''0xB'', ttValue = ''7'',
     ttBlockNumber = n, ttTimestamp = None, ttTransferType = ''transfer'', ttTokenType = ''ERC20'', ttTokenID = None, ttIsInternal = False\<rparr>"

definition sample_token :: token where
  "sample_token = \<lparr>tkAddress = ''0xt'', tkSymbol = ''T'', tkName = None, tkDecimals = 18, tkTokenType = ''ERC20'', tkTotalSupply = None,
     tkHolderCount = 0, tkTransferCount = 0, tkL1Address = None, tkBlockNumber = 5, tkCreationTx = None\<rparr>"

definition sample_data :: "nat \<Rightarrow> block_data" where
  "sample_data n = \<lparr>bdBlock = Some (sample_block n), bdTransactions = [], bdLogs = [],
     bdTransfers = [sample_transfer n 0, sample_transfer n 1], bdContracts = [], bdTokens = [sample_token], bdNFTTokens = [],
     bdInternalTransactions = [], bdAddressStats = [], bdSkipAddressStats = False\<rparr>"

definition sample_flush :: "nat \<Rightarrow> balance list" where
  "sample_flush n = [\<lparr>baAddress = ''0xb'', baTokenAddress = ''0xt'', baBlockNumber = n, baBalance = 14, baEpoch = 0\<rparr>]"

lemma sample_write:
  obtains w where "write_block (sample_data 5) empty_world = Inr w" "map (\<lambda>q. (tkTransferCount q, tkTotalSupply q)) (tokens w) = [(2, Some 14)]"
    "token_transfers w = map transfer_row (bdTransfers (sample_data 5))"
proof -
  have "case write_block (sample_data 5) empty_world of Inl e \<Rightarrow> False
      | Inr w \<Rightarrow> map (\<lambda>q. (tkTransferCount q, tkTotalSupply q)) (tokens w) = [(2, Some 14)] \<and>
          token_transfers w = map transfer_row (bdTransfers (sample_data 5))"
    by code_simp
  then show ?thesis
    using that by (cases "write_block (sample_data 5) empty_world") auto
qed

text \<open>Without a watermark nothing refuses a revert.\<close>

lemma revert_block_no_watermark:
  assumes "daily_watermark (daily w) = None"
  shows "revert_block n w = Inr (revert_rows n w)"
  using assms by (simp add: revert_block_def daily_stats_invalidate_def keepDailyStatsWatermarkOnStoredBlocks_def)

lemma write_block_keeps:
  assumes "write_block data w = Inr w'"
  shows "daily w' = daily w" "history_from w' = history_from w" "pruned_counts w' = pruned_counts w"
proof -
  have "daily w' = daily w \<and> history_from w' = history_from w \<and> pruned_counts w' = pruned_counts w"
    using assms
  proof (rule write_block_cases)
    fix bs txs ls ws its ds w1
    assume w1: "w1 = w\<lparr>blocks := blocks w @ bs, transactions := transactions w @ txs, logs := logs w @ ls,
        token_transfers := token_transfers w @ map transfer_row ws, internal_transactions := internal_transactions w @ its\<rparr>"
      and w': "w' = writeSharedRows data (length bs) (length txs) (length ws) ds w1"
    have "same_rows w1 w'"
      unfolding w' by (rule same_rows_writeSharedRows)
    then show ?thesis
      by (simp add: same_rows_def w1 history_from_def)
  qed simp
  then show "daily w' = daily w" "history_from w' = history_from w" "pruned_counts w' = pruned_counts w"
    by simp_all
qed

lemma empty_world_exact: "exact (\<lambda>_. 0) empty_world" "supplies_exact empty_world" "history_from empty_world = 0"
  using empty_world_balances
  by (simp_all add: exact_def ledger_ok_def wf_blocks_def totals_exact_def row_totals_def counts_exact_def supplies_exact_def
      tokens_on_def counter_def empty_world_def history_from_def)

text \<open>C12. The ledger stays exact, whatever blocks are written, balances flushed and blocks reverted, and in
  whatever order: the totals of blocks, transactions, transfers, tokens and addresses are the rows stored on
  top of the pruned ones; every token's transfer count is the number of its transfers; every token's holder
  count is the number of its positive current balances; and no block number, no current balance and no
  balance of a block is stored twice.  This holds whatever tokens a block discovers, whichever of its rows
  were stored before, and whether a counter's row exists or a token's row is seeded only now.\<close>

theorem ledger_stays_exact:
  assumes "ledger_step\<^sup>*\<^sup>* w w'" and "exact c w" and "\<And>m. 0 \<le> c m"
  shows "exact c w'"
  using assms(1,2) by (induction rule: rtranclp_induct) (blast intro: ledger_step_exact assms(3))+

lemma ledger_stays_exact_witness:
  "\<exists>w1 w2. write_block (sample_data 5) empty_world = Inr w1 \<and> exact (\<lambda>_. 0) w1 \<and> map tkTransferCount (tokens w1) = [2] \<and>
     revert_block 5 (insert_balances True (sample_flush 5) w1) = Inr w2 \<and> exact (\<lambda>_. 0) w2 \<and> \<not> stored_number w2 5"
proof -
  obtain w1 where w1: "write_block (sample_data 5) empty_world = Inr w1"
      "map (\<lambda>q. (tkTransferCount q, tkTotalSupply q)) (tokens w1) = [(2, Some 14)]"
    by (rule sample_write)
  define v where "v = insert_balances True (sample_flush 5) w1"
  obtain h b where v: "v = w1\<lparr>tokens := map (\<lambda>q. q\<lparr>tkHolderCount := h q\<rparr>) (tokens w1), bal := b\<rparr>"
    unfolding v_def by (rule insert_balances_frame)
  have rev: "revert_block 5 v = Inr (revert_rows 5 v)" and hist: "history_from v = 0"
    using write_block_keeps [OF w1(1)] by (simp_all add: revert_block_no_watermark v empty_world_def history_from_def split: if_splits)
  have step1: "ledger_step\<^sup>*\<^sup>* empty_world w1"
    by (rule r_into_rtranclp, rule wrote [OF w1(1)]) (simp add: empty_world_exact(3))
  have "ledger_step w1 v" "ledger_step v (revert_rows 5 v)"
    unfolding v_def [symmetric] using flushed [of w1 True "sample_flush 5"] reverted [OF rev] by (simp_all add: v_def [symmetric] hist)
  then have step2: "ledger_step\<^sup>*\<^sup>* empty_world (revert_rows 5 v)"
    using step1 by (meson rtranclp.rtrancl_into_rtrancl)
  have "exact (\<lambda>_. 0) w1" "exact (\<lambda>_. 0) (revert_rows 5 v)"
    using ledger_stays_exact [OF step1 empty_world_exact(1)] ledger_stays_exact [OF step2 empty_world_exact(1)] by simp_all
  moreover have "\<not> stored_number (revert_rows 5 v) 5"
  proof -
    have "blocks (revert_rows 5 v) = filter (\<lambda>b. bNumber b \<noteq> 5) (blocks v)"
      by (rule revert_rows_tokens [of v 5]) (simp_all add: hist)
    then show ?thesis
      by (simp add: stored_number_def)
  qed
  ultimately show ?thesis
    using w1 rev by (auto simp: v_def)
qed

text \<open>C13. The supply of every ERC20 token stays what its transfers mint and burn, while it fits the column: a
  write keeps this, and so does a revert, whichever of the token's transfers are stored, and also for a token
  the block discovers, as long as no token arrives with a supply of its own and none exceeds 78 digits.\<close>

theorem supplies_stay_exact:
  assumes "supplies_exact w"
    and "\<forall>t. \<bar>snd (token_counted w' t)\<bar> \<le> numeric78Max"
    and "(write_block data w = Inr w' \<and> (\<forall>t \<in> set (bdTransfers data). history_from w \<le> ttBlockNumber t) \<and>
          (\<forall>t \<in> set (bdTokens data). tkTotalSupply t = None)) \<or>
         (revert_block n w = Inr w' \<and> history_from w \<le> n)"
  shows "supplies_exact w'"
proof -
  have fits: "clampSupply (snd (token_counted w' t)) = snd (token_counted w' t)" for t
    using assms(2) [rule_format, of t] by (auto simp: clampSupply_def)
  from assms(3) show ?thesis
  proof
    assume "write_block data w = Inr w' \<and> (\<forall>t \<in> set (bdTransfers data). history_from w \<le> ttBlockNumber t) \<and>
      (\<forall>t \<in> set (bdTokens data). tkTotalSupply t = None)"
    then show ?thesis
      using write_block_supply [OF assms(1)] fits by blast
  next
    assume rev: "revert_block n w = Inr w' \<and> history_from w \<le> n"
    then obtain d where d: "w' = revert_rows n (w\<lparr>daily := d\<rparr>)"
      using revert_block_rows by blast
    show ?thesis
      unfolding d using assms(1) rev fits unfolding d by (intro revert_rows_supply) simp_all
  qed
qed

lemma supplies_stay_exact_witness:
  "\<exists>w1. write_block (sample_data 5) empty_world = Inr w1 \<and> supplies_exact w1 \<and> map tkTotalSupply (tokens w1) = [Some 14]"
proof -
  obtain w1 where w1: "write_block (sample_data 5) empty_world = Inr w1"
      "map (\<lambda>q. (tkTransferCount q, tkTotalSupply q)) (tokens w1) = [(2, Some 14)]"
      "token_transfers w1 = map transfer_row (bdTransfers (sample_data 5))"
    by (rule sample_write)
  have rows: "\<forall>t \<in> set (token_transfers w1). transfer_supply t = 7" "length (token_transfers w1) = 2"
    unfolding w1(3) by code_simp+
  have sum: "0 \<le> (\<Sum>t \<leftarrow> filter P ts. f t) \<and> (\<Sum>t \<leftarrow> filter P ts. f t) \<le> 7 * int (length ts)"
    if "\<forall>t \<in> set ts. f t = 7" for P f and ts :: "token_transfer list"
    using that by (induction ts) auto
  have range: "0 \<le> snd (token_counted w1 t) \<and> snd (token_counted w1 t) \<le> 14" for t
    using write_block_keeps(3) [OF w1(1)] sum [OF rows(1)] rows(2) by (simp add: token_counted_def kept_transfers_def empty_world_def)
  have max: "14 \<le> numeric78Max"
    by (simp add: numeric78Max_def)
  have "\<bar>snd (token_counted w1 t)\<bar> \<le> numeric78Max" for t
    using range [of t] max by linarith
  then have "supplies_exact w1"
    using w1(1)
    by (intro supplies_stay_exact [where data = "sample_data 5" and n = 0, OF empty_world_exact(2)])
      (simp_all add: empty_world_exact(3), simp add: sample_data_def sample_token_def)
  then show ?thesis
    using w1 by auto
qed

end
