(* ===== verification/Block_Store.thy ===== *)
theory Block_Store
  imports Block_Revert
begin

text \<open>
  What the loops see of the block writer: \<open>block_at\<close> is the store as a map from numbers to blocks, and
  every operation is an update of it.  A block's rows are the other half: reverting a block
  just written gives the tables back as they were.
\<close>

section \<open>What readers see\<close>

text \<open>A write adds its block or finds it stored; it changes no other block.  A revert removes its block only.\<close>

lemma find_append: "List.find P (xs @ ys) = (case List.find P xs of None \<Rightarrow> List.find P ys | Some x \<Rightarrow> Some x)"
  by (induction xs) auto

lemma block_at_simps [simp]:
  "block_at (w\<lparr>faults := fs\<rparr>) = block_at w" "block_at (w\<lparr>calls := k\<rparr>) = block_at w"
  "block_at (w\<lparr>missing_block_ranges := rs\<rparr>) = block_at w" "block_at (w\<lparr>missing_seq := k\<rparr>) = block_at w"
  by (simp_all add: fun_eq_iff block_at_def)

lemma block_at_number: "block_at w n = Some b \<Longrightarrow> bNumber b = n"
  by (auto simp: block_at_def find_Some_iff)

lemma block_at_None: "block_at w n = None \<longleftrightarrow> \<not> stored_number w n"
  by (auto simp: block_at_def find_None_iff stored_number_def)

lemma block_at_None_eq: "block_at w n = None \<longleftrightarrow> n \<notin> set (block_numbers w)"
  by (auto simp: block_at_None stored_number_def block_numbers_def)

lemma block_at_append:
  "blocks w' = blocks w @ [b] \<Longrightarrow> block_at w (bNumber b) = None \<Longrightarrow> block_at w' = (block_at w)(bNumber b \<mapsto> b)"
  by (auto simp: fun_eq_iff block_at_def find_append split: option.split)

lemma find_filter: "List.find P (filter Q xs) = List.find (\<lambda>x. P x \<and> Q x) xs"
  by (induction xs) auto

lemma revert_block_tables:
  assumes "revert_block n w = Inr w'"
  shows "blocks w' = filter (\<lambda>b. bNumber b \<noteq> n) (blocks w)"
    "transactions w' = filter (\<lambda>t. txBlockNumber t \<noteq> n) (transactions w)"
    "logs w' = filter (\<lambda>l. lgBlockNumber l \<noteq> n) (logs w)"
    "token_transfers w' = filter (\<lambda>t. ttBlockNumber t \<noteq> n) (token_transfers w)"
    "internal_transactions w' = filter (\<lambda>t. itBlockNumber t \<noteq> n) (internal_transactions w)"
    "contracts w' = filter (\<lambda>c. coBlockNumber c \<noteq> n) (contracts w)"
    "pruned_through w' = pruned_through w" "pruned_counts w' = pruned_counts w"
proof -
  obtain d where d: "w' = revert_rows n (w\<lparr>daily := d\<rparr>)"
    by (rule revert_block_rows [OF assms])
  obtain keys b ts ns tables kc where w': "w' = set_bal (recordBalanceRereads keys)
      (delete_rows n (w\<lparr>daily := d, bal := b, tokens := ts, nft_tokens := ns, addr := tables, chain_counters := kc\<rparr>))"
    unfolding d by (rule revert_rows_parts [of n "w\<lparr>daily := d\<rparr>"]) blast
  show "blocks w' = filter (\<lambda>b. bNumber b \<noteq> n) (blocks w)"
    "transactions w' = filter (\<lambda>t. txBlockNumber t \<noteq> n) (transactions w)"
    "logs w' = filter (\<lambda>l. lgBlockNumber l \<noteq> n) (logs w)"
    "token_transfers w' = filter (\<lambda>t. ttBlockNumber t \<noteq> n) (token_transfers w)"
    "internal_transactions w' = filter (\<lambda>t. itBlockNumber t \<noteq> n) (internal_transactions w)"
    "contracts w' = filter (\<lambda>c. coBlockNumber c \<noteq> n) (contracts w)"
    "pruned_through w' = pruned_through w" "pruned_counts w' = pruned_counts w"
    unfolding w' set_bal_def delete_rows_def by simp_all
qed

lemma block_at_revert:
  assumes "revert_block n w = Inr w'"
  shows "block_at w' = (block_at w)(n := None)"
proof -
  have "List.find (\<lambda>b. bNumber b = m \<and> bNumber b \<noteq> n) xs = (if m = n then None else List.find (\<lambda>b. bNumber b = m) xs)"
    for m and xs :: "block list"
    by (induction xs) auto
  then show ?thesis
    by (auto simp: fun_eq_iff block_at_def revert_block_tables(1) [OF assms] find_filter)
qed

text \<open>
  \<open>settles w w' b\<close>: after the write of block \<open>b\<close> the block at its number is \<open>b\<close> or, written before, one of
  the same hash; or nothing is there and its hash is taken at another number.
\<close>

definition settles :: "world \<Rightarrow> world \<Rightarrow> block \<Rightarrow> bool" where
  "settles w w' b \<longleftrightarrow>
     block_at w' = (block_at w)(bNumber b \<mapsto> b) \<and> block_at w (bNumber b) = None \<or>
     block_at w' = block_at w \<and> (\<exists>c. block_at w (bNumber b) = Some c \<and> EqualFold (bHash c) (bHash b)) \<or>
     block_at w' = block_at w \<and> block_at w (bNumber b) = None \<and> (\<exists>c \<in> set (blocks w). bHash c = bHash b)"

lemma block_taken_cases:
  assumes "block_taken b w" and "storedBlockDiffers b w = None"
  shows "settles w w b"
proof (cases "block_at w (bNumber b)")
  case None
  then have "\<forall>c \<in> set (blocks w). bNumber c \<noteq> bNumber b"
    by (auto simp: block_at_None stored_number_def)
  then have "\<exists>c \<in> set (blocks w). bHash c = bHash b"
    using assms(1) by (auto simp: block_taken_def)
  then show ?thesis
    using None by (simp add: settles_def)
next
  case (Some c)
  then show ?thesis
    using assms(2) by (auto simp: settles_def storedBlockDiffers_def split: if_splits)
qed

lemma not_taken_free: "\<not> block_taken b w \<Longrightarrow> block_at w (bNumber b) = None"
  by (auto simp: block_at_None stored_number_def block_taken_def)

lemma insert_block_settles: "insert_block b w = Inr w' \<Longrightarrow> settles w w' b"
proof (cases "block_taken b w")
  case True
  then show "insert_block b w = Inr w' \<Longrightarrow> settles w w' b"
    using block_taken_cases by (auto simp: insert_block_def split: option.splits)
next
  case False
  then have "block_at (bump ''blocks_total'' 1 (w\<lparr>blocks := blocks w @ [b]\<rparr>)) = (block_at w)(bNumber b \<mapsto> b)"
    by (intro block_at_append not_taken_free) (simp add: bump_def)
  then show "insert_block b w = Inr w' \<Longrightarrow> settles w w' b"
    using False not_taken_free by (auto simp: insert_block_def settles_def)
qed

lemma write_block_settles:
  assumes run: "write_block data w = Inr w'" and b: "bdBlock data = Some b"
  shows "settles w w' b"
proof (cases "block_taken b w")
  case True
  then have "w' = w" "storedBlockDiffers b w = None"
    using run b by (auto simp: write_block_def BeginBlockData_def Finish_def split: option.splits)
  then show ?thesis
    using block_taken_cases [OF True] by simp
next
  case False
  then obtain bw v where bg: "begin_rows data 1 (w\<lparr>blocks := blocks w @ [b]\<rparr>) = Inr (bw, v)" "w' = Finish bw v"
    using run b by (auto simp: write_block_def BeginBlockData_def split: sum.splits)
  obtain n m ds where "bw = Open data 1 n m ds" "blocks v = blocks w @ [b]"
    by (rule begin_rows_adds [OF bg(1)]) auto
  then have "blocks w' = blocks w @ [b]"
    using bg(2) same_rows_writeSharedRows [of v data] by (simp add: Finish_def same_rows_def)
  then have "block_at w' = (block_at w)(bNumber b \<mapsto> b)"
    by (intro block_at_append not_taken_free [OF False]) simp
  then show ?thesis
    using not_taken_free [OF False] by (simp add: settles_def)
qed

section \<open>A block's rows\<close>

text \<open>What a write adds, it adds at the end; and every row of it carries the block's number.\<close>

definition rows_of :: "u64 \<Rightarrow> block_data \<Rightarrow> bool" where
  "rows_of n data \<longleftrightarrow>
     (\<forall>b. bdBlock data = Some b \<longrightarrow> bNumber b = n) \<and> (\<forall>t \<in> set (bdTransactions data). txBlockNumber t = n) \<and>
     (\<forall>l \<in> set (bdLogs data). lgBlockNumber l = n) \<and> (\<forall>t \<in> set (bdTransfers data). ttBlockNumber t = n) \<and>
     (\<forall>t \<in> set (bdInternalTransactions data). itBlockNumber t = n) \<and> (\<forall>c \<in> set (bdContracts data). coBlockNumber c = n)"

definition no_rows :: "u64 \<Rightarrow> world \<Rightarrow> bool" where
  "no_rows n w \<longleftrightarrow>
     (\<forall>b \<in> set (blocks w). bNumber b \<noteq> n) \<and> (\<forall>t \<in> set (transactions w). txBlockNumber t \<noteq> n) \<and>
     (\<forall>l \<in> set (logs w). lgBlockNumber l \<noteq> n) \<and> (\<forall>t \<in> set (token_transfers w). ttBlockNumber t \<noteq> n) \<and>
     (\<forall>t \<in> set (internal_transactions w). itBlockNumber t \<noteq> n) \<and> (\<forall>c \<in> set (contracts w). coBlockNumber c \<noteq> n)"

definition same_tables :: "world \<Rightarrow> world \<Rightarrow> bool" where
  "same_tables w w' \<longleftrightarrow>
     blocks w' = blocks w \<and> transactions w' = transactions w \<and> logs w' = logs w \<and> token_transfers w' = token_transfers w \<and>
     internal_transactions w' = internal_transactions w \<and> contracts w' = contracts w"

lemma same_tables_refl [simp]: "same_tables w w"
  by (simp add: same_tables_def)

lemma insert_transactions_rows:
  assumes "\<forall>t \<in> set txs. txBlockNumber t = n"
  shows "\<exists>rows. transactions (snd (insert_transactions ts trs txs w)) = transactions w @ rows \<and> (\<forall>t \<in> set rows. txBlockNumber t = n)"
  using assms
proof (induction ts trs txs w rule: insert_transactions.induct)
  case (2 ts trs t txs w)
  let ?row = "t\<lparr>txBlockTimestamp := ts, txFrom := ToLower (txFrom t), txTo := map_option ToLower (txTo t),
                 txCategories := computeTxCategories t (txHash t \<in> buildTokenTransferTxSet trs)\<rparr>"
  show ?case
  proof (cases "\<exists>q \<in> set (transactions w). txHash q = txHash t \<and> partition_of w (txBlockNumber q) = partition_of w (txBlockNumber t)")
    case True
    then show ?thesis
      using 2 by (simp add: Let_def)
  next
    case False
    obtain rows where "transactions (snd (insert_transactions ts trs txs (w\<lparr>transactions := transactions w @ [?row]\<rparr>))) =
        (transactions w @ [?row]) @ rows" "\<forall>t \<in> set rows. txBlockNumber t = n"
      using 2(2) [OF refl False] 2(3) by auto
    then show ?thesis
      using False 2(3) by (intro exI [of _ "?row # rows"]) (auto simp: Let_def case_prod_beta)
  qed
qed simp

lemma insert_logs_rows:
  assumes "\<forall>l \<in> set ls. lgBlockNumber l = n"
  shows "\<exists>rows. logs (snd (insert_logs ls w)) = logs w @ rows \<and> (\<forall>l \<in> set rows. lgBlockNumber l = n)"
  using assms
proof (induction ls w rule: insert_logs.induct)
  case (2 l ls w)
  let ?row = "l\<lparr>lgAddress := ToLower (lgAddress l)\<rparr>"
  show ?case
  proof (cases "\<exists>q \<in> set (logs w). lgBlockNumber q = lgBlockNumber l \<and> lgLogIndex q = lgLogIndex l")
    case True
    then show ?thesis
      using 2 by (simp add: case_prod_beta)
  next
    case False
    obtain rows where "logs (snd (insert_logs ls (w\<lparr>logs := logs w @ [?row]\<rparr>))) = (logs w @ [?row]) @ rows"
        "\<forall>l \<in> set rows. lgBlockNumber l = n"
      using 2(2) [OF False] 2(3) by auto
    then show ?thesis
      using False 2(3) by (intro exI [of _ "?row # rows"]) auto
  qed
qed simp

lemma insert_internal_rows:
  assumes "\<forall>t \<in> set ts. itBlockNumber t = n"
  shows "\<exists>rows. internal_transactions (insert_internal ts w) = internal_transactions w @ rows \<and> (\<forall>t \<in> set rows. itBlockNumber t = n)"
  using assms
proof (induction ts w rule: insert_internal.induct)
  case (2 t ts w)
  let ?row = "t\<lparr>itFrom := ToLower (itFrom t), itTo := map_option ToLower (itTo t)\<rparr>"
  show ?case
  proof (cases "\<exists>q \<in> set (internal_transactions w). itTxHash q = itTxHash t \<and> itTraceAddress q = itTraceAddress t \<and>
           partition_of w (itBlockNumber q) = partition_of w (itBlockNumber t)")
    case True
    then show ?thesis
      using 2 by simp
  next
    case False
    obtain rows where "internal_transactions (insert_internal ts (w\<lparr>internal_transactions := internal_transactions w @ [?row]\<rparr>)) =
        (internal_transactions w @ [?row]) @ rows" "\<forall>t \<in> set rows. itBlockNumber t = n"
      using 2(2) [OF False] 2(3) by auto
    then show ?thesis
      using False 2(3) by (intro exI [of _ "?row # rows"]) auto
  qed
qed simp

lemma write_contracts_rows:
  assumes "\<forall>c \<in> set cs. coBlockNumber c = n"
  shows "\<exists>rows. contracts (write_contracts cs w) = contracts w @ rows \<and> (\<forall>c \<in> set rows. coBlockNumber c = n)"
proof -
  have "\<exists>rows. contracts (fold (insert_contract cs) as w) = contracts w @ rows \<and> (\<forall>c \<in> set rows. coBlockNumber c = n)" for as
  proof (induction as arbitrary: w)
    case (Cons a as)
    have "\<exists>rows. contracts (insert_contract cs a w) = contracts w @ rows \<and> (\<forall>c \<in> set rows. coBlockNumber c = n)"
      using assms by (auto simp: insert_contract_def first_of_address_def find_Some_iff split: option.split)
    then obtain r1 where "contracts (insert_contract cs a w) = contracts w @ r1" "\<forall>c \<in> set r1. coBlockNumber c = n"
      by blast
    moreover obtain r2 where "contracts (fold (insert_contract cs) as (insert_contract cs a w)) = contracts (insert_contract cs a w) @ r2"
        "\<forall>c \<in> set r2. coBlockNumber c = n"
      using Cons by blast
    ultimately show ?case
      by (intro exI [of _ "r1 @ r2"]) auto
  qed simp
  then show ?thesis
    by (simp add: write_contracts_def)
qed

text \<open>The shared rows: contracts are appended, the block's own tables stay.\<close>

definition side_rows :: "world \<Rightarrow> contract list \<times> log_row list \<times> internal_transaction list" where
  "side_rows w = (contracts w, logs w, internal_transactions w)"

lemma side_rows_tokens: "\<exists>rows. w' = w\<lparr>tokens := rows\<rparr> \<Longrightarrow> side_rows w' = side_rows w"
  by (auto simp: side_rows_def)

lemma side_rows_nfts: "side_rows (write_nfts ns w) = side_rows w"
proof -
  have "side_rows (fold upsert_nft ms v) = side_rows v" for ms v
    by (induction ms arbitrary: v) (auto simp: upsert_nft_def side_rows_def)
  then show ?thesis
    by (simp add: write_nfts_def)
qed

lemma side_rows_bump_all: "side_rows (bump_all a b c d e w) = side_rows w"
  using bump_all_frame [of a b c d e w] by (auto simp: side_rows_def)

lemma side_rows_addresses: "write_address_stats skip ds w = (n, w') \<Longrightarrow> side_rows w' = side_rows w"
  by (auto simp: write_address_stats_def side_rows_def split: if_splits prod.splits)

lemma side_rows_shared: "side_rows (writeSharedRows data a b c ds w) = side_rows (write_contracts (bdContracts data) w)"
proof -
  let ?w1 = "write_contracts (bdContracts data) w"
  obtain seeds w2 where up: "upsert_tokens (sort_key (ToLower \<circ> tkAddress) (bdTokens data)) ?w1 = (seeds, w2)"
    by fastforce
  let ?w5 = "fold apply_delta (sort_key fst (filter (\<lambda>(t, _). t \<notin> set seeds) ds)) (write_nfts (bdNFTTokens data) (fold seed_token seeds w2))"
  obtain na w6 where st: "write_address_stats (bdSkipAddressStats data) (bdAddressStats data) ?w5 = (na, w6)"
    by fastforce
  have "side_rows w6 = side_rows ?w5"
    by (rule side_rows_addresses [OF st])
  also have "\<dots> = side_rows (fold seed_token seeds w2)"
    by (simp add: side_rows_tokens [OF token_rowsD [OF token_rows_fold [OF token_rows_apply]]] side_rows_nfts)
  also have "\<dots> = side_rows ?w1"
    using side_rows_tokens [OF upsert_tokens_frame [OF up]]
    by (simp add: side_rows_tokens [OF token_rowsD [OF token_rows_fold [OF token_rows_seed]]])
  finally show ?thesis
    by (simp add: writeSharedRows_def up Let_def st side_rows_bump_all)
qed

lemma side_rows_contracts:
  "logs (write_contracts cs w) = logs w" "internal_transactions (write_contracts cs w) = internal_transactions w"
proof -
  have "logs (fold (insert_contract cs) as v) = logs v \<and> internal_transactions (fold (insert_contract cs) as v) = internal_transactions v" for as v
    by (induction as arbitrary: v) (auto simp: insert_contract_def split: option.split)
  then show "logs (write_contracts cs w) = logs w" "internal_transactions (write_contracts cs w) = internal_transactions w"
    by (simp_all add: write_contracts_def)
qed

text \<open>\<open>adds f n w w'\<close>: the table gained rows of block \<open>n\<close> at its end.\<close>

definition adds :: "('r \<Rightarrow> u64) \<Rightarrow> u64 \<Rightarrow> 'r list \<Rightarrow> 'r list \<Rightarrow> bool" where
  "adds f n rs rs' \<longleftrightarrow> (\<exists>new. rs' = rs @ new \<and> (\<forall>r \<in> set new. f r = n))"

lemma adds_refl [simp]: "adds f n rs rs"
  by (simp add: adds_def)

lemma adds_filter: "adds f n rs rs' \<Longrightarrow> \<forall>r \<in> set rs. f r \<noteq> n \<Longrightarrow> filter (\<lambda>r. f r \<noteq> n) rs' = rs"
  by (auto simp: adds_def filter_id_conv)

lemma write_block_adds:
  assumes run: "write_block data w = Inr w'" and rows: "rows_of n data"
  shows "adds bNumber n (blocks w) (blocks w') \<and> adds txBlockNumber n (transactions w) (transactions w') \<and>
    adds lgBlockNumber n (logs w) (logs w') \<and> adds ttBlockNumber n (token_transfers w) (token_transfers w') \<and>
    adds itBlockNumber n (internal_transactions w) (internal_transactions w') \<and> adds coBlockNumber n (contracts w) (contracts w')"
proof -
  consider (stored) "w' = w" | (written) bs k bw v where "begin_rows data k (w\<lparr>blocks := blocks w @ bs\<rparr>) = Inr (bw, v)" "w' = Finish bw v"
      "\<forall>b \<in> set bs. bNumber b = n"
  proof (cases "bdBlock data")
    case None
    then show ?thesis
      using run written [of 0 "[]"] by (auto simp: write_block_def BeginBlockData_def split: sum.splits)
  next
    case (Some b)
    moreover have "bNumber b = n"
      using rows Some by (simp add: rows_of_def)
    ultimately show ?thesis
      using run stored written [of 1 "[b]"]
      by (auto simp: write_block_def BeginBlockData_def Finish_def split: sum.splits if_splits option.splits)
  qed
  then show ?thesis
  proof cases
    case written
    let ?v = "w\<lparr>blocks := blocks w @ bs\<rparr>"
    obtain m w1 cl w2 ct ws w3 ds where tx:
        "insert_transactions (map_option bTimestamp (bdBlock data)) (bdTransfers data) (bdTransactions data) ?v = (m, w1)"
      and lg: "insert_logs (bdLogs data) w1 = (cl, w2)" and tr: "insert_transfers (bdTransfers data) w2 = (ct, ws, w3)"
        "bw = Open data k m (length ws) ds" "count_transfers ws [] = Inr ds" and v: "v = insert_internal (bdInternalTransactions data) w3"
      by (rule begin_rows_parts [OF written(1)]) (rule that)
    have w1: "\<exists>txs. w1 = ?v\<lparr>transactions := transactions w @ txs\<rparr>"
      using insert_transactions_frame [OF tx] by auto
    have a1: "adds txBlockNumber n (transactions w) (transactions w1)"
      using insert_transactions_rows [of "bdTransactions data" n "map_option bTimestamp (bdBlock data)" "bdTransfers data" ?v] rows
      by (simp add: tx rows_of_def adds_def)
    have w2: "\<exists>ls. w2 = w1\<lparr>logs := ls\<rparr>" and a2: "adds lgBlockNumber n (logs w1) (logs w2)"
      using insert_logs_frame [OF lg] insert_logs_rows [of "bdLogs data" n w1] rows lg by (auto simp: rows_of_def adds_def)
    have w3: "\<exists>ts. w3 = w2\<lparr>token_transfers := ts\<rparr>" and a3: "adds ttBlockNumber n (token_transfers w2) (token_transfers w3)"
      using insert_transfers_frame [OF tr(1)] rows by (auto simp: rows_of_def adds_def transfer_row_def)
    have w4: "\<exists>ts. v = w3\<lparr>internal_transactions := ts\<rparr>"
      using insert_internal_frame [of "bdInternalTransactions data" w3] unfolding v by blast
    have a4: "adds itBlockNumber n (internal_transactions w3) (internal_transactions v)"
      using insert_internal_rows [of "bdInternalTransactions data" n w3] rows unfolding v rows_of_def adds_def by simp
    have w': "same_rows v w'" "side_rows w' = side_rows (write_contracts (bdContracts data) v)"
      using written(2) tr(2) same_rows_writeSharedRows side_rows_shared by (simp_all add: Finish_def)
    have "adds coBlockNumber n (contracts v) (contracts w')"
      using write_contracts_rows [of "bdContracts data" n v] rows w'(2) by (auto simp: rows_of_def adds_def side_rows_def)
    moreover have "logs w' = logs v" "internal_transactions w' = internal_transactions v"
      using w'(2) by (simp_all add: side_rows_def side_rows_contracts)
    ultimately show ?thesis
      using w1 w2 w3 w4 a1 a2 a3 a4 w'(1) written(3) by (auto simp: same_rows_def) (auto simp: adds_def)
  qed simp
qed

text \<open>Reverting a block just written gives the six tables back.\<close>

lemma revert_undoes_rows:
  assumes "write_block data w = Inr w'" and "rows_of n data" and "no_rows n w" and "revert_block n w' = Inr w''"
  shows "same_tables w w''"
  using write_block_adds [OF assms(1,2)] assms(3)
  by (simp add: same_tables_def revert_block_tables [OF assms(4)] no_rows_def adds_filter)

section \<open>The writer's contract\<close>

lemma revert_block_ledger:
  assumes "ledger_ok c w" and "revert_block n w = Inr w'" and "history_from w \<le> n" and c: "\<And>m. 0 \<le> c m"
  shows "ledger_ok c w'"
proof -
  obtain d where d: "w' = revert_rows n (w\<lparr>daily := d\<rparr>)"
    by (rule revert_block_rows [OF assms(2)])
  show ?thesis
    unfolding d by (rule revert_rows_ledger) (use assms in simp_all)
qed

lemma write_block_again:
  assumes run: "write_block data w = Inr w'" and b: "bdBlock data = Some b"
  shows "write_block data w' = Inr w'"
  using run
proof (cases rule: write_block_cases)
  case (written bs txs ls ws its ds w1)
  then have taken: "block_taken b w'" and free: "block_at w (bNumber b) = None" and bs: "blocks w' = blocks w @ [b]"
    using b same_rows_writeSharedRows [of w1 data] by (auto simp: same_rows_def block_taken_def not_taken_free)
  have "block_at w' (bNumber b) = Some b"
    using block_at_append [OF bs free] by simp
  then have "storedBlockDiffers b w' = None"
    by (simp add: storedBlockDiffers_def EqualFold_def)
  then show ?thesis
    using taken b by (simp add: write_block_def BeginBlockData_def Finish_def)
qed (use run in simp)

text \<open>C14. Reverting a block that was just written restores the database: the blocks, transactions, logs, token
  transfers, internal transactions and contracts are the rows there were, the totals of blocks, transactions
  and transfers are back, and every token that was there has its old transfer count.\<close>

theorem revert_undoes_write:
  assumes "write_block data w = Inr w'" and "revert_block n w' = Inr w''" and "rows_of n data" and "no_rows n w"
    and "ledger_ok c w" "\<And>m. 0 \<le> c m" and "history_from w \<le> n"
  shows "same_tables w w'' \<and>
    (\<forall>name \<in> {''blocks_total'', ''transactions_total'', ''transfers_total''}. counter w'' name = counter w name) \<and>
    (\<forall>t \<in> set (tokens w). \<forall>t' \<in> set (tokens w''). tkAddress t' = tkAddress t \<longrightarrow> tkTransferCount t' = tkTransferCount t)"
proof -
  have tables: "same_tables w w''"
    by (rule revert_undoes_rows) (use assms in simp_all)
  have "ledger_ok c w'"
    by (rule write_block_ledger) (use assms in \<open>auto simp: rows_of_def\<close>)
  then have ok: "ledger_ok c w''"
    using revert_block_ledger [OF _ assms(2) _ assms(6)] write_block_keeps(2) [OF assms(1)] assms(7) by simp
  have "pruned_through w' = pruned_through w \<and> pruned_counts w' = pruned_counts w"
    using assms(1) by (cases rule: write_block_cases) (use same_rows_writeSharedRows in \<open>auto simp: same_rows_def\<close>)
  then have counted: "token_counted w'' = token_counted w"
    using tables by (intro token_counted_cong) (simp_all add: same_tables_def revert_block_tables(7,8) [OF assms(2)])
  have totals: "totals_exact c w" "totals_exact c w''" and counts: "counts_exact w" "counts_exact w''"
    using assms(5) ok by (simp_all add: ledger_ok_def)
  have "counter w'' name = counter w name" if "name \<in> {''blocks_total'', ''transactions_total'', ''transfers_total''}" for name
    using totals tables that by (auto simp: totals_exact_def row_totals_def same_tables_def)
  moreover have "tkTransferCount t' = tkTransferCount t"
    if "t \<in> set (tokens w)" "t' \<in> set (tokens w'')" "tkAddress t' = tkAddress t" for t t'
    using counts that by (simp add: counts_exact_def tokens_on_def count_is_def counted)
  ultimately show ?thesis
    using tables by blast
qed

lemma revert_undoes_write_witness:
  "\<exists>w' w''. write_block (sample_data 5) empty_world = Inr w' \<and> token_transfers w' \<noteq> [] \<and> revert_block 5 w' = Inr w'' \<and>
     same_tables empty_world w'' \<and> counter w'' ''transfers_total'' = 0"
proof -
  have rows: "rows_of 5 (sample_data 5)" "no_rows 5 empty_world"
    by (simp_all add: rows_of_def no_rows_def sample_data_def sample_block_def sample_transfer_def empty_world_def)
  have zero: "counter empty_world ''transfers_total'' = 0" "ledger_ok (\<lambda>_. 0) empty_world"
    using empty_world_exact(1) by (simp_all add: counter_def empty_world_def exact_def)
  obtain w' where w': "write_block (sample_data 5) empty_world = Inr w'" "token_transfers w' = map transfer_row (bdTransfers (sample_data 5))"
    by (rule sample_write)
  have rev: "revert_block 5 w' = Inr (revert_rows 5 w')"
    using write_block_keeps(1) [OF w'(1)] by (intro revert_block_no_watermark) (simp add: empty_world_def)
  have "same_tables empty_world (revert_rows 5 w') \<and> counter (revert_rows 5 w') ''transfers_total'' = 0"
    using revert_undoes_write [OF w'(1) rev rows zero(2)] zero(1) empty_world_exact(3) by simp
  then show ?thesis
    using w' rev by (auto simp: sample_data_def)
qed

text \<open>C15. A block's write can be repeated, as the loops do after a lost acknowledgement: the second run
  succeeds and changes nothing, and after the first the number holds that block or one of the same hash,
  unless its hash was taken at another number.\<close>

theorem write_block_idempotent:
  assumes "write_block data w = Inr w'" and "bdBlock data = Some b"
  shows "write_block data w' = Inr w' \<and> settles w w' b"
  using assms write_block_again write_block_settles by blast

lemma write_block_idempotent_witness:
  "\<exists>w'. write_block (sample_data 5) empty_world = Inr w' \<and> write_block (sample_data 5) w' = Inr w'"
  by (rule sample_write) (use write_block_idempotent [of "sample_data 5" empty_world _ "sample_block 5"] in \<open>auto simp: sample_data_def\<close>)

end
