(* ===== verification/Block_Builder.thy ===== *)
theory Block_Builder
  imports Node_Reads Block_Store
begin

text \<open>
  Turning a block and its receipts into rows: \<open>buildBlock\<close> of \<open>internal/indexer/indexer.go\<close> with
  \<open>internal_creations.go\<close> and the caches of \<open>token_cache.go\<close>, what happens once the rows are committed
  (\<open>afterCommit\<close>), and the functions that read, build and write one block.

  \<open>buildBlock\<close> fills a record (\<open>building\<close>) transaction by transaction and log by log, as the code does.
  The map of address deltas is a list with one entry per lower-case address.  Not part of the model:
  metrics, log lines, the event bus and the schedule of the daily statistics.
\<close>

section \<open>Configuration and results\<close>

record builder_config =
  SkipReceiptTxTypes :: "nat list"
  SkipAddressStats :: bool
  CountersOnly :: bool
  StrictTraces :: bool
  CodeAtBlock :: bool
  SkipTraceRefusals :: bool
  tracingSupported :: bool

record building =
  buTransactions :: "transaction list"
  buLogs :: "log_row list"
  buTransfers :: "token_transfer list"
  buContracts :: "contract list"
  buNFTTokens :: "nft_token list"
  buAddressStats :: "address_delta list"
  buAddressTxs :: "(string \<times> nat) list"
  buNewTokens :: "(bytes \<times> string) list"
  buBalanceWork :: "balance_work list"
  buNftURIs :: "(bytes \<times> nat \<times> nat) list"
  buCodeErr :: bool

record built_block =
  bbData :: block_data
  bbBalanceWork :: "balance_work list"
  bbDiscovered :: "string list"
  bbNumber :: u64
  bbTimestamp :: u64
  bbTracesErr :: "rpc_error option"
  bbCodeErr :: bool

section \<open>Addresses\<close>

definition addressDelta :: "u64 \<Rightarrow> string \<Rightarrow> (address_delta \<Rightarrow> address_delta) \<Rightarrow> address_delta list \<Rightarrow> address_delta list" where
  "addressDelta number address f stats =
     (let key = ToLower address in
      if \<exists>d \<in> set stats. adAddress d = key then map (\<lambda>d. if adAddress d = key then f d else d) stats
      else stats @ [f \<lparr>adAddress = key, adTxCount = 0, adInternalTxCount = 0, adTokenTransfer = 0, adSent = 0,
                       adIsContract = False, adLastBlock = 0, adBlockNumber = number\<rparr>])"

definition touchAddressTx :: "u64 \<Rightarrow> nat \<Rightarrow> string \<Rightarrow> (address_delta \<Rightarrow> address_delta) \<Rightarrow> building \<Rightarrow> building" where
  "touchAddressTx number idx address f b =
     b\<lparr>buAddressStats := addressDelta number address f (buAddressStats b),
       buAddressTxs := List.insert (ToLower address, idx) (buAddressTxs b)\<rparr>"

definition countTransferParticipant :: "(bytes \<Rightarrow> string) \<Rightarrow> u64 \<Rightarrow> nat \<Rightarrow> bytes \<Rightarrow> building \<Rightarrow> building" where
  "countTransferParticipant hex number idx a b =
     (if a = zero_Address then b
      else touchAddressTx number idx (hex a) (\<lambda>d. d\<lparr>adTokenTransfer := adTokenTransfer d + 1\<rparr>) b)"

definition cache_Has :: "string list \<Rightarrow> string \<Rightarrow> bool" where
  "cache_Has cache address \<longleftrightarrow> ToLower address \<in> set cache"

definition cache_Add :: "string \<Rightarrow> string list \<Rightarrow> string list" where
  "cache_Add address cache = List.insert (ToLower address) cache"

section \<open>The block's row and its transactions\<close>

definition raw_block_row :: "(bytes \<Rightarrow> string) \<Rightarrow> raw_block \<Rightarrow> block" where
  "raw_block_row hex raw = \<lparr>
     bNumber = NumberU64 raw, bHash = Hash_Hex (rbHash raw), bParentHash = Hash_Hex (rbParentHash raw),
     bTimestamp = rbTimestamp raw, bGasUsed = rbGasUsed raw, bGasLimit = rbGasLimit raw, bBaseFeePerGas = BaseFeeU64 raw,
     bTransactionCount = length (rbTransactions raw), bSize = rbSize raw, bDifficulty = DifficultyString raw,
     bTotalDifficulty = TotalDifficultyString raw, bNonce = NonceHex raw, bMiner = hex (rbMiner raw),
     bExtraData = Bytes2Hex (rbExtraData raw), bStateRoot = Hash_Hex (rbStateRoot raw),
     bTransactionsRoot = Hash_Hex (rbTransactionsRoot raw), bReceiptsRoot = Hash_Hex (rbReceiptsRoot raw)\<rparr>"

definition receiptTxHashes :: "builder_config \<Rightarrow> raw_block \<Rightarrow> bytes list" where
  "receiptTxHashes cfg raw = map rtHash (filter (\<lambda>t. rtType t \<notin> set (SkipReceiptTxTypes cfg)) (rbTransactions raw))"

definition transaction_of :: "(bytes \<Rightarrow> string) \<Rightarrow> u64 \<Rightarrow> nat \<Rightarrow> raw_transaction \<Rightarrow> receipt option \<Rightarrow> transaction" where
  "transaction_of hex number idx t receipt = \<lparr>
     txHash = Hash_Hex (rtHash t), txBlockNumber = number, txBlockTimestamp = None, txIndex = idx, txFrom = hex (rtFrom t),
     txTo = map_option hex (rtTo t), txValue = (case rtValue t of None \<Rightarrow> ''0'' | Some v \<Rightarrow> int_text 10 v),
     txGasUsed = (case receipt of None \<Rightarrow> rtGas t | Some r \<Rightarrow> rcGasUsed r),
     txGasPrice = (case rtGasPrice t of None \<Rightarrow> 0 | Some p \<Rightarrow> big_Uint64 p), txGasLimit = Some (rtGas t),
     txMaxFeePerGas = map_option big_Uint64 (rtMaxFeePerGas t),
     txMaxPriorityFeePerGas = map_option big_Uint64 (rtMaxPriorityFeePerGas t),
     txNonce = Some (case rtNonce t of None \<Rightarrow> 0 | Some n \<Rightarrow> n), txType = rtType t,
     txInputData = (if rtInput t = [] then [] else Bytes2Hex (rtInput t)),
     txStatus = (case receipt of None \<Rightarrow> 1 | Some r \<Rightarrow> rcStatus r),
     txError = (case receipt of None \<Rightarrow> None | Some r \<Rightarrow> if rcStatus r = 0 then Some ''transaction reverted'' else None),
     txRevertReason = None, txCategories = 0\<rparr>"

definition touch_parties :: "(bytes \<Rightarrow> string) \<Rightarrow> string list \<Rightarrow> u64 \<Rightarrow> nat \<Rightarrow> raw_transaction \<Rightarrow> building \<Rightarrow> building" where
  "touch_parties hex known number idx t b =
     (let b1 = touchAddressTx number idx (hex (rtFrom t))
                 (\<lambda>d. if bumps_nonce (rtType t) then d\<lparr>adSent := adSent d + 1\<rparr> else d) b
      in case rtTo t of
           None \<Rightarrow> b1
         | Some to \<Rightarrow> touchAddressTx number idx (hex to) (\<lambda>d. d\<lparr>adIsContract := adIsContract d \<or> cache_Has known (hex to)\<rparr>) b1)"

section \<open>Contracts\<close>

text \<open>\<open>contractCode\<close>: the code a creation is judged by; \<open>None\<close> is an error.\<close>

definition GetCode :: "bytes \<Rightarrow> (world, bytes option) state" where
  "GetCode a = do {
     r \<leftarrow> run_call (\<lambda>nd k. nodeCode nd k a None);
     State_Monad.return (case r of Inl e \<Rightarrow> None | Inr code \<Rightarrow> Some code)
   }"

definition contractCode :: "builder_config \<Rightarrow> bytes \<Rightarrow> u64 \<Rightarrow> (world, bytes option) state" where
  "contractCode cfg a number =
     (if \<not> CodeAtBlock cfg then GetCode a
      else do {
        r \<leftarrow> run_call (\<lambda>nd k. nodeCode nd k a (Some number));
        case r of
          Inr code \<Rightarrow> State_Monad.return (Some code)
        | Inl e \<Rightarrow>
            if \<not> NodeRefused e then State_Monad.return None
            else do {
              latest \<leftarrow> GetCode a;
              State_Monad.return (case latest of None \<Rightarrow> None | Some code \<Rightarrow> if code = [] then None else Some code)
            }
      })"

definition code_failed :: "builder_config \<Rightarrow> bytes option \<Rightarrow> building \<Rightarrow> building" where
  "code_failed cfg code b = b\<lparr>buCodeErr := buCodeErr b \<or> (code = None \<and> CodeAtBlock cfg)\<rparr>"

definition add_contract :: "u64 \<Rightarrow> contract \<Rightarrow> building \<Rightarrow> building" where
  "add_contract number c b =
     b\<lparr>buContracts := buContracts b @ [c],
       buAddressStats := addressDelta number (coAddress c) (\<lambda>d. d\<lparr>adIsContract := True\<rparr>) (buAddressStats b)\<rparr>"

definition remember_contract :: "string \<Rightarrow> (world, unit) state" where
  "remember_contract a = State_Monad.update (\<lambda>w. w\<lparr>contract_cache := cache_Add a (contract_cache w)\<rparr>)"

definition code_hash :: "string \<Rightarrow> string" where
  "code_hash code = Hash_Hex (BytesToHash (FromHex code))"

definition created_contract ::
    "builder_config \<Rightarrow> (bytes \<Rightarrow> string) \<Rightarrow> u64 \<Rightarrow> raw_transaction \<Rightarrow> receipt option \<Rightarrow> building \<Rightarrow> (world, building) state" where
  "created_contract cfg hex number t receipt b =
     (case receipt of
        None \<Rightarrow> State_Monad.return b
      | Some r \<Rightarrow>
          if rtTo t = None \<and> rcContractAddress r \<noteq> zero_Address \<and> rcStatus r \<noteq> 0
          then do {
            code \<leftarrow> contractCode cfg (rcContractAddress r) number;
            let b1 = code_failed cfg code b;
            case code of
              None \<Rightarrow> State_Monad.return b1
            | Some bytecode \<Rightarrow>
                if bytecode = [] then State_Monad.return b1
                else do {
                  remember_contract (hex (rcContractAddress r));
                  State_Monad.return (add_contract number
                    \<lparr>coAddress = hex (rcContractAddress r), coBytecode = Bytes2Hex bytecode,
                     coBytecodeHash = Some (code_hash (Bytes2Hex bytecode)), coCreator = hex (rtFrom t),
                     coCreationTx = Hash_Hex (rtHash t), coBlockNumber = number\<rparr> b1)
                }
          }
          else State_Monad.return b)"

section \<open>Logs and transfers\<close>

definition transferTopic :: bytes where
  "transferTopic = HexToHash ''0xddf252ad1be2c89b69c2b068fc378daa952ba7f163c4a11628f55a4df523b3ef''"

definition log_of :: "(bytes \<Rightarrow> string) \<Rightarrow> u64 \<Rightarrow> u64 \<Rightarrow> raw_transaction \<Rightarrow> log_entry \<Rightarrow> log_row" where
  "log_of hex number ts t l = \<lparr>
     lgTxHash = Hash_Hex (rtHash t), lgLogIndex = leIndex l, lgAddress = hex (leAddress l),
     lgTopics = map Hash_Hex (take 4 (leTopics l)), lgData = Bytes2Hex (leData l), lgBlockNumber = number,
     lgTimestamp = Some ts, lgRemoved = leRemoved l\<rparr>"

definition is_transfer :: "log_entry \<Rightarrow> bool" where
  "is_transfer l \<longleftrightarrow> 3 \<le> length (leTopics l) \<and> leTopics l ! 0 = transferTopic"

definition transfer_from :: "log_entry \<Rightarrow> bytes" where
  "transfer_from l = BytesToAddress (leTopics l ! 1)"

definition transfer_to :: "log_entry \<Rightarrow> bytes" where
  "transfer_to l = BytesToAddress (leTopics l ! 2)"

definition is_ERC721 :: "log_entry \<Rightarrow> bool" where
  "is_ERC721 l \<longleftrightarrow> length (leTopics l) = 4"

definition token_id :: "log_entry \<Rightarrow> nat" where
  "token_id l = SetBytes (leTopics l ! 3)"

definition transfer_type :: "log_entry \<Rightarrow> string" where
  "transfer_type l =
     (if transfer_from l = zero_Address then ''mint'' else if transfer_to l = zero_Address then ''burn'' else ''transfer'')"

definition transfer_of :: "(bytes \<Rightarrow> string) \<Rightarrow> u64 \<Rightarrow> u64 \<Rightarrow> raw_transaction \<Rightarrow> log_entry \<Rightarrow> token_transfer" where
  "transfer_of hex number ts t l = \<lparr>
     ttTxHash = Hash_Hex (rtHash t), ttLogIndex = leIndex l, ttTokenAddress = hex (leAddress l),
     ttFrom = hex (transfer_from l), ttTo = hex (transfer_to l),
     ttValue = (if is_ERC721 l then ''1'' else if leData l \<noteq> [] then nat_text 10 (SetBytes (leData l)) else ''0''),
     ttBlockNumber = number, ttTimestamp = Some ts, ttTransferType = transfer_type l,
     ttTokenType = (if is_ERC721 l then ''ERC721'' else ''ERC20''),
     ttTokenID = (if is_ERC721 l then Some (nat_text 10 (token_id l)) else None), ttIsInternal = False\<rparr>"

definition add_nft :: "(bytes \<Rightarrow> string) \<Rightarrow> u64 \<Rightarrow> log_entry \<Rightarrow> building \<Rightarrow> building" where
  "add_nft hex number l b =
     (if is_ERC721 l
      then b\<lparr>buNFTTokens := buNFTTokens b @ [\<lparr>nfTokenAddress = hex (leAddress l), nfTokenID = nat_text 10 (token_id l),
                nfOwner = hex (transfer_to l), nfTokenURI = None, nfBlockNumber = int number\<rparr>],
             buNftURIs := (if transfer_type l = ''mint'' then buNftURIs b @ [(leAddress l, token_id l, length (buNFTTokens b))]
                           else buNftURIs b)\<rparr>
      else b)"

definition add_work :: "u64 \<Rightarrow> bytes \<Rightarrow> bytes \<Rightarrow> building \<Rightarrow> building" where
  "add_work number token a b =
     (if a = zero_Address then b
      else b\<lparr>buBalanceWork := buBalanceWork b @ [\<lparr>bwAddress = a, bwToken = token, bwBlock = number, bwEpoch = 0\<rparr>]\<rparr>)"

definition add_new_token :: "(bytes \<Rightarrow> string) \<Rightarrow> string list \<Rightarrow> raw_transaction \<Rightarrow> bytes \<Rightarrow> building \<Rightarrow> building" where
  "add_new_token hex known t token b =
     (if \<not> cache_Has known (hex token) \<and> token \<notin> fst ` set (buNewTokens b)
      then b\<lparr>buNewTokens := buNewTokens b @ [(token, Hash_Hex (rtHash t))]\<rparr> else b)"

definition add_transfer ::
    "(bytes \<Rightarrow> string) \<Rightarrow> string list \<Rightarrow> u64 \<Rightarrow> u64 \<Rightarrow> nat \<Rightarrow> raw_transaction \<Rightarrow> log_entry \<Rightarrow> building \<Rightarrow> building" where
  "add_transfer hex known number ts idx t l b =
     (let b1 = add_nft hex number l (b\<lparr>buTransfers := buTransfers b @ [transfer_of hex number ts t l]\<rparr>);
          b2 = add_work number (leAddress l) (transfer_to l) (add_work number (leAddress l) (transfer_from l) b1);
          b3 = countTransferParticipant hex number idx (transfer_from l) (add_new_token hex known t (leAddress l) b2)
      in if transfer_to l \<noteq> transfer_from l then countTransferParticipant hex number idx (transfer_to l) b3 else b3)"

definition add_log_row ::
    "(bytes \<Rightarrow> string) \<Rightarrow> string list \<Rightarrow> u64 \<Rightarrow> u64 \<Rightarrow> nat \<Rightarrow> raw_transaction \<Rightarrow> log_entry \<Rightarrow> building \<Rightarrow> building" where
  "add_log_row hex known number ts idx t l b =
     (let b1 = b\<lparr>buLogs := buLogs b @ [log_of hex number ts t l]\<rparr>
      in if is_transfer l then add_transfer hex known number ts idx t l b1 else b1)"

section \<open>The loop over the transactions\<close>

definition add_transaction ::
    "builder_config \<Rightarrow> u64 \<Rightarrow> u64 \<Rightarrow> receipts \<Rightarrow> nat \<Rightarrow> raw_transaction \<Rightarrow> building \<Rightarrow> (world, building) state" where
  "add_transaction cfg number ts receipts idx t b = do {
     w \<leftarrow> State_Monad.get;
     let hex = Address_Hex (keccak256 w);
     let receipt = receipts (rtHash t);
     let b1 = touch_parties hex (contract_cache w) number idx t
                (b\<lparr>buTransactions := buTransactions b @ [transaction_of hex number idx t receipt]\<rparr>);
     b2 \<leftarrow> created_contract cfg hex number t receipt b1;
     State_Monad.return (case receipt of
         None \<Rightarrow> b2
       | Some r \<Rightarrow> fold (add_log_row hex (token_cache w) number ts idx t) (rcLogs r) b2)
   }"

fun add_transactions ::
    "builder_config \<Rightarrow> u64 \<Rightarrow> u64 \<Rightarrow> receipts \<Rightarrow> nat \<Rightarrow> raw_transaction list \<Rightarrow> building \<Rightarrow> (world, building) state" where
  "add_transactions cfg number ts receipts idx [] b = State_Monad.return b"
| "add_transactions cfg number ts receipts idx (t # txs) b = do {
     b' \<leftarrow> add_transaction cfg number ts receipts idx t b;
     add_transactions cfg number ts receipts (Suc idx) txs b'
   }"

definition count_address_txs :: "building \<Rightarrow> building" where
  "count_address_txs b = b\<lparr>buAddressStats := map (\<lambda>d. d\<lparr>adTxCount := adTxCount d +
     int (length (filter (\<lambda>p. fst p = adAddress d) (buAddressTxs b)))\<rparr>) (buAddressStats b)\<rparr>"

section \<open>Internal transactions\<close>

definition frame_key :: "string \<Rightarrow> string \<Rightarrow> string" where
  "frame_key tx traceAddress = tx @ ''/'' @ traceAddress"

definition anyEnclosingFailed :: "string set \<Rightarrow> string \<Rightarrow> string \<Rightarrow> bool" where
  "anyEnclosingFailed failed tx traceAddress \<longleftrightarrow>
     (\<exists>i \<in> {1..<length traceAddress}. traceAddress ! i = CHR '','' \<and> frame_key tx (take i traceAddress) \<in> failed)"

definition internalCreations :: "internal_transaction list \<Rightarrow> internal_transaction list" where
  "internalCreations its =
     (let failed = (\<lambda>f. frame_key (itTxHash f) (itTraceAddress f)) ` set (filter (\<lambda>f. itError f \<noteq> None) its)
      in filter (\<lambda>f. (itCallType f = ''create'' \<or> itCallType f = ''create2'') \<and> itTraceAddress f \<noteq> [] \<and> itTo f \<noteq> None \<and>
                  itError f = None \<and> frame_key (itTxHash f) [] \<notin> failed \<and>
                  \<not> anyEnclosingFailed failed (itTxHash f) (itTraceAddress f)) its)"

definition creation_code :: "internal_transaction \<Rightarrow> string" where
  "creation_code it = TrimPrefix (case itOutput it of None \<Rightarrow> [] | Some s \<Rightarrow> TrimSpace s) ''0x''"

definition creation_row :: "internal_transaction \<Rightarrow> u64 \<Rightarrow> string \<Rightarrow> contract" where
  "creation_row it number code = \<lparr>
     coAddress = ToLower (the (itTo it)), coBytecode = code, coBytecodeHash = Some (code_hash code),
     coCreator = ToLower (itFrom it), coCreationTx = itTxHash it, coBlockNumber = number\<rparr>"

text \<open>\<open>contractFromCreation\<close> with the code reader of \<open>buildBlock\<close>, and its loop.\<close>

definition add_creation :: "builder_config \<Rightarrow> u64 \<Rightarrow> internal_transaction \<Rightarrow> building \<Rightarrow> (world, building) state" where
  "add_creation cfg number it b =
     (if creation_code it \<noteq> []
      then do {
        remember_contract (ToLower (the (itTo it)));
        State_Monad.return (add_contract number (creation_row it number (creation_code it)) b)
      }
      else do {
        code \<leftarrow> contractCode cfg (HexToAddress (the (itTo it))) number;
        let b1 = code_failed cfg code b;
        case code of
          None \<Rightarrow> State_Monad.return b1
        | Some raw \<Rightarrow>
            if raw = [] then State_Monad.return b1
            else do {
              remember_contract (ToLower (the (itTo it)));
              State_Monad.return (add_contract number (creation_row it number (Bytes2Hex raw)) b1)
            }
      })"

fun add_creations :: "builder_config \<Rightarrow> u64 \<Rightarrow> internal_transaction list \<Rightarrow> building \<Rightarrow> (world, building) state" where
  "add_creations cfg number [] b = State_Monad.return b"
| "add_creations cfg number (it # its) b = do {
     b' \<leftarrow> add_creation cfg number it b;
     add_creations cfg number its b'
   }"

definition count_internal :: "u64 \<Rightarrow> internal_transaction \<Rightarrow> address_delta list \<Rightarrow> address_delta list" where
  "count_internal number it stats =
     (let more = (\<lambda>d. d\<lparr>adInternalTxCount := adInternalTxCount d + 1\<rparr>);
          s1 = addressDelta number (itFrom it) more stats
      in case itTo it of
           None \<Rightarrow> s1
         | Some to \<Rightarrow> if EqualFold to (itFrom it) then s1 else addressDelta number to more s1)"

definition fetch_traces :: "builder_config \<Rightarrow> bytes list \<Rightarrow> u64 \<Rightarrow> u64 \<Rightarrow> internal_transaction list rpcm" where
  "fetch_traces cfg hashes number ts =
     (if StrictTraces cfg then FetchTracesBatchStrict hashes number ts
      else if SkipTraceRefusals cfg then FetchTracesBatchSkippingRefusals hashes number ts
      else FetchTracesBatch hashes number ts)"

definition add_traces ::
    "builder_config \<Rightarrow> bytes list \<Rightarrow> u64 \<Rightarrow> u64 \<Rightarrow> building \<Rightarrow>
     (world, rpc_error option \<times> internal_transaction list \<times> building) state" where
  "add_traces cfg hashes number ts b =
     (if \<not> tracingSupported cfg \<or> hashes = [] then State_Monad.return (None, [], b)
      else do {
        r \<leftarrow> fetch_traces cfg hashes number ts;
        case r of
          Inl e \<Rightarrow> State_Monad.return (Some e, [], b)
        | Inr its \<Rightarrow> do {
            b' \<leftarrow> add_creations cfg number (internalCreations its)
                   (b\<lparr>buAddressStats := fold (count_internal number) its (buAddressStats b)\<rparr>);
            State_Monad.return (None, its, b')
          }
      })"

section \<open>Tokens\<close>

definition classifyNewToken :: "bool \<Rightarrow> int \<Rightarrow> string \<times> int" where
  "classifyNewToken isERC721 metaDecimals = (if isERC721 then (''ERC721'', 0) else (''ERC20'', metaDecimals))"

definition token_of ::
    "(bytes \<Rightarrow> string) \<Rightarrow> u64 \<Rightarrow> building \<Rightarrow> bytes \<times> token_metadata \<Rightarrow> token" where
  "token_of hex number b am =
     (let a = fst am; m = snd am;
          isERC721 = (\<exists>t \<in> set (buTransfers b). ttTokenType t = ''ERC721'' \<and> ttTokenAddress t = hex a);
          (ty, decimals) = classifyNewToken isERC721 (tmDecimals m)
      in \<lparr>tkAddress = hex a, tkSymbol = tmSymbol m, tkName = tmName m, tkDecimals = decimals, tkTokenType = ty,
          tkTotalSupply = None, tkHolderCount = 0, tkTransferCount = 0, tkL1Address = None, tkBlockNumber = number,
          tkCreationTx = Some (the (map_of (buNewTokens b) a))\<rparr>)"

definition discover_tokens :: "builder_config \<Rightarrow> u64 \<Rightarrow> building \<Rightarrow> (world, token list) state" where
  "discover_tokens cfg number b =
     (if buNewTokens b = [] \<or> CountersOnly cfg then State_Monad.return []
      else do {
        w \<leftarrow> State_Monad.get;
        ms \<leftarrow> FetchTokenMetadataBatch (map fst (buNewTokens b));
        State_Monad.return (map (token_of (Address_Hex (keccak256 w)) number b) (filter (\<lambda>(a, m). \<not> tmErr m) ms))
      })"

definition set_uri :: "nat \<times> string option \<Rightarrow> nft_token list \<Rightarrow> nft_token list" where
  "set_uri p ns = (case snd p of None \<Rightarrow> ns | Some u \<Rightarrow> ns[fst p := (ns ! fst p)\<lparr>nfTokenURI := Some u\<rparr>])"

definition attach_uris :: "builder_config \<Rightarrow> building \<Rightarrow> (world, nft_token list) state" where
  "attach_uris cfg b =
     (if buNftURIs b = [] \<or> CountersOnly cfg then State_Monad.return (buNFTTokens b)
      else do {
        uris \<leftarrow> FetchTokenURIsBatch (map (\<lambda>(a, i, _). (a, i)) (buNftURIs b));
        State_Monad.return (fold set_uri (zip (map (\<lambda>(_, _, row). row) (buNftURIs b)) uris) (buNFTTokens b))
      })"

section \<open>The whole block\<close>

definition building_start :: building where
  "building_start = \<lparr>buTransactions = [], buLogs = [], buTransfers = [], buContracts = [], buNFTTokens = [],
     buAddressStats = [], buAddressTxs = [], buNewTokens = [], buBalanceWork = [], buNftURIs = [], buCodeErr = False\<rparr>"

definition buildBlock :: "builder_config \<Rightarrow> raw_block \<Rightarrow> receipts \<Rightarrow> (world, built_block) state" where
  "buildBlock cfg raw receipts = do {
     w \<leftarrow> State_Monad.get;
     let number = NumberU64 raw;
     let ts = rbTimestamp raw;
     b1 \<leftarrow> add_transactions cfg number ts receipts 0 (rbTransactions raw) building_start;
     traces \<leftarrow> add_traces cfg (receiptTxHashes cfg raw) number ts (count_address_txs b1);
     let b2 = snd (snd traces);
     toks \<leftarrow> discover_tokens cfg number b2;
     nfts \<leftarrow> attach_uris cfg b2;
     State_Monad.return \<lparr>
       bbData = \<lparr>bdBlock = Some (raw_block_row (Address_Hex (keccak256 w)) raw), bdTransactions = buTransactions b2, bdLogs = buLogs b2,
         bdTransfers = buTransfers b2, bdContracts = buContracts b2, bdTokens = toks, bdNFTTokens = nfts,
         bdInternalTransactions = fst (snd traces), bdAddressStats = buAddressStats b2, bdSkipAddressStats = SkipAddressStats cfg\<rparr>,
       bbBalanceWork = buBalanceWork b2, bbDiscovered = map tkAddress toks, bbNumber = number, bbTimestamp = ts,
       bbTracesErr = fst traces, bbCodeErr = buCodeErr b2\<rparr>
   }"

section \<open>Once the rows are committed\<close>

text \<open>\<open>RefreshTokenStats\<close>: the supply of an NFT collection is its live tokens.\<close>

definition live_nfts :: "string \<Rightarrow> world \<Rightarrow> int" where
  "live_nfts a w = int (length (filter (\<lambda>n. ToLower (nfTokenAddress n) = a \<and> nfOwner n \<noteq> zeroAddress) (nft_tokens w)))"

definition RefreshTokenStats :: "string \<Rightarrow> unit dbm" where
  "RefreshTokenStats tokenAddress =
     (let a = ToLower tokenAddress in do {
        r \<leftarrow> run_query (\<lambda>w. map_option tkTokenType (List.find (\<lambda>t. tkAddress t = a) (tokens w)));
        case r of
          Inl e \<Rightarrow> State_Monad.return (Inl e)
        | Inr ty \<Rightarrow>
            if ty \<noteq> Some ''ERC721'' then State_Monad.return (Inr ())
            else tx_of (\<lambda>w. Inr (w\<lparr>tokens := map (\<lambda>t. if ToLower (tkAddress t) = a
                                     then t\<lparr>tkTotalSupply := Some (live_nfts a w)\<rparr> else t) (tokens w)\<rparr>))
      })"

fun refresh_tokens :: "string list \<Rightarrow> (world, unit) state" where
  "refresh_tokens [] = State_Monad.return ()"
| "refresh_tokens (a # as) = do { _ \<leftarrow> RefreshTokenStats a; refresh_tokens as }"

text \<open>The balance pool's queue; a wait for room changes nothing.\<close>

definition stamped :: "nat \<Rightarrow> balance_work \<Rightarrow> balance_work" where
  "stamped epoch work = (if bwEpoch work = 0 then work\<lparr>bwEpoch := epoch\<rparr> else work)"

definition QueueCommittedWork :: "balance_work list \<Rightarrow> (world, unit) state" where
  "QueueCommittedWork works = State_Monad.update (\<lambda>w.
     case pool_epoch w of
       None \<Rightarrow> w
     | Some epoch \<Rightarrow> w\<lparr>pool_queue := pool_queue w @ map (stamped epoch) works\<rparr>)"

definition afterCommit :: "built_block \<Rightarrow> (world, unit) state" where
  "afterCommit b = do {
     State_Monad.update (\<lambda>w. w\<lparr>token_cache := fold cache_Add (bbDiscovered b) (token_cache w)\<rparr>);
     refresh_tokens (remdups (map (ToLower \<circ> ttTokenAddress) (bdTransfers (bbData b))));
     QueueCommittedWork (bbBalanceWork b)
   }"

section \<open>One block, read and written\<close>

datatype process_error = DbError db_error | NodeError rpc_error | ReceiptsError rpc_error

definition insertEmptyBlock :: "raw_block \<Rightarrow> (world, process_error + unit) state" where
  "insertEmptyBlock raw = do {
     w \<leftarrow> State_Monad.get;
     r \<leftarrow> InsertBlock (raw_block_row (Address_Hex (keccak256 w)) raw);
     State_Monad.return (map_sum DbError id r)
   }"

definition processBlockWithReceipts :: "builder_config \<Rightarrow> raw_block \<Rightarrow> receipts \<Rightarrow> (world, process_error + unit) state" where
  "processBlockWithReceipts cfg raw receipts = do {
     b \<leftarrow> buildBlock cfg raw receipts;
     r \<leftarrow> InsertBlockDataBatch (bbData b);
     case r of
       Inl e \<Rightarrow> State_Monad.return (Inl (DbError e))
     | Inr _ \<Rightarrow> do { afterCommit b; State_Monad.return (Inr ()) }
   }"

definition processBlockParallelRaw :: "builder_config \<Rightarrow> raw_block \<Rightarrow> (world, process_error + unit) state" where
  "processBlockParallelRaw cfg raw = do {
     r \<leftarrow> FetchReceiptsBatch (receiptTxHashes cfg raw) (NumberU64 raw);
     case r of
       Inl e \<Rightarrow> State_Monad.return (Inl (ReceiptsError e))
     | Inr receipts \<Rightarrow> processBlockWithReceipts cfg raw receipts
   }"

definition processBlockRaw :: "builder_config \<Rightarrow> u64 \<Rightarrow> (world, process_error + unit) state" where
  "processBlockRaw cfg number = do {
     r \<leftarrow> RawBlockByNumber number;
     case r of
       Inl e \<Rightarrow> State_Monad.return (Inl (NodeError e))
     | Inr raw \<Rightarrow> if rbTransactions raw \<noteq> [] then processBlockParallelRaw cfg raw else insertEmptyBlock raw
   }"

section \<open>Deltas of an address\<close>

definition stat_of :: "(address_delta \<Rightarrow> int) \<Rightarrow> address_delta list \<Rightarrow> string \<Rightarrow> int" where
  "stat_of f ds a = (\<Sum>d \<leftarrow> filter (\<lambda>d. adAddress d = a) ds. f d)"

lemma stat_of_simps [simp]:
  "stat_of f [] a = 0"
  "stat_of f (d # ds) a = (if adAddress d = a then f d else 0) + stat_of f ds a"
  "stat_of f (ds @ es) a = stat_of f ds a + stat_of f es a"
  by (simp_all add: stat_of_def)

lemma stat_of_absent: "a \<notin> adAddress ` set ds \<Longrightarrow> stat_of f ds a = 0"
  by (induction ds) auto

lemma stat_of_map_if:
  assumes "distinct (map adAddress ds)" "\<And>d. adAddress (upd d) = adAddress d" "\<And>d. f (upd d) = f d + k"
  shows "stat_of f (map (\<lambda>d. if adAddress d = key then upd d else d) ds) a =
    stat_of f ds a + (if a = key \<and> key \<in> adAddress ` set ds then k else 0)"
  using assms(1) by (induction ds) (auto simp: assms(2,3))

lemma addressDelta_keys:
  assumes "\<And>d. adAddress (upd d) = adAddress d"
  shows "map adAddress (addressDelta n x upd ds) =
    (if ToLower x \<in> adAddress ` set ds then map adAddress ds else map adAddress ds @ [ToLower x])"
  using assms by (force simp: addressDelta_def Let_def)

lemma addressDelta_stat:
  assumes "distinct (map adAddress ds)" "\<And>d. adAddress (upd d) = adAddress d" "\<And>d. f (upd d) = f d + k"
    and "f \<lparr>adAddress = ToLower x, adTxCount = 0, adInternalTxCount = 0, adTokenTransfer = 0, adSent = 0,
            adIsContract = False, adLastBlock = 0, adBlockNumber = n\<rparr> = 0"
  shows "stat_of f (addressDelta n x upd ds) a = stat_of f ds a + (if a = ToLower x then k else 0)"
proof (cases "ToLower x \<in> adAddress ` set ds")
  case True
  then have "addressDelta n x upd ds = map (\<lambda>d. if adAddress d = ToLower x then upd d else d) ds"
    by (auto simp: addressDelta_def Let_def)
  then show ?thesis
    using stat_of_map_if [of ds upd f k "ToLower x" a] assms True by simp
next
  case False
  then have "\<not> (\<exists>d \<in> set ds. adAddress d = ToLower x)"
    by force
  then show ?thesis
    using assms(2-4) by (simp add: addressDelta_def Let_def)
qed

section \<open>What the rows contribute\<close>

definition lower_tx :: "transaction \<Rightarrow> transaction" where
  "lower_tx t = t\<lparr>txFrom := ToLower (txFrom t), txTo := map_option ToLower (txTo t)\<rparr>"

definition lower_internal :: "internal_transaction \<Rightarrow> internal_transaction" where
  "lower_internal t = t\<lparr>itFrom := ToLower (itFrom t), itTo := map_option ToLower (itTo t)\<rparr>"

definition row_contributions :: "transaction list \<Rightarrow> token_transfer list \<Rightarrow> contribution list" where
  "row_contributions txs transfers =
     concat (map (tx_contributions \<circ> lower_tx) txs) @ concat (map (transfer_contributions \<circ> transfer_row) transfers)"

definition data_contributions :: "block_data \<Rightarrow> contribution list" where
  "data_contributions data =
     row_contributions (bdTransactions data) (bdTransfers data) @
     concat (map (internal_contributions \<circ> lower_internal) (bdInternalTransactions data)) @
     map (\<lambda>c. contribute (ToLower (coAddress c)) None (coBlockNumber c) 0 0 0) (bdContracts data)"

lemma sum_of_simps [simp]:
  "sum_of f [] a = 0"
  "sum_of f (c # cs) a = (if ctAddress c = a then f c else 0) + sum_of f cs a"
  "sum_of f (cs @ ds) a = sum_of f cs a + sum_of f ds a"
  by (simp_all add: sum_of_def)

lemma contribute_simps [simp]:
  "ctAddress (contribute a tx n s i t) = a" "ctTx (contribute a tx n s i t) = tx" "ctSent (contribute a tx n s i t) = s"
  "ctInternal (contribute a tx n s i t) = i" "ctTransfers (contribute a tx n s i t) = t"
  by (simp_all add: contribute_def)

definition txs_of :: "contribution list \<Rightarrow> string \<Rightarrow> string set" where
  "txs_of cs a = {h. \<exists>c \<in> set cs. ctAddress c = a \<and> ctTx c = Some h}"

lemma count_txs_card: "count_txs cs a = int (card (txs_of cs a))"
proof -
  have "set (List.map_filter ctTx (filter (\<lambda>c. ctAddress c = a) cs)) = txs_of cs a"
    by (auto simp: txs_of_def List.map_filter_def image_iff) force
  then show ?thesis
    unfolding count_txs_def by (metis List.card_set)
qed

text \<open>
  While the transactions are read: \<open>H\<close> names the transaction of an index below \<open>N\<close>; the counts of
  transactions are still zero, and the pairs of addresses and indices stand for them.
\<close>

definition counted :: "(nat \<Rightarrow> string) \<Rightarrow> nat \<Rightarrow> building \<Rightarrow> contribution list \<Rightarrow> bool" where
  "counted H N b cs \<longleftrightarrow>
     distinct (map adAddress (buAddressStats b)) \<and> distinct (buAddressTxs b) \<and> snd ` set (buAddressTxs b) \<subseteq> {..<N} \<and>
     fst ` set (buAddressTxs b) \<subseteq> adAddress ` set (buAddressStats b) \<and>
     (\<forall>a. stat_of adTxCount (buAddressStats b) a = 0 \<and> stat_of adInternalTxCount (buAddressStats b) a = 0 \<and>
          sum_of ctInternal cs a = 0 \<and> stat_of adSent (buAddressStats b) a = sum_of ctSent cs a \<and>
          stat_of adTokenTransfer (buAddressStats b) a = sum_of ctTransfers cs a \<and>
          txs_of cs a = H ` {i. (a, i) \<in> set (buAddressTxs b)})"

lemma counted_cong:
  assumes "mset cs = mset ds"
  shows "counted H N b cs = counted H N b ds"
proof -
  have "sum_of f cs = sum_of f ds" for f
    unfolding sum_of_def by (subst (1 2) sum_mset_sum_list [symmetric]) (simp add: assms)
  moreover have "txs_of cs = txs_of ds"
    using mset_eq_setD [OF assms] by (simp add: txs_of_def fun_eq_iff)
  ultimately show ?thesis
    by (simp add: counted_def)
qed

lemma counted_other:
  "buAddressStats b' = buAddressStats b \<Longrightarrow> buAddressTxs b' = buAddressTxs b \<Longrightarrow> counted H N b' cs = counted H N b cs"
  by (simp add: counted_def)

lemma counted_touch:
  assumes b: "counted H N b cs" and i: "i < N" and key: "\<And>d. adAddress (upd d) = adAddress d"
    and kept: "\<And>d. adTxCount (upd d) = adTxCount d" "\<And>d. adInternalTxCount (upd d) = adInternalTxCount d"
    and added: "\<And>d. adSent (upd d) = adSent d + s" "\<And>d. adTokenTransfer (upd d) = adTokenTransfer d + t"
  shows "counted H N (touchAddressTx n i x upd b) (contribute (ToLower x) (Some (H i)) n s 0 t # cs)"
proof -
  have d: "distinct (map adAddress (buAddressStats b))"
    using b by (simp add: counted_def)
  note stats = addressDelta_stat [OF d key]
  have "stat_of adTxCount (addressDelta n x upd (buAddressStats b)) a = 0" for a
    using b stats [of adTxCount 0] by (simp add: kept counted_def)
  moreover have "stat_of adInternalTxCount (addressDelta n x upd (buAddressStats b)) a = 0" for a
    using b stats [of adInternalTxCount 0] by (simp add: kept counted_def)
  moreover have "stat_of adSent (addressDelta n x upd (buAddressStats b)) a = (if a = ToLower x then s else 0) + sum_of ctSent cs a" for a
    using b stats [of adSent s] by (simp add: added counted_def)
  moreover have "stat_of adTokenTransfer (addressDelta n x upd (buAddressStats b)) a =
      (if a = ToLower x then t else 0) + sum_of ctTransfers cs a" for a
    using b stats [of adTokenTransfer t] by (simp add: added counted_def)
  moreover have "txs_of (contribute (ToLower x) (Some (H i)) n s 0 t # cs) a =
      H ` {j. (a, j) \<in> set (List.insert (ToLower x, i) (buAddressTxs b))}" for a
    using b by (auto simp: txs_of_def counted_def set_eq_iff image_iff)
  moreover have "adAddress ` set (addressDelta n x upd (buAddressStats b)) = insert (ToLower x) (adAddress ` set (buAddressStats b))"
    using arg_cong [OF addressDelta_keys [OF key], of set n x "buAddressStats b"] by (auto split: if_splits)
  moreover have "distinct (map adAddress (addressDelta n x upd (buAddressStats b)))"
    using d by (auto simp: addressDelta_keys [OF key])
  ultimately show ?thesis
    using b i by (auto simp: counted_def touchAddressTx_def)
qed

text \<open>Once they are counted: the deltas are what the rows contribute.\<close>

definition tallied :: "address_delta list \<Rightarrow> contribution list \<Rightarrow> bool" where
  "tallied ds cs \<longleftrightarrow>
     distinct (map adAddress ds) \<and>
     (\<forall>a. stat_of adTxCount ds a = count_txs cs a \<and> stat_of adInternalTxCount ds a = sum_of ctInternal cs a \<and>
          stat_of adSent ds a = sum_of ctSent cs a \<and> stat_of adTokenTransfer ds a = sum_of ctTransfers cs a)"

lemma stat_of_tx_count:
  assumes "distinct (map adAddress ds)"
  shows "stat_of adTxCount (map (\<lambda>d. d\<lparr>adTxCount := adTxCount d + k (adAddress d)\<rparr>) ds) a =
    stat_of adTxCount ds a + (if a \<in> adAddress ` set ds then k a else 0)"
  using assms by (induction ds) auto

lemma stat_of_same:
  assumes "\<And>d x. f (d\<lparr>adTxCount := x\<rparr>) = f d"
  shows "stat_of f (map (\<lambda>d. d\<lparr>adTxCount := adTxCount d + k (adAddress d)\<rparr>) ds) a = stat_of f ds a"
  by (induction ds) (simp_all add: assms)

lemma length_filter_fst:
  assumes "distinct ps" "inj_on H {..<N}" "snd ` set ps \<subseteq> {..<N}"
  shows "length (filter (\<lambda>p. fst p = a) ps) = card (H ` {i. (a, i) \<in> set ps})"
proof -
  have set: "{i. (a, i) \<in> set ps} = snd ` set (filter (\<lambda>p. fst p = a) ps)"
    by (force simp: image_iff)
  have "inj_on snd (set (filter (\<lambda>p. fst p = a) ps))"
    by (auto simp: inj_on_def prod_eq_iff)
  then have "card {i. (a, i) \<in> set ps} = length (filter (\<lambda>p. fst p = a) ps)"
    unfolding set using distinct_card [of "filter (\<lambda>p. fst p = a) ps"] assms(1) by (simp add: card_image)
  moreover have "inj_on H {i. (a, i) \<in> set ps}"
    using assms(3) by (intro inj_on_subset [OF assms(2)]) force
  ultimately show ?thesis
    by (simp add: card_image)
qed

lemma counted_tallied:
  assumes b: "counted H N b cs" and inj: "inj_on H {..<N}"
  shows "tallied (buAddressStats (count_address_txs b)) cs"
proof -
  define k where "k = (\<lambda>a. int (length (filter (\<lambda>p. fst p = a) (buAddressTxs b))))"
  have stats: "buAddressStats (count_address_txs b) = map (\<lambda>d. d\<lparr>adTxCount := adTxCount d + k (adAddress d)\<rparr>) (buAddressStats b)"
    by (simp add: count_address_txs_def k_def)
  have "k a = count_txs cs a" for a
    using b length_filter_fst [OF _ inj, of "buAddressTxs b" a] by (simp add: k_def count_txs_card counted_def)
  moreover have "k a = 0" if "a \<notin> adAddress ` set (buAddressStats b)" for a
    using that b by (force simp: k_def counted_def filter_empty_conv)
  ultimately have "stat_of adTxCount (buAddressStats (count_address_txs b)) a = count_txs cs a" for a
    using b unfolding stats by (simp add: counted_def stat_of_tx_count)
  then show ?thesis
    using b by (simp add: tallied_def counted_def stats stat_of_same comp_def)
qed

section \<open>The loops\<close>

definition names_txs :: "(nat \<Rightarrow> string) \<Rightarrow> nat \<Rightarrow> raw_transaction list \<Rightarrow> bool" where
  "names_txs H idx txs \<longleftrightarrow> (\<forall>i < length txs. H (idx + i) = Hash_Hex (rtHash (txs ! i)))"

lemma hex_encode_inject [simp]: "hex_EncodeToString a = hex_EncodeToString b \<longleftrightarrow> a = b"
  by (metis hex_decode_encode option.inject)

lemma lower_hex_zero [simp]: "CHR ''0'' # CHR ''x'' # hex_EncodeToString a = zeroAddress \<longleftrightarrow> a = zero_Address"
proof -
  have zero: "zeroAddress = CHR ''0'' # CHR ''x'' # hex_EncodeToString zero_Address"
    by code_simp
  show ?thesis
    unfolding zero by (simp only: list.inject hex_encode_inject simp_thms)
qed

lemma Hash_Hex_inject: "Hash_Hex g = Hash_Hex h \<longleftrightarrow> g = h"
  by (simp add: Hash_Hex_def)

definition counted_rows :: "(nat \<Rightarrow> string) \<Rightarrow> nat \<Rightarrow> building \<Rightarrow> bool" where
  "counted_rows H N b \<longleftrightarrow> counted H N b (row_contributions (buTransactions b) (buTransfers b))"

lemma counted_participant:
  assumes "counted H N b cs" "i < N"
  shows "counted H N (countTransferParticipant (Address_Hex k) n i a b)
    ((if a = zero_Address then [] else [contribute (''0x'' @ hex_EncodeToString a) (Some (H i)) n 0 0 1]) @ cs)"
  using assms counted_touch [OF assms, of "\<lambda>d. d\<lparr>adTokenTransfer := adTokenTransfer d + 1\<rparr>" 0 1 n "Address_Hex k a"]
  by (simp add: countTransferParticipant_def ToLower_Address_Hex)

lemma add_parts [simp]:
  "buAddressStats (add_nft hex n l b) = buAddressStats b" "buAddressTxs (add_nft hex n l b) = buAddressTxs b"
  "buTransactions (add_nft hex n l b) = buTransactions b" "buTransfers (add_nft hex n l b) = buTransfers b"
  "buAddressStats (add_work n tok a b) = buAddressStats b" "buAddressTxs (add_work n tok a b) = buAddressTxs b"
  "buTransactions (add_work n tok a b) = buTransactions b" "buTransfers (add_work n tok a b) = buTransfers b"
  "buAddressStats (add_new_token hex known t a b) = buAddressStats b" "buAddressTxs (add_new_token hex known t a b) = buAddressTxs b"
  "buTransactions (add_new_token hex known t a b) = buTransactions b" "buTransfers (add_new_token hex known t a b) = buTransfers b"
  "buTransactions (countTransferParticipant hex n i a b) = buTransactions b"
  "buTransfers (countTransferParticipant hex n i a b) = buTransfers b"
  "buTransactions (touchAddressTx n i x upd b) = buTransactions b" "buTransfers (touchAddressTx n i x upd b) = buTransfers b"
  by (simp_all add: add_nft_def add_work_def add_new_token_def countTransferParticipant_def touchAddressTx_def)

lemma counted_transfer:
  assumes b: "counted_rows H N b" and i: "i < N" and tx: "H i = Hash_Hex (rtHash t)"
  shows "counted_rows H N (add_transfer (Address_Hex k) known n ts i t l b)"
proof -
  let ?hex = "Address_Hex k" and ?cs = "row_contributions (buTransactions b) (buTransfers b)"
  define b2 where "b2 = add_new_token ?hex known t (leAddress l) (add_work n (leAddress l) (transfer_to l)
    (add_work n (leAddress l) (transfer_from l) (add_nft ?hex n l (b\<lparr>buTransfers := buTransfers b @ [transfer_of ?hex n ts t l]\<rparr>))))"
  have "counted H N b2 ?cs"
    using b counted_other [of b2 b H N] by (simp add: b2_def counted_rows_def)
  note froms = counted_participant [OF this i, of k n "transfer_from l"]
  note both = counted_participant [OF froms i, of k n "transfer_to l"]
  have rows: "buTransactions b2 = buTransactions b" "buTransfers b2 = buTransfers b @ [transfer_of ?hex n ts t l]"
    by (simp_all add: b2_def)
  have "transfer_contributions (transfer_row (transfer_of ?hex n ts t l)) =
      (if transfer_from l = zero_Address then [] else [contribute (''0x'' @ hex_EncodeToString (transfer_from l)) (Some (H i)) n 0 0 1]) @
      (if transfer_to l = zero_Address \<or> transfer_to l = transfer_from l then []
       else [contribute (''0x'' @ hex_EncodeToString (transfer_to l)) (Some (H i)) n 0 0 1])"
    using tx by (simp add: transfer_contributions_def transfer_row_def transfer_of_def ToLower_Address_Hex)
  note cs = this
  have "mset (row_contributions (buTransactions b) (buTransfers b @ [transfer_of ?hex n ts t l])) =
      mset ?cs + mset (transfer_contributions (transfer_row (transfer_of ?hex n ts t l)))"
    by (simp add: row_contributions_def)
  note split = this
  show ?thesis
  proof (cases "transfer_to l = transfer_from l")
    case True
    then have "add_transfer ?hex known n ts i t l b = countTransferParticipant ?hex n i (transfer_from l) b2"
      by (simp add: add_transfer_def b2_def Let_def)
    then show ?thesis
      using True unfolding counted_rows_def by (simp only: add_parts rows) (rule iffD2 [OF counted_cong froms], simp add: split cs)
  next
    case False
    then have "add_transfer ?hex known n ts i t l b =
        countTransferParticipant ?hex n i (transfer_to l) (countTransferParticipant ?hex n i (transfer_from l) b2)"
      by (simp add: add_transfer_def b2_def Let_def)
    then show ?thesis
      using False unfolding counted_rows_def by (simp only: add_parts rows) (rule iffD2 [OF counted_cong both], simp add: split cs)
  qed
qed

lemma counted_log:
  assumes "counted_rows H N b" "i < N" "H i = Hash_Hex (rtHash t)"
  shows "counted_rows H N (add_log_row (Address_Hex k) known n ts i t l b)"
proof -
  have "counted_rows H N (b\<lparr>buLogs := ls\<rparr>)" for ls
    using assms(1) by (simp add: counted_rows_def counted_def)
  then show ?thesis
    using counted_transfer assms(2,3) by (simp add: add_log_row_def Let_def)
qed

lemma counted_logs:
  assumes "counted_rows H N b" "i < N" "H i = Hash_Hex (rtHash t)"
  shows "counted_rows H N (fold (add_log_row (Address_Hex k) known n ts i t) ls b)"
  using assms(1) by (induction ls arbitrary: b) (simp_all add: counted_log assms(2,3))

lemma counted_contract: "counted H N (add_contract n c b) cs" if "counted H N b cs"
proof -
  let ?upd = "\<lambda>d. d\<lparr>adIsContract := True\<rparr>"
  have d: "distinct (map adAddress (buAddressStats b))"
    using that by (simp add: counted_def)
  have "stat_of f (addressDelta n (coAddress c) ?upd (buAddressStats b)) a = stat_of f (buAddressStats b) a"
    if "f \<in> {adTxCount, adInternalTxCount, adSent, adTokenTransfer}" for f a
    using addressDelta_stat [OF d, of ?upd f 0 "coAddress c" n] that by auto
  moreover have "distinct (map adAddress (addressDelta n (coAddress c) ?upd (buAddressStats b)))"
    using d by (auto simp: addressDelta_keys)
  moreover have "fst ` set (buAddressTxs b) \<subseteq> adAddress ` set (addressDelta n (coAddress c) ?upd (buAddressStats b))"
    using that arg_cong [OF addressDelta_keys [of ?upd n "coAddress c" "buAddressStats b"], of set]
    by (auto simp: counted_def split: if_splits)
  ultimately show ?thesis
    using that by (simp add: counted_def add_contract_def)
qed

lemma counted_parties:
  assumes b: "counted_rows H N b" and i: "i < N" and tx: "H i = Hash_Hex (rtHash t)"
  shows "counted_rows H N (touch_parties (Address_Hex k) known n i t
    (b\<lparr>buTransactions := buTransactions b @ [transaction_of (Address_Hex k) n i t r]\<rparr>))"
proof -
  let ?hex = "Address_Hex k" and ?cs = "row_contributions (buTransactions b) (buTransfers b)"
  define b1 where "b1 = b\<lparr>buTransactions := buTransactions b @ [transaction_of ?hex n i t r]\<rparr>"
  let ?s = "if bumps_nonce (rtType t) then 1 else 0"
  have "counted H N b1 ?cs"
    using b by (simp add: b1_def counted_rows_def counted_def)
  from counted_touch [OF this i, of "\<lambda>d. if bumps_nonce (rtType t) then d\<lparr>adSent := adSent d + 1\<rparr> else d" ?s 0 n "?hex (rtFrom t)"]
  have sender: "counted H N (touchAddressTx n i (?hex (rtFrom t)) (\<lambda>d. if bumps_nonce (rtType t) then d\<lparr>adSent := adSent d + 1\<rparr> else d) b1)
      (contribute (ToLower (?hex (rtFrom t))) (Some (H i)) n ?s 0 0 # ?cs)"
    by simp
  note receiver = counted_touch [OF this i, of "\<lambda>d. d\<lparr>adIsContract := adIsContract d \<or> cache_Has known x\<rparr>" 0 0 n x for x, simplified]
  have rows: "mset (row_contributions (buTransactions b @ [transaction_of ?hex n i t r]) (buTransfers b)) =
      mset ?cs + mset (tx_contributions (lower_tx (transaction_of ?hex n i t r)))"
    by (simp add: row_contributions_def)
  have txc: "tx_contributions (lower_tx (transaction_of ?hex n i t r)) =
      contribute (ToLower (?hex (rtFrom t))) (Some (H i)) n ?s 0 0 #
      (case rtTo t of None \<Rightarrow> [] | Some to \<Rightarrow> [contribute (ToLower (?hex to)) (Some (H i)) n 0 0 0])"
    using tx by (simp add: tx_contributions_def lower_tx_def transaction_of_def split: option.split)
  show ?thesis
  proof (cases "rtTo t")
    case None
    have "counted H N (touch_parties ?hex known n i t b1) (row_contributions (buTransactions b1) (buTransfers b1))"
      using None by (simp add: touch_parties_def) (rule iffD2 [OF counted_cong sender], simp add: b1_def rows txc)
    then show ?thesis
      using None by (simp add: counted_rows_def touch_parties_def b1_def)
  next
    case (Some to)
    have "counted H N (touch_parties ?hex known n i t b1) (row_contributions (buTransactions b1) (buTransfers b1))"
      using Some by (simp add: touch_parties_def) (rule iffD2 [OF counted_cong receiver], simp add: b1_def rows txc)
    then show ?thesis
      using Some by (simp add: counted_rows_def touch_parties_def b1_def)
  qed
qed

text \<open>What a creation does to the rows: at most one more contract, of the block.\<close>

definition contract_added :: "u64 \<Rightarrow> building \<Rightarrow> building \<Rightarrow> bool" where
  "contract_added n b b' \<longleftrightarrow>
     (\<exists>e. b' = b\<lparr>buCodeErr := e\<rparr> \<or> (\<exists>c. coBlockNumber c = n \<and> b' = add_contract n c (b\<lparr>buCodeErr := e\<rparr>)))"

lemma contract_added_intros:
  "contract_added n b b" "contract_added n b (code_failed cfg code b)"
  "coBlockNumber c = n \<Longrightarrow> contract_added n b (add_contract n c b)"
  "coBlockNumber c = n \<Longrightarrow> contract_added n b (add_contract n c (code_failed cfg code b))"
proof -
  have "b = b\<lparr>buCodeErr := buCodeErr b\<rparr>"
    by simp
  then show "contract_added n b b" "coBlockNumber c = n \<Longrightarrow> contract_added n b (add_contract n c b)"
    unfolding contract_added_def by metis+
  show "contract_added n b (code_failed cfg code b)" "coBlockNumber c = n \<Longrightarrow> contract_added n b (add_contract n c (code_failed cfg code b))"
    unfolding contract_added_def code_failed_def by blast+
qed

lemma created_contract_added: "contract_added n b (fst (run_state (created_contract cfg hex n t r b) w))"
  by (auto simp: created_contract_def run_state_bind_split Let_def intro: contract_added_intros split: option.split prod.split)

lemma add_creation_added: "contract_added n b (fst (run_state (add_creation cfg n it b) w))"
  by (auto simp: add_creation_def run_state_bind_split Let_def creation_row_def intro: contract_added_intros split: option.split prod.split)

lemma contract_added_parts:
  assumes "contract_added n b b'"
  shows "buTransactions b' = buTransactions b" "buTransfers b' = buTransfers b" "buLogs b' = buLogs b" "buNFTTokens b' = buNFTTokens b"
    "(\<forall>c \<in> set (buContracts b). coBlockNumber c = n) \<Longrightarrow> (\<forall>c \<in> set (buContracts b'). coBlockNumber c = n)"
    "counted H N b cs \<Longrightarrow> counted H N b' cs"
  using assms counted_other [of "b\<lparr>buCodeErr := _\<rparr>" b H N cs]
  by (auto simp: contract_added_def add_contract_def [of n _ b] intro!: counted_contract) (auto simp: add_contract_def)

lemma counted_transaction:
  assumes b: "counted_rows H N b" and i: "i < N" and tx: "H i = Hash_Hex (rtHash t)"
  shows "counted_rows H N (fst (run_state (add_transaction cfg n ts receipts i t b) w))"
proof -
  define b1 where "b1 = touch_parties (Address_Hex (keccak256 w)) (contract_cache w) n i t
    (b\<lparr>buTransactions := buTransactions b @ [transaction_of (Address_Hex (keccak256 w)) n i t (receipts (rtHash t))]\<rparr>)"
  define b2 where "b2 = fst (run_state (created_contract cfg (Address_Hex (keccak256 w)) n t (receipts (rtHash t)) b1) w)"
  have "counted_rows H N b2"
    using counted_parties [OF b i tx] contract_added_parts(1,2,6) [OF created_contract_added]
    by (simp add: b2_def b1_def counted_rows_def)
  then have "counted_rows H N (fold (add_log_row (Address_Hex (keccak256 w)) (token_cache w) n ts i t) ls b2)" for ls
    by (rule counted_logs [where H = H and i = i, OF _ i tx])
  moreover obtain v where "run_state (created_contract cfg (Address_Hex (keccak256 w)) n t (receipts (rtHash t)) b1) w = (b2, v)"
    by (metis b2_def prod.collapse)
  ultimately show ?thesis
    using \<open>counted_rows H N b2\<close> by (simp add: add_transaction_def Let_def b1_def [symmetric] split: option.split)
qed

lemma counted_transactions:
  assumes "counted_rows H N b" "idx + length txs \<le> N" "names_txs H idx txs"
  shows "counted_rows H N (fst (run_state (add_transactions cfg n ts receipts idx txs b) w))"
  using assms
proof (induction txs arbitrary: idx b w)
  case (Cons t txs)
  have "names_txs H (Suc idx) txs" "H idx = Hash_Hex (rtHash t)"
    using Cons.prems(3) by (simp_all add: names_txs_def All_less_Suc2)
  moreover obtain b1 v where b1: "run_state (add_transaction cfg n ts receipts idx t b) w = (b1, v)"
    by fastforce
  ultimately have "counted_rows H N b1"
    using counted_transaction [OF Cons.prems(1), of idx t cfg n ts receipts w] Cons.prems(2) by simp
  then show ?case
    using Cons.IH [of b1 "Suc idx" v] Cons.prems(2) b1 \<open>names_txs H (Suc idx) txs\<close> by simp
qed simp

section \<open>Internal transactions and contracts\<close>

lemma count_txs_none [simp]:
  "\<forall>c \<in> set zs. ctTx c = None \<Longrightarrow> count_txs (cs @ zs) a = count_txs cs a"
  unfolding count_txs_card txs_of_def by (rule arg_cong [where f = "\<lambda>s. int (card s)"]) auto

lemma tallied_zeros:
  assumes "\<forall>c \<in> set zs. ctTx c = None \<and> ctSent c = 0 \<and> ctInternal c = 0 \<and> ctTransfers c = 0"
  shows "tallied ds (cs @ zs) = tallied ds cs"
proof -
  have "sum_of f zs a = 0" if "\<forall>c \<in> set zs. f c = 0" for f a
    using that by (induction zs) auto
  then show ?thesis
    using assms by (simp add: tallied_def)
qed

lemma tallied_touch:
  assumes ds: "tallied ds cs" and key: "\<And>d. adAddress (upd d) = adAddress d"
    and kept: "\<And>d. adTxCount (upd d) = adTxCount d" "\<And>d. adSent (upd d) = adSent d" "\<And>d. adTokenTransfer (upd d) = adTokenTransfer d"
    and added: "\<And>d. adInternalTxCount (upd d) = adInternalTxCount d + k"
  shows "tallied (addressDelta n x upd ds) (cs @ [contribute (ToLower x) None m 0 k 0])"
proof -
  have d: "distinct (map adAddress ds)"
    using ds by (simp add: tallied_def)
  note stats = addressDelta_stat [OF d key]
  have "distinct (map adAddress (addressDelta n x upd ds))"
    using d by (auto simp: addressDelta_keys [OF key])
  moreover have "stat_of adTxCount (addressDelta n x upd ds) a = stat_of adTxCount ds a"
    "stat_of adSent (addressDelta n x upd ds) a = stat_of adSent ds a"
    "stat_of adTokenTransfer (addressDelta n x upd ds) a = stat_of adTokenTransfer ds a"
    "stat_of adInternalTxCount (addressDelta n x upd ds) a = stat_of adInternalTxCount ds a + (if a = ToLower x then k else 0)" for a
    using stats [of adTxCount 0] stats [of adSent 0] stats [of adTokenTransfer 0] stats [of adInternalTxCount k]
    by (simp_all add: kept added)
  ultimately show ?thesis
    using ds by (simp add: tallied_def)
qed

lemma tallied_internal:
  assumes "tallied ds cs"
  shows "tallied (count_internal n it ds) (cs @ internal_contributions (lower_internal it))"
proof -
  let ?more = "\<lambda>d. d\<lparr>adInternalTxCount := adInternalTxCount d + 1\<rparr>"
  have one: "tallied (addressDelta n (itFrom it) ?more ds) (cs @ [contribute (ToLower (itFrom it)) None (itBlockNumber it) 0 1 0])"
    by (rule tallied_touch [OF assms]) simp_all
  have "tallied (addressDelta n to ?more (addressDelta n (itFrom it) ?more ds))
      ((cs @ [contribute (ToLower (itFrom it)) None (itBlockNumber it) 0 1 0]) @ [contribute (ToLower to) None (itBlockNumber it) 0 1 0])" for to
    by (rule tallied_touch [OF one]) simp_all
  then show ?thesis
    using one by (simp add: count_internal_def internal_contributions_def lower_internal_def EqualFold_def Let_def split: option.split)
qed

lemma tallied_internals:
  "tallied ds cs \<Longrightarrow>
   tallied (fold (count_internal n) its ds) (cs @ concat (map (internal_contributions \<circ> lower_internal) its))"
proof (induction its arbitrary: ds cs)
  case (Cons it its)
  show ?case
    using Cons.IH [OF tallied_internal [OF Cons.prems, of n it]] by simp
qed simp

lemma tallied_contract:
  assumes "tallied (buAddressStats b) cs" "contract_added n b b'"
  shows "tallied (buAddressStats b') cs"
proof -
  have "tallied (addressDelta n x (\<lambda>d. d\<lparr>adIsContract := True\<rparr>) (buAddressStats b)) cs" for x
    using tallied_touch [OF assms(1), of "\<lambda>d. d\<lparr>adIsContract := True\<rparr>" 0 n x 0] by (simp add: tallied_zeros)
  then show ?thesis
    using assms by (auto simp: contract_added_def add_contract_def)
qed

lemma add_creations_parts:
  assumes "\<forall>c \<in> set (buContracts b). coBlockNumber c = n"
  shows "let b' = fst (run_state (add_creations cfg n its b) w) in
    (tallied (buAddressStats b) cs \<longrightarrow> tallied (buAddressStats b') cs) \<and> buTransactions b' = buTransactions b \<and> buTransfers b' = buTransfers b \<and> buLogs b' = buLogs b \<and>
    (\<forall>c \<in> set (buContracts b'). coBlockNumber c = n)"
  using assms
proof (induction its arbitrary: b w)
  case (Cons it its)
  define b1 where "b1 = fst (run_state (add_creation cfg n it b) w)"
  have b1: "contract_added n b b1"
    using add_creation_added by (simp add: b1_def)
  obtain v where "run_state (add_creation cfg n it b) w = (b1, v)"
    by (metis b1_def prod.collapse)
  then show ?case
    using Cons.IH [OF contract_added_parts(5) [OF b1 Cons.prems], of v] contract_added_parts(1-3) [OF b1]
      tallied_contract [OF _ b1] by (simp add: Let_def)
qed simp

text \<open>The rows of the block carry its number.\<close>

definition rows_at :: "u64 \<Rightarrow> building \<Rightarrow> bool" where
  "rows_at n b \<longleftrightarrow>
     (\<forall>t \<in> set (buTransactions b). txBlockNumber t = n) \<and> (\<forall>l \<in> set (buLogs b). lgBlockNumber l = n) \<and>
     (\<forall>t \<in> set (buTransfers b). ttBlockNumber t = n) \<and> (\<forall>c \<in> set (buContracts b). coBlockNumber c = n)"

lemma rows_at_parts [simp]:
  "rows_at n (add_nft hex m l b) = rows_at n b" "rows_at n (add_work m tok a b) = rows_at n b"
  "rows_at n (add_new_token hex known t a b) = rows_at n b" "rows_at n (countTransferParticipant hex m i a b) = rows_at n b"
  "rows_at n (touchAddressTx m i x upd b) = rows_at n b"
  by (simp_all add: rows_at_def add_nft_def add_work_def add_new_token_def countTransferParticipant_def touchAddressTx_def)

lemma rows_at_logs: "rows_at n b \<Longrightarrow> rows_at n (fold (add_log_row hex known n ts i t) ls b)"
proof (induction ls arbitrary: b)
  case (Cons l ls)
  have "rows_at n (add_log_row hex known n ts i t l b)"
    using Cons.prems unfolding add_log_row_def add_transfer_def Let_def
    by (simp add: rows_at_def log_of_def transfer_of_def flip: rows_at_def) (auto simp: rows_at_def)
  then show ?case
    using Cons.IH by simp
qed simp

lemma rows_at_added: "rows_at n b \<Longrightarrow> contract_added n b b' \<Longrightarrow> rows_at n b'"
  using contract_added_parts(1-3,5) [of n b b'] by (simp add: rows_at_def)

lemma rows_at_transaction:
  assumes "rows_at n b"
  shows "rows_at n (fst (run_state (add_transaction cfg n ts receipts i t b) w))"
proof -
  let ?hex = "Address_Hex (keccak256 w)" and ?r = "receipts (rtHash t)"
  define b1 where "b1 = touch_parties ?hex (contract_cache w) n i t (b\<lparr>buTransactions := buTransactions b @ [transaction_of ?hex n i t ?r]\<rparr>)"
  obtain b2 v where b2: "run_state (created_contract cfg ?hex n t ?r b1) w = (b2, v)"
    by fastforce
  have "rows_at n (b\<lparr>buTransactions := buTransactions b @ [transaction_of ?hex n i t ?r]\<rparr>)"
    using assms by (auto simp: rows_at_def transaction_of_def)
  then have "rows_at n b1"
    by (simp add: b1_def touch_parties_def Let_def split: option.split)
  then have "rows_at n b2"
    using rows_at_added created_contract_added [of n b1 cfg ?hex t ?r w] b2 by simp
  then show ?thesis
    using b2 rows_at_logs by (simp add: add_transaction_def Let_def b1_def [symmetric] split: option.split)
qed

lemma rows_at_transactions:
  "rows_at n b \<Longrightarrow> rows_at n (fst (run_state (add_transactions cfg n ts receipts idx txs b) w))"
proof (induction txs arbitrary: idx b w)
  case (Cons t txs)
  obtain b1 v where "run_state (add_transaction cfg n ts receipts idx t b) w = (b1, v)"
    by fastforce
  then show ?case
    using Cons.IH [of b1 "Suc idx" v] rows_at_transaction [OF Cons.prems, of cfg ts receipts idx t w] by simp
qed simp

lemma flatten_inner:
  assumes "it \<in> set (tl (FlattenCallFrame f txh n ts))"
  shows "itBlockNumber it = n \<and> itTraceAddress it \<noteq> []"
proof -
  let ?rows = "FlattenCallFrame f txh n ts"
  have "distinct (map itTraceAddress ?rows)"
    using distinct_paths(1) [of f "[]"]
    by (auto simp: FlattenCallFrame_def flatten_addresses distinct_map inj_on_def dest: trace_address_inj)
  moreover obtain rest where "?rows = hd ?rows # rest" "itTraceAddress (hd ?rows) = []"
    by (cases f) (simp add: FlattenCallFrame_def frame_row_def)
  ultimately have "itTraceAddress it \<noteq> []"
    using assms by (metis distinct.simps(2) image_eqI list.map(2) list.sel(3) list.set_map)
  moreover have "it \<in> set ?rows"
    using assms by (cases ?rows) auto
  ultimately show ?thesis
    using flatten_rows(1) [of f txh n ts "[]"] by (simp add: FlattenCallFrame_def)
qed

lemma block_traces_inner:
  "block_traces mode es n ts hs = Inr its \<Longrightarrow> it \<in> set its \<Longrightarrow> itBlockNumber it = n \<and> itTraceAddress it \<noteq> []"
proof (induction hs arbitrary: its)
  case (Cons h hs)
  then show ?case
    by (auto simp: Let_def dest: flatten_inner split: if_splits sum.splits)
qed simp

lemma traces_per_tx_inner:
  "fst (run_state (traces_per_tx mode n ts hs) w) = Inr its \<Longrightarrow> it \<in> set its \<Longrightarrow> itBlockNumber it = n \<and> itTraceAddress it \<noteq> []"
proof (induction hs arbitrary: w its)
  case (Cons h hs)
  obtain r v where r: "run_state (if ctx_done w (calls w) then State_Monad.return (Inl (Transport ''context canceled'')) else traceTransaction h)
      (w\<lparr>calls := Suc (calls w)\<rparr>) = (r, v)"
    by fastforce
  show ?case
  proof (cases r)
    case (Inl e)
    then show ?thesis
      using Cons r by (auto split: if_splits)
  next
    case (Inr frame)
    obtain r' v' where r': "run_state (traces_per_tx mode n ts hs) v = (r', v')"
      by fastforce
    show ?thesis
    proof (cases r')
      case (Inr rest)
      then have "its = tl (FlattenCallFrame frame (Hash_Hex h) n (Some ts)) @ rest"
        using Cons.prems(1) r r' \<open>r = Inr frame\<close> by (auto split: if_splits)
      then show ?thesis
        using Cons.IH [of v rest] Cons.prems(2) r' Inr flatten_inner by auto
    qed (use Cons.prems(1) r r' Inr in \<open>auto split: if_splits\<close>)
  qed
qed simp

lemma fetch_traces_inner:
  "fst (run_state (fetch_traces cfg hs n ts) w) = Inr its \<Longrightarrow> it \<in> set its \<Longrightarrow> itBlockNumber it = n \<and> itTraceAddress it \<noteq> []"
  by (auto simp: fetch_traces_def FetchTracesBatchStrict_def FetchTracesBatchSkippingRefusals_def FetchTracesBatch_def fetchTraces_def
      dest: block_traces_inner traces_per_tx_inner split: if_splits sum.splits prod.splits)

section \<open>Properties\<close>

text \<open>A block of two transactions from one sender; the second one transfers a token.\<close>

definition sample_tx :: "byte \<Rightarrow> raw_transaction" where
  "sample_tx h = \<lparr>rtHash = replicate 32 h, rtFrom = replicate 20 7, rtTo = Some (replicate 20 8), rtValue = Some 5, rtGas = 21000,
     rtGasPrice = Some 1, rtInput = [], rtNonce = Some 0, rtType = 2, rtMaxFeePerGas = None, rtMaxPriorityFeePerGas = None\<rparr>"

definition sample_raw :: raw_block where
  "sample_raw = \<lparr>rbNumber = Some 5, rbHash = replicate 32 9, rbParentHash = replicate 32 8, rbTimestamp = 60, rbGasUsed = 42000,
     rbGasLimit = 30000000, rbBaseFeePerGas = Some 7, rbMiner = replicate 20 6, rbDifficulty = None, rbTotalDifficulty = None,
     rbSize = 900, rbNonce = [], rbExtraData = [], rbStateRoot = zero_Hash, rbTransactionsRoot = zero_Hash,
     rbReceiptsRoot = zero_Hash, rbTransactions = [sample_tx 1, sample_tx 2]\<rparr>"

definition sample_receipts :: receipts where
  "sample_receipts = [replicate 32 2 \<mapsto> \<lparr>rcStatus = 1, rcGasUsed = 21000, rcContractAddress = zero_Address,
     rcLogs = [\<lparr>leAddress = replicate 20 3, leTopics = [transferTopic, replicate 32 7, replicate 32 4],
                leData = [10], leIndex = 0, leRemoved = False\<rparr>]\<rparr>]"

definition sample_builder :: builder_config where
  "sample_builder = \<lparr>SkipReceiptTxTypes = [], SkipAddressStats = False, CountersOnly = True, StrictTraces = False,
     CodeAtBlock = False, SkipTraceRefusals = False, tracingSupported = False\<rparr>"

text \<open>A call that creates a contract and then reverts.\<close>

definition reverted_call :: call_frame where
  "reverted_call = CallFrame ''CALL'' ''0xaa'' ''0xbb'' None 9 9 ''0x'' ''0x'' ''execution reverted''
     [CallFrame ''CREATE'' ''0xbb'' ''0xcc'' None 5 5 ''0x60'' ''0x6001'' [] []]"

definition sample_sender :: string where
  "sample_sender = Hash_Hex (replicate 20 7)"

text \<open>The block as the two loops leave it.\<close>

lemma buildBlock_parts:
  assumes rows: "rows_at n b1" and run: "run_state (add_traces cfg hs n ts b1) w = ((e, its, b2), w')"
  shows "rows_at n b2 \<and> (\<forall>it \<in> set its. itBlockNumber it = n) \<and> buTransactions b2 = buTransactions b1 \<and>
    buTransfers b2 = buTransfers b1 \<and>
    (tallied (buAddressStats b1) cs \<longrightarrow>
     tallied (buAddressStats b2) (cs @ concat (map (internal_contributions \<circ> lower_internal) its)))"
proof (cases "\<not> tracingSupported cfg \<or> hs = []")
  case False
  obtain r v where r: "run_state (fetch_traces cfg hs n ts) w = (r, v)"
    by fastforce
  show ?thesis
  proof (cases r)
    case (Inr xs)
    let ?b = "b1\<lparr>buAddressStats := fold (count_internal n) xs (buAddressStats b1)\<rparr>"
    have out: "its = xs" "b2 = fst (run_state (add_creations cfg n (internalCreations xs) ?b) v)"
      using run False r Inr by (auto simp: add_traces_def split: prod.splits)
    have "\<forall>c \<in> set (buContracts ?b). coBlockNumber c = n"
      using rows by (simp add: rows_at_def)
    from add_creations_parts [OF this, of cfg "internalCreations xs" v "cs @ concat (map (internal_contributions \<circ> lower_internal) xs)"]
    show ?thesis
      using tallied_internals [of "buAddressStats b1" cs n xs] fetch_traces_inner [of cfg hs n ts w xs] r Inr rows unfolding out by (auto simp: Let_def rows_at_def)
  qed (use run False r assms in \<open>auto simp: add_traces_def\<close>)
qed (use run assms in \<open>auto simp: add_traces_def\<close>)

lemma transactions_tallied:
  assumes "distinct (map rtHash txs)"
  shows "let b = fst (run_state (add_transactions cfg n ts receipts 0 txs building_start) w) in
    tallied (buAddressStats (count_address_txs b)) (row_contributions (buTransactions b) (buTransfers b))"
proof -
  define H where "H = (\<lambda>i. Hash_Hex (rtHash (txs ! i)))"
  have "counted_rows H (length txs) building_start"
    by (simp add: counted_rows_def counted_def building_start_def row_contributions_def txs_of_def)
  then have "counted_rows H (length txs) (fst (run_state (add_transactions cfg n ts receipts 0 txs building_start) w))"
    by (rule counted_transactions) (simp_all add: names_txs_def H_def)
  moreover have "inj_on H {..<length txs}"
    using nth_eq_iff_index_eq [OF assms] by (fastforce simp: inj_on_def H_def Hash_Hex_inject)
  ultimately show ?thesis
    using counted_tallied by (simp add: counted_rows_def Let_def)
qed

lemma buildBlock_data:
  "let data = bbData (fst (run_state (buildBlock cfg raw receipts) w)) in
   rows_of (NumberU64 raw) data \<and>
   (distinct (map rtHash (rbTransactions raw)) \<longrightarrow> tallied (bdAddressStats data) (data_contributions data))"
proof -
  let ?n = "NumberU64 raw" and ?ts = "rbTimestamp raw" and ?txs = "rbTransactions raw"
  obtain b1 w1 where b1: "run_state (add_transactions cfg ?n ?ts receipts 0 ?txs building_start) w = (b1, w1)"
    by fastforce
  obtain e its b2 w2 where b2: "run_state (add_traces cfg (receiptTxHashes cfg raw) ?n ?ts (count_address_txs b1)) w1 = ((e, its, b2), w2)"
    by (metis prod.collapse)
  have tally: "tallied (buAddressStats (count_address_txs b1)) (row_contributions (buTransactions b1) (buTransfers b1))"
    if "distinct (map rtHash ?txs)"
    using transactions_tallied [OF that, of cfg ?n ?ts receipts w] b1 by simp
  have "rows_at ?n (count_address_txs b1)" "buTransactions (count_address_txs b1) = buTransactions b1"
    "buTransfers (count_address_txs b1) = buTransfers b1"
    using rows_at_transactions [of ?n building_start cfg ?ts receipts 0 ?txs w] b1
    by (simp_all add: rows_at_def building_start_def count_address_txs_def)
  note parts = buildBlock_parts [OF this(1) b2, of "row_contributions (buTransactions b1) (buTransfers b1)", unfolded this(2,3)]
  moreover obtain toks w3 where "run_state (discover_tokens cfg ?n b2) w2 = (toks, w3)"
    by fastforce
  moreover obtain nfts w4 where "run_state (attach_uris cfg b2) w3 = (nfts, w4)"
    by fastforce
  ultimately show ?thesis
    using b1 b2 tally tallied_zeros [of "map (\<lambda>c. contribute (ToLower (coAddress c)) None (coBlockNumber c) 0 0 0) (buContracts b2)"
        "buAddressStats b2" "row_contributions (buTransactions b2) (buTransfers b2) @ concat (map (internal_contributions \<circ> lower_internal) its)"]
    by (simp add: buildBlock_def Let_def rows_of_def rows_at_def raw_block_row_def data_contributions_def)
qed

text \<open>C23. The statistics a block is built with are those its rows contribute: for every address, the transactions, the
  internal transactions, the token transfers and the nonces that ingest adds are what the ledger recounts from the
  stored form of the block's own transactions, transfers and traces, the quantities a revert of the block subtracts.
  There is one delta per address.  The transactions of a block have different hashes.\<close>

theorem buildBlock_counts_the_ledger:
  assumes "distinct (map rtHash (rbTransactions raw))"
    and "data = bbData (fst (run_state (buildBlock cfg raw receipts) w))" and "cs = data_contributions data"
  shows "stat_of adTxCount (bdAddressStats data) a = count_txs cs a \<and>
    stat_of adInternalTxCount (bdAddressStats data) a = sum_of ctInternal cs a \<and>
    stat_of adSent (bdAddressStats data) a = sum_of ctSent cs a \<and>
    stat_of adTokenTransfer (bdAddressStats data) a = sum_of ctTransfers cs a \<and>
    distinct (map adAddress (bdAddressStats data))"
  using assms(1) buildBlock_data [of cfg raw receipts w] by (simp add: assms(2,3) tallied_def Let_def)

lemma buildBlock_counts_the_ledger_witness:
  "let data = bbData (fst (run_state (buildBlock sample_builder sample_raw sample_receipts) empty_world)) in
   map rtHash (rbTransactions sample_raw) = [replicate 32 1, replicate 32 2] \<and>
   stat_of adTxCount (bdAddressStats data) sample_sender = count_txs (data_contributions data) sample_sender \<and>
   stat_of adTokenTransfer (bdAddressStats data) sample_sender = sum_of ctTransfers (data_contributions data) sample_sender"
proof -
  have hashes: "map rtHash (rbTransactions sample_raw) = [replicate 32 1, replicate 32 2]" "replicate 32 1 \<noteq> replicate 32 (2 :: byte)"
    by (simp_all add: sample_raw_def sample_tx_def)
  then have "distinct (map rtHash (rbTransactions sample_raw))"
    by simp
  then show ?thesis
    using hashes(1) buildBlock_counts_the_ledger [OF _ refl refl, of sample_raw sample_builder sample_receipts empty_world sample_sender]
    by (simp only: Let_def simp_thms)
qed



end
