(* ===== verification/Head_Reorg.thy ===== *)
theory Head_Reorg
  imports Block_Builder
begin

text \<open>
  Finding and reverting a stale fork: \<open>detectReorg\<close>, \<open>handleReorg\<close> and \<open>revertStaleHead\<close> of
  \<open>internal/indexer/indexer.go\<close>, and the revert of one block that holds the balance pool's epoch
  (\<open>internal/indexer/balance_rereads.go\<close>).

  A transaction whose connection is refused ends before it takes the daily-stats lock; one whose
  acknowledgement is lost has taken it.  Waits between two tries change nothing and are left out.
\<close>

section \<open>One block\<close>

text \<open>\<open>SetEpoch\<close>; the pool's epoch never goes down.\<close>

definition SetEpoch :: "nat \<Rightarrow> world \<Rightarrow> world" where
  "SetEpoch e w = (case pool_epoch w of None \<Rightarrow> w | Some cur \<Rightarrow> w\<lparr>pool_epoch := Some (max cur e)\<rparr>)"

definition loadBalanceEpoch :: "unit dbm" where
  "loadBalanceEpoch = do {
     w \<leftarrow> State_Monad.get;
     if pool_epoch w = None then State_Monad.return (Inr ())
     else do {
       r \<leftarrow> CurrentBalanceEpoch;
       case r of
         Inl e \<Rightarrow> State_Monad.return (Inl e)
       | Inr e \<Rightarrow> do { State_Monad.update (SetEpoch e); State_Monad.return (Inr ()) }
     }
   }"

text \<open>The release \<open>holdBalanceEpoch\<close> returns: it reads the epoch until it is read, or the context is done.\<close>

lemma run_query_error_faults:
  assumes "run_state (run_query q) w = (Inl e, w')"
  shows "length (faults w') < length (faults w)"
  using assms by (auto simp: run_query_def run_tx_def Let_def split: list.splits fault.splits)

function release_epoch :: "world \<Rightarrow> world" where
  "release_epoch w =
     (case run_state CurrentBalanceEpoch w of
        (Inr e, w1) \<Rightarrow> SetEpoch e w1
      | (Inl _, w1) \<Rightarrow>
          (case run_state ctx_Err w1 of
             (cancelled, w2) \<Rightarrow> if cancelled then SetEpoch 0 w2 else release_epoch w2))"
  by pat_completeness auto

termination
  by (relation "measure (\<lambda>w. length (faults w))")
    (auto simp: CurrentBalanceEpoch_def dest!: sym [of "(_, _)"] dest: run_query_error_faults)

definition DeleteBlockLocked :: "u64 \<Rightarrow> (world, (db_error + unit) \<times> bool) state" where
  "DeleteBlockLocked number = do {
     w \<leftarrow> State_Monad.get;
     r \<leftarrow> DeleteBlock number;
     State_Monad.return (r, (case faults w of Refused # _ \<Rightarrow> False | _ \<Rightarrow> \<not> isl (daily_stats_invalidate number (w\<lparr>faults := tl (faults w)\<rparr>))))
   }"

definition revertBlockHoldingEpoch :: "u64 \<Rightarrow> unit dbm" where
  "revertBlockHoldingEpoch number = do {
     (r, locked) \<leftarrow> DeleteBlockLocked number;
     w \<leftarrow> State_Monad.get;
     State_Monad.update (if locked \<and> pool_epoch w \<noteq> None then release_epoch else id);
     State_Monad.return r
   }"

section \<open>A fork\<close>

text \<open>
  The loop of \<open>handleReorg\<close> counts down in \<open>uint64\<close>.  Its callers pass a block above 0; below block 0 the
  counter wraps to a number that does not fit the column, which the driver refuses.
\<close>

fun revert_down :: "u64 \<Rightarrow> u64 \<Rightarrow> unit dbm" where
  "revert_down fromBlock blockNum =
     (if blockNum < fromBlock then State_Monad.return (Inr ())
      else do {
        r \<leftarrow> revertBlockHoldingEpoch blockNum;
        case r of
          Inl e \<Rightarrow> State_Monad.return (Inl e)
        | Inr _ \<Rightarrow>
            if blockNum = 0 then State_Monad.return (Inl (InvalidValue ''number''))
            else revert_down fromBlock (blockNum - 1)
      })"

declare revert_down.simps [simp del]

definition handleReorg :: "u64 \<Rightarrow> unit dbm" where
  "handleReorg fromBlock = do {
     r \<leftarrow> GetLatestBlockNumber;
     case r of
       Inl e \<Rightarrow> State_Monad.return (Inl e)
     | Inr lastIndexed \<Rightarrow> revert_down fromBlock lastIndexed
   }"

definition maxReorgCheck :: nat where "maxReorgCheck = 10"

definition maxReorgDepth :: nat where "maxReorgDepth = 128"

definition staleHeadWindow :: nat where "staleHeadWindow = 10"

text \<open>\<open>detectReorg\<close>: the depths still to read, and the deepest mismatch so far; an error comes with it.\<close>

fun detect_depths :: "u64 \<Rightarrow> nat list \<Rightarrow> nat \<Rightarrow> (world, (process_error option \<times> nat)) state" where
  "detect_depths blockNumber [] deepest = State_Monad.return (None, deepest)"
| "detect_depths blockNumber (depth # depths) deepest = do {
     s \<leftarrow> GetBlock (blockNumber - depth);
     case s of
       Inl e \<Rightarrow> State_Monad.return (Some (DbError e), deepest)
     | Inr None \<Rightarrow> detect_depths blockNumber depths deepest
     | Inr (Some b) \<Rightarrow> do {
         h \<leftarrow> RawBlockHash (blockNumber - depth);
         case h of
           Inl e \<Rightarrow> State_Monad.return (Some (NodeError e), deepest)
         | Inr chainHash \<Rightarrow>
             if bHash b = chainHash then detect_depths blockNumber depths deepest
             else detect_depths blockNumber depths (depth + 1)
       }
   }"

definition detectReorg :: "u64 \<Rightarrow> (world, (process_error option \<times> nat)) state" where
  "detectReorg blockNumber = detect_depths blockNumber [0..<min maxReorgCheck blockNumber] 0"

section \<open>The stored head at the start\<close>

datatype head_error = HeadCtx | HeadDb db_error | HeadNode rpc_error | StaleForkTooDeep | RevertFailed db_error

text \<open>The walk of \<open>revertStaleHead\<close>: the deepest mismatch and the blocks the node does not serve.\<close>

fun stale_walk :: "u64 \<Rightarrow> nat list \<Rightarrow> nat \<Rightarrow> u64 list \<Rightarrow> (world, head_error + nat \<times> u64 list) state" where
  "stale_walk head [] depth skipped = State_Monad.return (Inr (depth, skipped))"
| "stale_walk head (d # ds) depth skipped = do {
     s \<leftarrow> GetBlock (head - d);
     case s of
       Inl e \<Rightarrow> do {
         cancelled \<leftarrow> ctx_Err;
         State_Monad.return (Inl (if cancelled then HeadCtx else HeadDb e))
       }
     | Inr None \<Rightarrow> stale_walk head ds depth skipped
     | Inr (Some b) \<Rightarrow> do {
         h \<leftarrow> RawBlockHash (head - d);
         case h of
           Inl e \<Rightarrow>
             if e = BlockNotAvailable
             then (if staleHeadWindow \<le> length (skipped @ [head - d]) then State_Monad.return (Inr (depth, skipped @ [head - d]))
                   else stale_walk head ds depth (skipped @ [head - d]))
             else State_Monad.return (Inl (HeadNode e))
         | Inr chainHash \<Rightarrow>
             if bHash b = chainHash
             then (if staleHeadWindow \<le> d + 1 then State_Monad.return (Inr (depth, skipped)) else stale_walk head ds depth skipped)
             else if maxReorgDepth < d + 1 then State_Monad.return (Inl StaleForkTooDeep)
             else stale_walk head ds (d + 1) skipped
       }
   }"

definition revertStaleHead :: "u64 \<Rightarrow> (world, head_error + u64 \<times> u64 list) state" where
  "revertStaleHead head = do {
     r \<leftarrow> stale_walk head [0..<min head (maxReorgDepth + 1)] 0 [];
     case r of
       Inl e \<Rightarrow> State_Monad.return (Inl e)
     | Inr (depth, skipped) \<Rightarrow>
         if depth = 0 then State_Monad.return (Inr (head, skipped))
         else do {
           h \<leftarrow> handleReorg (head - depth + 1);
           case h of
             Inl e \<Rightarrow> State_Monad.return (Inl (RevertFailed e))
           | Inr _ \<Rightarrow> State_Monad.return (Inr (head - depth, filter (\<lambda>n. n \<le> head - depth) skipped))
         }
   }"

section \<open>Frames\<close>

declare release_epoch.simps [simp del]

lemma run_state_update [simp]: "run_state (State_Monad.update f) w = ((), f w)"
  by (simp add: State_Monad.update_def State_Monad.get_def State_Monad.set_def)

text \<open>The two ways a try goes.\<close>

lemma release_epoch_cases:
  obtains (read) "release_epoch w = SetEpoch (balance_reorg_epoch (bal w)) (w\<lparr>faults := tl (faults w)\<rparr>)"
  | (cancelled) "release_epoch w = SetEpoch 0 (w\<lparr>faults := tl (faults w), calls := calls w + 1\<rparr>)" "ctx_done w (calls w)" "faults w \<noteq> []"
  | (again) "release_epoch w = release_epoch (w\<lparr>faults := tl (faults w), calls := calls w + 1\<rparr>)" "faults w \<noteq> []"
proof (rule run_query_cases [of "\<lambda>w. balance_reorg_epoch (bal w)" w])
  assume "fst (run_state (run_query (\<lambda>w. balance_reorg_epoch (bal w))) w) = Inr (balance_reorg_epoch (bal (w\<lparr>faults := tl (faults w)\<rparr>)))"
    "snd (run_state (run_query (\<lambda>w. balance_reorg_epoch (bal w))) w) = w\<lparr>faults := tl (faults w)\<rparr>"
  then have "run_state CurrentBalanceEpoch w = (Inr (balance_reorg_epoch (bal w)), w\<lparr>faults := tl (faults w)\<rparr>)"
    by (simp add: CurrentBalanceEpoch_def prod_eq_iff)
  then show ?thesis
    by (intro read) (subst release_epoch.simps, simp)
next
  assume "fst (run_state (run_query (\<lambda>w. balance_reorg_epoch (bal w))) w) = Inl ConnLost" and ne: "faults w \<noteq> []"
    and "snd (run_state (run_query (\<lambda>w. balance_reorg_epoch (bal w))) w) = w\<lparr>faults := tl (faults w)\<rparr>"
  then have "run_state CurrentBalanceEpoch w = (Inl ConnLost, w\<lparr>faults := tl (faults w)\<rparr>)"
    by (simp add: CurrentBalanceEpoch_def prod_eq_iff)
  then have "release_epoch w = (if ctx_done w (calls w) then SetEpoch 0 (w\<lparr>faults := tl (faults w), calls := calls w + 1\<rparr>)
      else release_epoch (w\<lparr>faults := tl (faults w), calls := calls w + 1\<rparr>))"
    by (subst release_epoch.simps) simp
  then show ?thesis
    using cancelled again ne by (cases "ctx_done w (calls w)") simp_all
qed

lemma SetEpoch_frame: "\<exists>e. SetEpoch x w = w\<lparr>pool_epoch := e\<rparr>"
proof (cases "pool_epoch w")
  case None
  then have "SetEpoch x w = w\<lparr>pool_epoch := None\<rparr>"
    by (cases w) (simp add: SetEpoch_def)
  then show ?thesis
    by blast
qed (auto simp: SetEpoch_def)

lemma release_epoch_frame: "\<exists>fs k e. release_epoch w = w\<lparr>faults := fs, calls := k, pool_epoch := e\<rparr>"
proof (induction "length (faults w)" arbitrary: w rule: less_induct)
  case less
  show ?case
  proof (rule release_epoch_cases [of w])
    assume "release_epoch w = SetEpoch (balance_reorg_epoch (bal w)) (w\<lparr>faults := tl (faults w)\<rparr>)"
    moreover obtain e where "SetEpoch (balance_reorg_epoch (bal w)) (w\<lparr>faults := tl (faults w)\<rparr>) = w\<lparr>faults := tl (faults w), pool_epoch := e\<rparr>"
      using SetEpoch_frame by metis
    ultimately have "release_epoch w = w\<lparr>faults := tl (faults w), calls := calls w, pool_epoch := e\<rparr>"
      by simp
    then show ?thesis
      by blast
  next
    assume "release_epoch w = SetEpoch 0 (w\<lparr>faults := tl (faults w), calls := calls w + 1\<rparr>)"
    then show ?thesis
      using SetEpoch_frame by metis
  next
    assume again: "release_epoch w = release_epoch (w\<lparr>faults := tl (faults w), calls := calls w + 1\<rparr>)" and "faults w \<noteq> []"
    then have "\<exists>fs k e. release_epoch (w\<lparr>faults := tl (faults w), calls := calls w + 1\<rparr>) =
        w\<lparr>faults := tl (faults w), calls := calls w + 1\<rparr>\<lparr>faults := fs, calls := k, pool_epoch := e\<rparr>"
      by (intro less) simp
    then show ?thesis
      unfolding again by simp
  qed
qed

lemma bal_release_epoch [simp]: "bal (release_epoch w) = bal w"
  using release_epoch_frame [of w] by auto

text \<open>Unless the context ends, the pool's epoch is then the database's or later.\<close>

lemma release_epoch_reads:
  assumes "pool_epoch w \<noteq> None" "\<And>k. \<not> ctx_done w k"
  shows "\<exists>e. pool_epoch (release_epoch w) = Some e \<and> balance_reorg_epoch (bal w) \<le> e"
  using assms
proof (induction "length (faults w)" arbitrary: w rule: less_induct)
  case less
  show ?case
  proof (rule release_epoch_cases [of w])
    assume again: "release_epoch w = release_epoch (w\<lparr>faults := tl (faults w), calls := calls w + 1\<rparr>)" and "faults w \<noteq> []"
    then show ?thesis
      unfolding again using less.hyps [of "w\<lparr>faults := tl (faults w), calls := calls w + 1\<rparr>"] less.prems by simp
  qed (use less.prems in \<open>auto simp: SetEpoch_def\<close>)
qed

text \<open>A revert of one block, seen from the tables.\<close>

definition one_revert :: "u64 \<Rightarrow> db_error + unit \<Rightarrow> world \<Rightarrow> world \<Rightarrow> bool" where
  "one_revert n r w w' \<longleftrightarrow>
     (\<exists>v fs k e. w' = v\<lparr>faults := fs, calls := k, pool_epoch := e\<rparr> \<and>
        (v = w \<and> r \<noteq> Inr () \<or> (\<exists>fs0. revert_block n (w\<lparr>faults := fs0\<rparr>) = Inr v)))"

lemma one_revert_failed:
  "r \<noteq> Inr () \<Longrightarrow> one_revert n r w (w\<lparr>faults := fs, calls := k, pool_epoch := e\<rparr>)"
  unfolding one_revert_def by blast

lemma revertBlockHoldingEpoch_reverts:
  assumes "run_state (revertBlockHoldingEpoch n) w = (r, w')"
  shows "one_revert n r w w'"
proof -
  obtain r1 w1 where del: "run_state (DeleteBlock n) w = (r1, w1)"
    by fastforce
  have r: "r = r1" and out: "w' = w1 \<or> w' = release_epoch w1"
    using assms del by (auto simp: revertBlockHoldingEpoch_def DeleteBlockLocked_def split: if_splits)
  from out have w': "\<exists>fs k e. w' = w1\<lparr>faults := fs, calls := k, pool_epoch := e\<rparr>"
  proof
    assume "w' = w1"
    moreover have "w1 = w1\<lparr>faults := faults w1, calls := calls w1, pool_epoch := pool_epoch w1\<rparr>"
      by (cases w1) simp
    ultimately show ?thesis
      by blast
  qed (use release_epoch_frame [of w1] in blast)
  show ?thesis
  proof (rule tx_of_cases [of "revert_block n" w])
    fix v
    assume "revert_block n (w\<lparr>faults := tl (faults w)\<rparr>) = Inr v" "run_state (tx_of (revert_block n)) w = (Inr (), v)"
    then show ?thesis
      using del w' r unfolding one_revert_def DeleteBlock_def by auto
  next
    fix v
    assume "revert_block n (w\<lparr>faults := tl (faults w)\<rparr>) = Inr v" "run_state (tx_of (revert_block n)) w = (Inl ConnLost, v)"
    then show ?thesis
      using del w' r unfolding one_revert_def DeleteBlock_def by auto
  qed (use del w' r in \<open>auto simp: DeleteBlock_def intro: one_revert_failed\<close>)
qed


lemma one_revert_blocks:
  assumes "one_revert n r w w'"
  shows "blocks w' = blocks w \<and> r \<noteq> Inr () \<or> blocks w' = filter (\<lambda>b. bNumber b \<noteq> n) (blocks w)"
proof -
  obtain v fs k e where w': "w' = v\<lparr>faults := fs, calls := k, pool_epoch := e\<rparr>"
    and v: "v = w \<and> r \<noteq> Inr () \<or> (\<exists>fs0. revert_block n (w\<lparr>faults := fs0\<rparr>) = Inr v)"
    using assms unfolding one_revert_def by blast
  from v show ?thesis
    using revert_block_tables(1) [of n "w\<lparr>faults := _\<rparr>" v] by (auto simp: w')
qed

text \<open>The loop takes blocks off the end, down to where it stops.\<close>

lemma revert_down_prefix:
  assumes "run_state (revert_down f n) w = (r, w')" "\<forall>b \<in> set (blocks w). bNumber b \<le> n" "0 < f"
  shows "\<exists>m. f \<le> m \<and> (r = Inr () \<longrightarrow> m = f) \<and> blocks w' = filter (\<lambda>b. bNumber b < m) (blocks w)"
  using assms
proof (induction f n arbitrary: w rule: revert_down.induct)
  case (1 f n)
  have all: "filter (\<lambda>b. bNumber b < m) (blocks w) = blocks w" if "n < m" for m
    using "1.prems"(2) that by (auto simp: filter_id_conv)
  show ?case
  proof (cases "n < f")
    case True
    then show ?thesis
      using "1.prems"(1) all [of f] by (auto simp: revert_down.simps [of f n])
  next
    case False
    obtain r1 w1 where run: "run_state (revertBlockHoldingEpoch n) w = (r1, w1)"
      by fastforce
    note step = one_revert_blocks [OF revertBlockHoldingEpoch_reverts [OF run]]
    have below: "filter (\<lambda>b. bNumber b \<noteq> n) (blocks w) = filter (\<lambda>b. bNumber b < n) (blocks w)"
      using "1.prems"(2) by (intro filter_cong) force+
    show ?thesis
    proof (cases r1)
      case (Inl e)
      then have "r \<noteq> Inr ()" "w' = w1"
        using "1.prems"(1) False run by (auto simp: revert_down.simps [of f n])
      then show ?thesis
        using step below all [of "Suc n"] False by (metis le_SucI lessI not_less)
    next
      case (Inr u)
      have n: "0 < n"
        using False "1.prems"(3) by simp
      have rows: "blocks w1 = filter (\<lambda>b. bNumber b < n) (blocks w)"
        using step Inr below by simp
      have "run_state (revert_down f (n - 1)) w1 = (r, w')"
        using "1.prems"(1) False run Inr n by (simp add: revert_down.simps [of f n])
      moreover have "\<forall>b \<in> set (blocks w1). bNumber b \<le> n - 1"
        using rows by auto
      ultimately obtain m where m: "f \<le> m" "r = Inr () \<longrightarrow> m = f" "blocks w' = filter (\<lambda>b. bNumber b < m) (blocks w1)"
        using "1.IH" [OF False] n "1.prems"(3) by auto
      have "filter (\<lambda>b. bNumber b < m) (blocks w1) = filter (\<lambda>b. bNumber b < min m n) (blocks w)"
        unfolding rows by (auto intro: filter_cong)
      moreover have "f \<le> min m n" "r = Inr () \<longrightarrow> min m n = f"
        using m False by auto
      ultimately show ?thesis
        using m(3) by metis
    qed
  qed
qed

lemma handleReorg_prefix:
  assumes "run_state (handleReorg f) w = (r, w')" "0 < f"
  shows "\<exists>m. f \<le> m \<and> (r = Inr () \<longrightarrow> m = f) \<and> blocks w' = filter (\<lambda>b. bNumber b < m) (blocks w)"
proof -
  let ?n = "if blocks w = [] then 0 else Max (set (block_numbers w))"
  have top: "bNumber b \<le> ?n" if "b \<in> set (blocks w)" for b
    using that by (auto simp: block_numbers_def)
  show ?thesis
  proof (rule run_query_cases [of "\<lambda>w. if blocks w = [] then 0 else Max (set (block_numbers w))" w])
    assume "fst (run_state (run_query (\<lambda>w. if blocks w = [] then 0 else Max (set (block_numbers w)))) w) =
        Inr (if blocks (w\<lparr>faults := tl (faults w)\<rparr>) = [] then 0 else Max (set (block_numbers (w\<lparr>faults := tl (faults w)\<rparr>))))"
      "snd (run_state (run_query (\<lambda>w. if blocks w = [] then 0 else Max (set (block_numbers w)))) w) = w\<lparr>faults := tl (faults w)\<rparr>"
    then have "run_state GetLatestBlockNumber w = (Inr ?n, w\<lparr>faults := tl (faults w)\<rparr>)"
      by (simp add: GetLatestBlockNumber_def prod_eq_iff block_numbers_def)
    then have "run_state (revert_down f ?n) (w\<lparr>faults := tl (faults w)\<rparr>) = (r, w')"
      using assms(1) by (simp add: handleReorg_def)
    from revert_down_prefix [OF this _ assms(2)] show ?thesis
      using top by simp
  next
    assume "fst (run_state (run_query (\<lambda>w. if blocks w = [] then 0 else Max (set (block_numbers w)))) w) = Inl ConnLost"
      "snd (run_state (run_query (\<lambda>w. if blocks w = [] then 0 else Max (set (block_numbers w)))) w) = w\<lparr>faults := tl (faults w)\<rparr>"
    then have "run_state GetLatestBlockNumber w = (Inl ConnLost, w\<lparr>faults := tl (faults w)\<rparr>)"
      by (simp add: GetLatestBlockNumber_def prod_eq_iff)
    then have "r = Inl ConnLost" "blocks w' = blocks w"
      using assms(1) by (auto simp: handleReorg_def)
    moreover have "blocks w = filter (\<lambda>b. bNumber b < max f (Suc ?n)) (blocks w)"
      using top by (auto simp: filter_id_conv less_max_iff_disj less_Suc_eq_le intro!: filter_id_conv [THEN iffD2, symmetric])
    ultimately show ?thesis
      by (intro exI [of _ "max f (Suc ?n)"]) simp
  qed
qed


text \<open>A revert leaves the process's own state, the missing ranges and the node alone.\<close>

lemma revert_block_frame:
  assumes "revert_block n w = Inr v"
  shows "pool_epoch v = pool_epoch w" "pool_queue v = pool_queue w" "ctx_done v = ctx_done w" "node v = node w" "faults v = faults w"
    "calls v = calls w" "keccak256 v = keccak256 w" "missing_block_ranges v = missing_block_ranges w" "partition_of v = partition_of w"
    "token_cache v = token_cache w" "contract_cache v = contract_cache w" "crashed v = crashed w"
proof -
  obtain d where d: "v = revert_rows n (w\<lparr>daily := d\<rparr>)"
    by (rule revert_block_rows [OF assms])
  obtain keys b ts ns tables kc where v: "v = set_bal (recordBalanceRereads keys)
      (delete_rows n (w\<lparr>daily := d, bal := b, tokens := ts, nft_tokens := ns, addr := tables, chain_counters := kc\<rparr>))"
    unfolding d by (rule revert_rows_parts [of n "w\<lparr>daily := d\<rparr>"]) blast
  show "pool_epoch v = pool_epoch w" "pool_queue v = pool_queue w" "ctx_done v = ctx_done w" "node v = node w" "faults v = faults w"
    "calls v = calls w" "keccak256 v = keccak256 w" "missing_block_ranges v = missing_block_ranges w" "partition_of v = partition_of w"
    "token_cache v = token_cache w" "contract_cache v = contract_cache w" "crashed v = crashed w"
    by (simp_all add: v set_bal_def delete_rows_def)
qed

text \<open>An invariant of the reverts is one of the loops.\<close>

definition process_inv :: "(world \<Rightarrow> bool) \<Rightarrow> bool" where
  "process_inv I \<longleftrightarrow> (\<forall>w fs k e. I w \<longrightarrow> I (w\<lparr>faults := fs\<rparr>) \<and> I (w\<lparr>calls := k\<rparr>) \<and> I (w\<lparr>pool_epoch := e\<rparr>))"

lemma process_inv_table: "process_inv I \<Longrightarrow> table_inv I"
  by (simp add: process_inv_def table_inv_def)

lemma process_invD: "process_inv I \<Longrightarrow> I w \<Longrightarrow> I (w\<lparr>faults := fs, calls := k, pool_epoch := e\<rparr>)"
  by (simp add: process_inv_def)

lemma keeps_revertBlockHoldingEpoch:
  assumes "process_inv I" "\<And>w w'. I w \<Longrightarrow> revert_block n w = Inr w' \<Longrightarrow> I w'"
  shows "keeps I (revertBlockHoldingEpoch n)"
proof (rule keepsI)
  fix w
  assume w: "I w"
  obtain r w' where run: "run_state (revertBlockHoldingEpoch n) w = (r, w')"
    by fastforce
  from revertBlockHoldingEpoch_reverts [OF this] obtain v fs k e where w': "w' = v\<lparr>faults := fs, calls := k, pool_epoch := e\<rparr>"
    and v: "v = w \<or> (\<exists>fs0. revert_block n (w\<lparr>faults := fs0\<rparr>) = Inr v)"
    unfolding one_revert_def by blast
  have "I v"
    using v w assms(2) table_invD(1) [OF process_inv_table [OF assms(1)] w] by blast
  then show "I (snd (run_state (revertBlockHoldingEpoch n) w))"
    using process_invD [OF assms(1)] by (simp add: run w')
qed

lemma keeps_revert_down:
  assumes "process_inv I" "\<And>n w w'. f \<le> n \<Longrightarrow> I w \<Longrightarrow> revert_block n w = Inr w' \<Longrightarrow> I w'"
  shows "keeps I (revert_down f n)"
proof (induction n rule: less_induct)
  case (less n)
  show ?case
  proof (cases "n < f")
    case False
    then have one: "keeps I (revertBlockHoldingEpoch n)"
      using assms by (intro keeps_revertBlockHoldingEpoch) (auto simp: not_less)
    have nxt: "keeps I (if n = 0 then State_Monad.return (Inl (InvalidValue ''number'')) else revert_down f (n - 1))"
      using less by (auto intro: keeps_intros)
    show ?thesis
      by (subst revert_down.simps) (simp only: False if_False, intro keeps_bind one keeps_case_sum keeps_return nxt)
  qed (subst revert_down.simps, simp add: keeps_return)
qed

lemma keeps_handleReorg:
  assumes "process_inv I" "\<And>n w w'. f \<le> n \<Longrightarrow> I w \<Longrightarrow> revert_block n w = Inr w' \<Longrightarrow> I w'"
  shows "keeps I (handleReorg f)"
  unfolding handleReorg_def GetLatestBlockNumber_def
  by (intro keeps_bind keeps_run_query process_inv_table [OF assms(1)] keeps_case_sum keeps_return keeps_revert_down [OF assms])

section \<open>Properties\<close>

text \<open>C26. Reverting a fork takes blocks off the end of the stored chain, whatever database calls fail: what is left are
  the blocks below some number at or above the fork's first block, and exactly those below it when the revert
  reports success.  A failed revert can be run again.\<close>

theorem handleReorg_takes_the_end_off:
  assumes "run_state (handleReorg f) w = (r, w')" "0 < f"
  shows "\<exists>m. f \<le> m \<and> (r = Inr () \<longrightarrow> m = f) \<and> blocks w' = filter (\<lambda>b. bNumber b < m) (blocks w)"
  by (rule handleReorg_prefix [OF assms])

text \<open>C27. Whenever a block's revert changed the balance tables, even when its acknowledgement was lost and however many
  reads of the epoch failed, the balance pool's epoch is afterwards at least the database's, so that no later read
  is stamped with an epoch from before the revert; unless the context ended.\<close>

theorem revert_moves_the_pool_epoch:
  assumes run: "run_state (revertBlockHoldingEpoch n) w = (r, w')" and pool: "pool_epoch w \<noteq> None"
    and alive: "\<And>k. \<not> ctx_done w k"
  shows "bal w' = bal w \<or> (\<exists>e. pool_epoch w' = Some e \<and> balance_reorg_epoch (bal w') \<le> e)"
proof -
  let ?w = "w\<lparr>faults := tl (faults w)\<rparr>"
  have locked: "\<not> isl (daily_stats_invalidate n ?w)" if "revert_block n ?w = Inr v" for v
    using that by (auto simp: revert_block_def split: sum.splits)
  have reads: "\<exists>e. pool_epoch (release_epoch v) = Some e \<and> balance_reorg_epoch (bal (release_epoch v)) \<le> e"
    if v: "revert_block n ?w = Inr v" for v
    using release_epoch_reads [of v] revert_block_frame(1,3) [OF v] pool alive by simp
  show ?thesis
  proof (rule tx_of_cases [of "revert_block n" w])
    fix v
    assume v: "revert_block n ?w = Inr v" and "run_state (tx_of (revert_block n)) w = (Inr (), v)"
    moreover have "\<not> (\<exists>fs. faults w = Refused # fs)"
      using calculation(2) by (auto simp: tx_of_def run_tx_def Let_def split: sum.splits)
    ultimately have "w' = release_epoch v"
      using run revert_block_frame(1) [OF v] pool locked [OF v]
      by (auto simp: revertBlockHoldingEpoch_def DeleteBlockLocked_def DeleteBlock_def split: list.splits fault.splits)
    then show ?thesis
      using reads [OF v] by blast
  next
    fix v
    assume v: "revert_block n ?w = Inr v" and "run_state (tx_of (revert_block n)) w = (Inl ConnLost, v)"
    show ?thesis
    proof (cases "\<exists>fs. faults w = Refused # fs")
      case True
      then show ?thesis
        using run by (auto simp: revertBlockHoldingEpoch_def DeleteBlockLocked_def DeleteBlock_def tx_of_def run_tx_def Let_def)
    next
      case False
      then have "w' = release_epoch v"
        using run revert_block_frame(1) [OF v] pool locked [OF v] \<open>run_state (tx_of (revert_block n)) w = (Inl ConnLost, v)\<close>
        by (auto simp: revertBlockHoldingEpoch_def DeleteBlockLocked_def DeleteBlock_def split: list.splits fault.splits)
      then show ?thesis
        using reads [OF v] by blast
    qed
  qed (use run in \<open>auto simp: revertBlockHoldingEpoch_def DeleteBlockLocked_def DeleteBlock_def revert_block_def
      split: list.splits fault.splits sum.splits if_splits\<close>)
qed

lemma revert_rows_epoch: "balance_reorg_epoch (bal (revert_rows n w)) = balance_reorg_epoch (bal w) + 1"
proof -
  obtain keys hds b where rb: "revertBalances n w = ((keys, hds), w\<lparr>bal := b\<rparr>)" and
    rows: "\<exists>ts ns tables kc'. revert_rows n w = set_bal (recordBalanceRereads keys)
       (delete_rows n (w\<lparr>bal := b, tokens := ts, nft_tokens := ns, addr := tables, chain_counters := kc'\<rparr>))"
    by (rule revert_rows_parts [of n w]) blast
  have "\<exists>hist tbc. snd (revertBalances n w) = w\<lparr>bal := (bal w)\<lparr>balances := hist, token_balances_current := tbc\<rparr>\<rparr>"
    by (rule revertBalances_parts [of n w]) blast
  moreover have "b = bal (snd (revertBalances n w))"
    using rb by simp
  ultimately have "balance_reorg_epoch b = balance_reorg_epoch (bal w)"
    by (elim exE) simp
  then show ?thesis
    using rows by (auto simp: set_bal_def delete_rows_def recordBalanceRereads_def Let_def)
qed

lemma DeleteBlock_ack_lost:
  assumes "faults w = AckLost # fs" "daily_watermark (daily w) = None"
  shows "run_state (DeleteBlock n) w = (Inl ConnLost, revert_rows n (w\<lparr>faults := fs\<rparr>))"
  using assms by (simp add: DeleteBlock_def tx_of_def run_tx_def Let_def revert_block_no_watermark)

lemma revert_moves_the_pool_epoch_witness:
  "let w = empty_world\<lparr>pool_epoch := Some 0, faults := [AckLost, Refused]\<rparr>; w' = snd (run_state (revertBlockHoldingEpoch 5) w) in
   bal w' \<noteq> bal w \<and> (\<exists>e. pool_epoch w' = Some e \<and> balance_reorg_epoch (bal w') \<le> e)"
proof -
  define w where "w = empty_world\<lparr>pool_epoch := Some 0, faults := [AckLost, Refused]\<rparr>"
  define w' where "w' = snd (run_state (revertBlockHoldingEpoch 5) w)"
  obtain r where "run_state (revertBlockHoldingEpoch 5) w = (r, w')"
    by (metis w'_def prod.collapse)
  then have "bal w' = bal w \<or> (\<exists>e. pool_epoch w' = Some e \<and> balance_reorg_epoch (bal w') \<le> e)"
    by (rule revert_moves_the_pool_epoch) (simp_all add: w_def empty_world_def)
  moreover have "run_state (DeleteBlock 5) w = (Inl ConnLost, revert_rows 5 (w\<lparr>faults := [Refused]\<rparr>))"
    by (rule DeleteBlock_ack_lost) (simp_all add: w_def empty_world_def)
  then have "balance_reorg_epoch (bal w') \<noteq> balance_reorg_epoch (bal w)"
    by (auto simp: w'_def revertBlockHoldingEpoch_def DeleteBlockLocked_def revert_rows_epoch)
  ultimately show ?thesis
    by (metis w'_def w_def)
qed

lemma handleReorg_takes_the_end_off_witness:
  "let w = empty_world\<lparr>blocks := [sample_block 5], faults := [Fine, AckLost]\<rparr> in
   case run_state (handleReorg 3) w of
     (r, w') \<Rightarrow> r = Inl ConnLost \<and> (\<exists>m. 3 \<le> m \<and> blocks w' = filter (\<lambda>b. bNumber b < m) [sample_block 5])"
proof -
  define w where "w = empty_world\<lparr>blocks := [sample_block 5], faults := [Fine, AckLost]\<rparr>"
  obtain r w' where run: "run_state (handleReorg 3) w = (r, w')"
    by fastforce
  have "run_state (DeleteBlock 5) (w\<lparr>faults := [AckLost]\<rparr>) = (Inl ConnLost, revert_rows 5 (w\<lparr>faults := []\<rparr>))"
    using DeleteBlock_ack_lost [of "w\<lparr>faults := [AckLost]\<rparr>" "[]" 5] by (simp add: w_def empty_world_def)
  moreover have "run_state GetLatestBlockNumber w = (Inr 5, w\<lparr>faults := [AckLost]\<rparr>)"
    by (simp add: w_def GetLatestBlockNumber_def run_query_def run_tx_def block_numbers_def sample_block_def)
  ultimately have "fst (run_state (handleReorg 3) w) = Inl ConnLost"
    by (simp add: handleReorg_def revert_down.simps [of 3 5] revertBlockHoldingEpoch_def DeleteBlockLocked_def)
  moreover have "blocks w = [sample_block 5]"
    by (simp add: w_def)
  ultimately show ?thesis
    using handleReorg_takes_the_end_off [OF run] run by (auto simp: w_def [symmetric])
qed

text \<open>A node that answers every call for a block alike, and serves those up to a number.\<close>

definition forked :: "world \<Rightarrow> u64 \<Rightarrow> bool" where
  "forked w n \<longleftrightarrow>
     (case (block_at w n, nodeBlock (node w) 0 n) of
        (Some b, Inr raw) \<Rightarrow> bHash b \<noteq> Hash_Hex (rbHash raw)
      | _ \<Rightarrow> False)"

definition steady :: "u64 \<Rightarrow> world \<Rightarrow> bool" where
  "steady n w \<longleftrightarrow> (\<forall>k m. nodeBlock (node w) k m = nodeBlock (node w) 0 m) \<and>
     (\<forall>m \<le> n. \<exists>raw. nodeBlock (node w) 0 m = Inr raw \<and> rbHash raw \<noteq> zero_Hash)"

lemma detect_depths_steady:
  assumes "faults w = []" "steady n w"
  shows "fst (run_state (detect_depths n ds x) w) = (None, fold (\<lambda>d y. if forked w (n - d) then Suc d else y) ds x)"
  using assms
proof (induction ds arbitrary: x w)
  case (Cons d ds)
  have get: "run_state (GetBlock (n - d)) w = (Inr (block_at w (n - d)), w)"
    using Cons.prems(1) by (simp add: GetBlock_def run_query_no_fault)
  obtain raw where raw: "nodeBlock (node w) k (n - d) = Inr raw" "rbHash raw \<noteq> zero_Hash" for k
    using Cons.prems(2) unfolding steady_def by (metis diff_le_self)
  then have hash: "run_state (RawBlockHash (n - d)) w = (Inr (Hash_Hex (rbHash raw)), w\<lparr>calls := calls w + 1\<rparr>)"
    by (simp add: RawBlockHash_def)
  have same: "forked (w\<lparr>calls := k\<rparr>) m = forked w m" "faults (w\<lparr>calls := k\<rparr>) = []" "steady n (w\<lparr>calls := k\<rparr>)" for k m
    using Cons.prems by (simp_all add: forked_def block_at_def steady_def)
  have at: "forked w (n - d) = (case block_at w (n - d) of None \<Rightarrow> False | Some b \<Rightarrow> bHash b \<noteq> Hash_Hex (rbHash raw))"
    by (simp add: forked_def raw(1) split: option.split)
  show ?case
    using Cons.IH [OF Cons.prems] Cons.IH [OF same(2,3)] hash same(1)
    by (cases "block_at w (n - d)") (simp_all add: get at)
qed simp

lemma fold_deepest:
  "fold (\<lambda>d y. if P d then Suc d else y) [0..<m] 0 = Max (insert 0 {Suc d | d. d < m \<and> P d})"
proof (induction m)
  case (Suc m)
  have fin: "finite {Suc d | d. d < k \<and> P d}" for k
    by simp
  have "{Suc d | d. d < Suc m \<and> P d} = (if P m then insert (Suc m) else id) {Suc d | d. d < m \<and> P d}"
    by (auto simp: less_Suc_eq)
  moreover have "Max (insert 0 (insert (Suc m) {Suc d | d. d < m \<and> P d})) = Suc m"
    using fin by (intro Max_eqI) auto
  ultimately show ?case
    using Suc by simp
qed simp

text \<open>C28. With a node that answers steadily and no failing database call, \<open>detectReorg\<close> returns the depth of the deepest
  stored block, among the last ten, whose hash is not the node's: 0 when all agree, and a stale block under a matching
  head counts.\<close>

theorem detectReorg_finds_the_deepest:
  assumes "faults w = []" "steady n w"
  shows "fst (run_state (detectReorg n) w) = (None, Max (insert 0 {Suc d | d. d < min 10 n \<and> forked w (n - d)}))"
  unfolding detectReorg_def detect_depths_steady [OF assms] fold_deepest maxReorgCheck_def ..

lemma detectReorg_finds_the_deepest_witness:
  "let nd = sample_node\<lparr>nodeBlock := (\<lambda>_ n. Inr (sample_raw\<lparr>rbNumber := Some (int n)\<rparr>))\<rparr>;
       w = empty_world\<lparr>node := nd, blocks := [sample_block 7]\<rparr>
   in fst (run_state (detectReorg 8) w) = (None, Max (insert 0 {Suc d | d. d < min 10 8 \<and> forked w (8 - d)})) \<and> forked w 7"
proof -
  define w where "w = empty_world\<lparr>node := sample_node\<lparr>nodeBlock := (\<lambda>_ n. Inr (sample_raw\<lparr>rbNumber := Some (int n)\<rparr>))\<rparr>,
    blocks := [sample_block 7]\<rparr>"
  have "faults w = []" "steady 8 w" "forked w 7"
    by (simp_all add: w_def steady_def forked_def empty_world_def sample_raw_def zero_Hash_def HashLength_def block_at_def sample_block_def
        Hash_Hex_def)
  then show ?thesis
    using detectReorg_finds_the_deepest [of w 8] by (simp add: Let_def w_def)
qed

end
