(* ===== verification/Head_Loop.thy ===== *)
theory Head_Loop
  imports Head_Reorg
begin

text \<open>
  The standard loop: reading blocks ahead and committing them in order (\<open>internal/indexer/prefetch.go\<close>),
  moving past a block whose receipts never come (\<open>receipt_skip.go\<close>), one tick (\<open>standardTick\<close> of
  \<open>indexer.go\<close>) and the retry of the blocks moved past (\<open>standard_missing_retry.go\<close>).

  The reads ahead are modelled where their result is used: the node's answers are arbitrary functions of the
  number of calls, so no order of answers is lost.  Requests for single blocks between two blocks of a batch
  (\<open>indexRequests\<close>) and the pipelined commit are not modelled.
\<close>

section \<open>Moving past a block without receipts\<close>

definition maxReceiptAttempts :: nat where "maxReceiptAttempts = 10"

record receipt_skip =
  rsBlock :: u64
  rsAttempts :: nat
  rsSkipped :: u64
  rsSkippedHash :: bytes
  rsRecorded :: bool

definition is_ReceiptsError :: "process_error \<Rightarrow> bool" where
  "is_ReceiptsError e = (case e of ReceiptsError _ \<Rightarrow> True | _ \<Rightarrow> False)"

definition skip_block :: "u64 \<Rightarrow> process_error \<Rightarrow> receipt_skip \<Rightarrow> (world, bool \<times> receipt_skip) state" where
  "skip_block blockNum e s =
     (if \<not> is_ReceiptsError e then State_Monad.return (False, s)
      else
        let s1 = (if rsBlock s \<noteq> blockNum then s\<lparr>rsBlock := blockNum, rsAttempts := 0\<rparr> else s);
            s2 = s1\<lparr>rsAttempts := rsAttempts s1 + 1\<rparr>
        in if rsAttempts s2 < maxReceiptAttempts then State_Monad.return (False, s2)
           else do {
             r \<leftarrow> RequeueMissingBlock blockNum;
             State_Monad.return (case r of
                 Inl _ \<Rightarrow> (False, s2)
               | Inr _ \<Rightarrow> (True, s2\<lparr>rsAttempts := 0, rsRecorded := True\<rparr>))
           })"

definition forget_skipped :: "receipt_skip \<Rightarrow> receipt_skip" where
  "forget_skipped s = s\<lparr>rsSkipped := 0, rsSkippedHash := zero_Hash\<rparr>"

section \<open>Reading a block\<close>

record fetched_block =
  fbNumber :: u64
  fbRaw :: "raw_block option"
  fbReceipts :: receipts
  fbErr :: "process_error option"

definition fetchBlockAndReceipts :: "builder_config \<Rightarrow> u64 \<Rightarrow> (world, fetched_block) state" where
  "fetchBlockAndReceipts cfg number = do {
     r \<leftarrow> RawBlockByNumber number;
     case r of
       Inl e \<Rightarrow> State_Monad.return \<lparr>fbNumber = number, fbRaw = None, fbReceipts = Map.empty, fbErr = Some (NodeError e)\<rparr>
     | Inr raw \<Rightarrow>
         if rbTransactions raw = []
         then State_Monad.return \<lparr>fbNumber = number, fbRaw = Some raw, fbReceipts = Map.empty, fbErr = None\<rparr>
         else do {
           rs \<leftarrow> FetchReceiptsBatch (receiptTxHashes cfg raw) number;
           State_Monad.return (case rs of
               Inl e \<Rightarrow> \<lparr>fbNumber = number, fbRaw = Some raw, fbReceipts = Map.empty, fbErr = Some (ReceiptsError e)\<rparr>
             | Inr receipts \<Rightarrow> \<lparr>fbNumber = number, fbRaw = Some raw, fbReceipts = receipts, fbErr = None\<rparr>)
         }
   }"

section \<open>Where a tick starts\<close>

record head_config =
  hcBuilder :: builder_config
  startBlock :: u64
  cursorMayBeUnstored :: bool

record anchor_result =
  anFrom :: u64
  anHash :: bytes
  anRemembered :: bool
  anOk :: bool

definition anchored :: "u64 \<Rightarrow> bytes \<Rightarrow> anchor_result" where
  "anchored n h = \<lparr>anFrom = n, anHash = h, anRemembered = False, anOk = True\<rparr>"

definition unread :: "u64 \<Rightarrow> anchor_result" where
  "unread n = \<lparr>anFrom = n, anHash = zero_Hash, anRemembered = False, anOk = False\<rparr>"

definition PrunedThrough :: "u64 dbm" where
  "PrunedThrough = run_query pruned_through"

definition indexingFloor :: "head_config \<Rightarrow> u64 \<Rightarrow> (world, anchor_result) state" where
  "indexingFloor cfg lastIndexed = do {
     r \<leftarrow> PrunedThrough;
     State_Monad.return (case r of
         Inl _ \<Rightarrow> unread lastIndexed
       | Inr wm \<Rightarrow>
           let floor = (if 0 < wm \<and> startBlock cfg < wm + 1 then wm + 1 else startBlock cfg)
           in if floor = 0 then anchored 0 zero_Hash else anchored (floor - 1) zero_Hash)
   }"

definition anchor_below :: "head_config \<Rightarrow> u64 \<Rightarrow> (world, anchor_result) state" where
  "anchor_below cfg lastIndexed =
     (if cursorMayBeUnstored cfg then State_Monad.return (anchored lastIndexed zero_Hash)
      else do {
        r \<leftarrow> HighestBlockAtOrBelow lastIndexed;
        case r of
          Inl _ \<Rightarrow> State_Monad.return (unread lastIndexed)
        | Inr None \<Rightarrow> indexingFloor cfg lastIndexed
        | Inr (Some (n, h)) \<Rightarrow> State_Monad.return (anchored n (HexToHash h))
      })"

definition anchor :: "head_config \<Rightarrow> u64 \<Rightarrow> receipt_skip \<Rightarrow> (world, anchor_result \<times> receipt_skip) state" where
  "anchor cfg lastIndexed s0 =
     (let s = (if lastIndexed < rsSkipped s0 then forget_skipped s0 else s0) in
      if lastIndexed = 0 \<and> startBlock cfg = 0 then State_Monad.return (anchored 0 zero_Hash, s)
      else if lastIndexed = 0 then do { a \<leftarrow> anchor_below cfg lastIndexed; State_Monad.return (a, s) }
      else do {
        r \<leftarrow> GetBlock lastIndexed;
        case r of
          Inl _ \<Rightarrow> State_Monad.return (unread lastIndexed, s)
        | Inr (Some b) \<Rightarrow> State_Monad.return (anchored lastIndexed (HexToHash (bHash b)), s)
        | Inr None \<Rightarrow>
            if rsSkipped s = lastIndexed \<and> rsSkippedHash s \<noteq> zero_Hash
            then State_Monad.return (\<lparr>anFrom = lastIndexed, anHash = rsSkippedHash s, anRemembered = True, anOk = True\<rparr>, s)
            else do { a \<leftarrow> anchor_below cfg lastIndexed; State_Monad.return (a, s) }
      })"

definition recheckSkipped :: "receipt_skip \<Rightarrow> (world, receipt_skip) state" where
  "recheckSkipped s = do {
     r \<leftarrow> RawBlockHash (rsSkipped s);
     State_Monad.return (case r of
         Inr h \<Rightarrow> if HexToHash h = rsSkippedHash s then s else forget_skipped s
       | Inl _ \<Rightarrow> forget_skipped s)
   }"

section \<open>Committing the blocks of a tick\<close>

definition revertStaleBlock :: "process_error \<Rightarrow> (world, unit) state" where
  "revertStaleBlock e =
     (case e of
        DbError (StoredBlockDiffers n _ _) \<Rightarrow> do { _ \<leftarrow> handleReorg n; State_Monad.return () }
      | _ \<Rightarrow> State_Monad.return ())"

definition UpdateSyncStatus :: "u64 \<Rightarrow> bool \<Rightarrow> unit dbm" where
  "UpdateSyncStatus n syncing = tx_of (\<lambda>w. Inr (w\<lparr>sync_status := map_option (\<lambda>_. (n, syncing)) (sync_status w)\<rparr>))"

definition commit_block :: "builder_config \<Rightarrow> raw_block \<Rightarrow> receipts \<Rightarrow> (world, process_error + unit) state" where
  "commit_block cfg raw receipts =
     (if rbTransactions raw = [] then insertEmptyBlock raw else processBlockWithReceipts cfg raw receipts)"

fun index_blocks ::
    "builder_config \<Rightarrow> u64 list \<Rightarrow> u64 \<Rightarrow> bytes \<Rightarrow> bool \<Rightarrow> receipt_skip \<Rightarrow> (world, u64 \<times> receipt_skip) state" where
  "index_blocks cfg [] lastIndexed prevHash remembered s = State_Monad.return (lastIndexed, s)"
| "index_blocks cfg (n # ns) lastIndexed prevHash remembered s = do {
     cancelled \<leftarrow> ctx_Err;
     if cancelled then State_Monad.return (lastIndexed, s)
     else do {
       b \<leftarrow> fetchBlockAndReceipts cfg n;
       case fbRaw b of
         None \<Rightarrow> State_Monad.return (lastIndexed, s)
       | Some raw \<Rightarrow>
           if prevHash \<noteq> zero_Hash \<and> rbParentHash raw \<noteq> prevHash
           then do {
             s' \<leftarrow> (if remembered then recheckSkipped s else State_Monad.return s);
             State_Monad.return (lastIndexed, s')
           }
           else case fbErr b of
             Some e \<Rightarrow> do {
               (skipped, s1) \<leftarrow> skip_block n e s;
               if skipped then index_blocks cfg ns n (rbHash raw) False (s1\<lparr>rsSkipped := n, rsSkippedHash := rbHash raw\<rparr>)
               else State_Monad.return (lastIndexed, s1)
             }
           | None \<Rightarrow> do {
               r \<leftarrow> commit_block cfg raw (fbReceipts b);
               case r of
                 Inl e \<Rightarrow> do { revertStaleBlock e; State_Monad.return (lastIndexed, s) }
               | Inr _ \<Rightarrow> do {
                   _ \<leftarrow> (if n mod 10 = 0 then UpdateSyncStatus n True else State_Monad.return (Inr ()));
                   index_blocks cfg ns n (rbHash raw) False s
                 }
             }
     }
   }"

definition indexPrefetched :: "head_config \<Rightarrow> u64 \<Rightarrow> u64 \<Rightarrow> receipt_skip \<Rightarrow> (world, u64 \<times> receipt_skip) state" where
  "indexPrefetched cfg lastIndexed latest s0 = do {
     (a, s) \<leftarrow> anchor cfg lastIndexed s0;
     if \<not> anOk a \<or> latest \<le> anFrom a then State_Monad.return (anFrom a, s)
     else index_blocks (hcBuilder cfg) [anFrom a + 1..<latest + 1] (anFrom a) (anHash a) (anRemembered a) s
   }"

definition standardTick :: "head_config \<Rightarrow> u64 \<Rightarrow> u64 \<Rightarrow> receipt_skip \<Rightarrow> (world, u64 \<times> receipt_skip) state" where
  "standardTick cfg lastIndexed latest s = do {
     (err, depth) \<leftarrow> (if 0 < lastIndexed then detectReorg lastIndexed else State_Monad.return (None, 0));
     if err \<noteq> None then State_Monad.return (lastIndexed, s)
     else if depth = 0 then indexPrefetched cfg lastIndexed latest s
     else do {
       r \<leftarrow> handleReorg (lastIndexed - depth + 1);
       case r of
         Inl _ \<Rightarrow> State_Monad.return (lastIndexed, s)
       | Inr _ \<Rightarrow> indexPrefetched cfg (lastIndexed - depth) latest s
     }
   }"

section \<open>What leaves the stored chain alone\<close>

text \<open>The stored blocks, the recorded missing ranges, the prune watermark, the node and the context.\<close>

definition chain_view :: "world \<Rightarrow> block list \<times> block_range list \<times> u64 \<times> node \<times> (nat \<Rightarrow> bool)" where
  "chain_view w = (blocks w, missing_block_ranges w, pruned_through w, node w, ctx_done w)"

definition quiet :: "(world, 'a) state \<Rightarrow> bool" where
  "quiet m \<longleftrightarrow> (\<forall>c. keeps (\<lambda>w. chain_view w = c) m)"

named_theorems quiet_intros

lemma quietD: "quiet m \<Longrightarrow> run_state m w = (a, w') \<Longrightarrow> chain_view w' = chain_view w"
  unfolding quiet_def keeps_def by (metis snd_conv)

lemma table_inv_view: "table_inv (\<lambda>w. chain_view w = c)"
  by (simp add: table_inv_def chain_view_def)

lemma quiet_return [quiet_intros]: "quiet (State_Monad.return a)"
  by (simp add: quiet_def keeps_intros)

lemma quiet_bind [quiet_intros]: "quiet m \<Longrightarrow> (\<And>a. quiet (f a)) \<Longrightarrow> quiet (State_Monad.bind m f)"
  unfolding quiet_def by (blast intro: keeps_intros)

lemma quiet_if [quiet_intros]: "(b \<Longrightarrow> quiet m) \<Longrightarrow> (\<not> b \<Longrightarrow> quiet m') \<Longrightarrow> quiet (if b then m else m')"
  by simp

lemma quiet_Let [quiet_intros]: "(\<And>x. quiet (g x)) \<Longrightarrow> quiet (Let v g)"
  by simp

lemma quiet_sum [quiet_intros]: "(\<And>e. quiet (h e)) \<Longrightarrow> (\<And>a. quiet (f a)) \<Longrightarrow> quiet (case r of Inl e \<Rightarrow> h e | Inr a \<Rightarrow> f a)"
  by (cases r) simp_all

lemma quiet_option [quiet_intros]: "quiet m \<Longrightarrow> (\<And>a. quiet (f a)) \<Longrightarrow> quiet (case x of None \<Rightarrow> m | Some a \<Rightarrow> f a)"
  by (cases x) simp_all

lemma quiet_prod [quiet_intros]: "(\<And>a b. quiet (k a b)) \<Longrightarrow> quiet (case p of (a, b) \<Rightarrow> k a b)"
  by (cases p) simp

lemma quiet_query [quiet_intros]: "quiet (run_query q)"
  by (simp add: quiet_def keeps_run_query table_inv_view)

lemma quiet_call [quiet_intros]: "quiet (run_call g)"
  by (simp add: quiet_def keeps_run_call table_inv_view)

lemma quiet_ctx [quiet_intros]: "quiet ctx_Err"
  by (simp add: quiet_def keeps_ctx_Err table_inv_view)

lemma quiet_get [quiet_intros]: "quiet State_Monad.get"
  by (simp add: quiet_def keeps_def)

lemma quiet_update [quiet_intros]: "(\<And>w. chain_view (f w) = chain_view w) \<Longrightarrow> quiet (State_Monad.update f)"
  by (simp add: quiet_def keeps_def)

lemma quiet_tx [quiet_intros]: "(\<And>w w'. f w = Inr w' \<Longrightarrow> chain_view w' = chain_view w) \<Longrightarrow> quiet (tx_of f)"
  unfolding quiet_def by (auto intro!: keeps_tx_of table_inv_view)

lemmas node_read_defs = RawBlockByNumber_def RawBlockHash_def BlockNumber_def fetchLogsAsReceipts_def FetchReceiptsBatch_def CallContract_def
  fetch_symbol_def fetch_name_def fetch_decimals_def fetch_metadata_def traceTransaction_def fetchTraces_def FetchTracesBatch_def
  FetchTracesBatchStrict_def FetchTracesBatchSkippingRefusals_def

lemma quiet_receipts_per_tx [quiet_intros]: "quiet (receipts_per_tx hs m)"
  by (induction hs arbitrary: m) (auto intro!: quiet_intros)

lemma quiet_traces_per_tx [quiet_intros]: "quiet (traces_per_tx mode n ts hs)"
  by (induction hs) (auto intro!: quiet_intros simp: node_read_defs)

lemma quiet_parsed [quiet_intros]: "quiet (parsed data)"
  unfolding parsed_def by (intro quiet_intros) (simp add: chain_view_def)

lemma quiet_metadata [quiet_intros]: "quiet (FetchTokenMetadataBatch as)"
  by (induction as) (auto intro!: quiet_intros simp: node_read_defs)

lemma quiet_uris [quiet_intros]: "quiet (FetchTokenURIsBatch reqs)"
  by (induction reqs rule: FetchTokenURIsBatch.induct) (auto intro!: quiet_intros simp: node_read_defs)

lemma quiet_contractCode [quiet_intros]: "quiet (contractCode cfg a n)"
  unfolding contractCode_def GetCode_def by (intro quiet_intros)

lemma quiet_remember [quiet_intros]: "quiet (remember_contract a)"
  unfolding remember_contract_def by (intro quiet_intros) (simp add: chain_view_def)

lemma quiet_add_transactions [quiet_intros]: "quiet (add_transactions cfg n ts receipts i txs b)"
  by (induction txs arbitrary: i b) (auto simp: add_transaction_def created_contract_def intro!: quiet_intros)

lemma quiet_add_creations [quiet_intros]: "quiet (add_creations cfg n its b)"
  by (induction its arbitrary: b) (auto simp: add_creation_def intro!: quiet_intros)

lemma quiet_buildBlock [quiet_intros]: "quiet (buildBlock cfg raw receipts)"
  unfolding buildBlock_def add_traces_def fetch_traces_def node_read_defs discover_tokens_def attach_uris_def
  by (intro quiet_intros)

lemma quiet_afterCommit [quiet_intros]: "quiet (afterCommit b)"
proof -
  have "quiet (refresh_tokens as)" for as
    by (induction as) (auto simp: RefreshTokenStats_def Let_def chain_view_def intro!: quiet_intros split: if_splits)
  then show ?thesis
    unfolding afterCommit_def QueueCommittedWork_def by (intro quiet_intros) (auto simp: chain_view_def split: option.split)
qed

lemma quiet_fetch [quiet_intros]: "quiet (fetchBlockAndReceipts cfg n)"
  unfolding fetchBlockAndReceipts_def node_read_defs by (intro quiet_intros)

lemma quiet_detectReorg [quiet_intros]: "quiet (detectReorg n)"
proof -
  have "quiet (detect_depths n ds x)" for ds x
    by (induction ds arbitrary: x) (auto simp: GetBlock_def RawBlockHash_def intro!: quiet_intros)
  then show ?thesis
    by (simp add: detectReorg_def)
qed

lemma quiet_anchor [quiet_intros]: "quiet (anchor cfg k s)"
  unfolding anchor_def anchor_below_def indexingFloor_def PrunedThrough_def GetBlock_def HighestBlockAtOrBelow_def
  by (intro quiet_intros)

lemma quiet_UpdateSyncStatus [quiet_intros]: "quiet (UpdateSyncStatus n b)"
  unfolding UpdateSyncStatus_def by (intro quiet_intros) (auto simp: chain_view_def)

lemma quiet_recheck [quiet_intros]: "quiet (recheckSkipped s)"
  unfolding recheckSkipped_def RawBlockHash_def by (intro quiet_intros)

section \<open>What a commit does to the stored chain\<close>

lemma run_tx_cases:
  assumes "run_state (run_tx body) w = (r, w')"
  obtains (failed) e where "r = Inl e" "w' = w\<lparr>faults := tl (faults w)\<rparr>"
  | (ran) a where "body (w\<lparr>faults := tl (faults w)\<rparr>) = Inr (a, w')" "r = Inr a \<or> r = Inl ConnLost"
proof (cases "faults w")
  case Nil
  then have w: "w\<lparr>faults := []\<rparr> = w"
    by (cases w) simp
  show ?thesis
    using assms Nil failed ran by (auto simp: run_tx_def w split: sum.splits)
next
  case (Cons f fs)
  then show ?thesis
    using assms failed ran by (cases f) (auto simp: run_tx_def Let_def split: sum.splits)
qed

lemma block_atD: "block_at w n = Some c \<Longrightarrow> c \<in> set (blocks w) \<and> bNumber c = n"
  by (auto simp: block_at_def find_Some_iff)

definition wrote :: "block \<Rightarrow> bool \<Rightarrow> world \<Rightarrow> world \<Rightarrow> bool" where
  "wrote b ok w w' \<longleftrightarrow>
     chain_view w' = chain_view w \<and> (ok \<longrightarrow> (\<exists>c \<in> set (blocks w). bNumber c = bNumber b \<or> bHash c = bHash b) \<and>
       (\<forall>c. block_at w (bNumber b) = Some c \<longrightarrow> EqualFold (bHash c) (bHash b))) \<or>
     chain_view w' = (blocks w @ [b], missing_block_ranges w, pruned_through w, node w, ctx_done w) \<and> block_at w (bNumber b) = None"

lemma wrote_view:
  "wrote b ok w w' \<Longrightarrow> chain_view v = chain_view w \<Longrightarrow> chain_view v' = chain_view w' \<Longrightarrow> wrote b ok v v'"
  by (simp add: wrote_def chain_view_def block_at_def)

lemma wrote_weaken: "wrote b True w w' \<Longrightarrow> wrote b ok w w'"
  by (auto simp: wrote_def)

lemma wrote_not: "chain_view w' = chain_view w \<Longrightarrow> wrote b False w w'"
  by (simp add: wrote_def)

lemma insert_block_wrote: "insert_block b w = Inr w' \<Longrightarrow> wrote b True w w'"
  using not_taken_free [of b w]
  by (auto simp: insert_block_def wrote_def chain_view_def storedBlockDiffers_def block_taken_def bump_def split: if_splits option.splits)

lemma write_block_wrote:
  assumes "write_block data w = Inr w'" and b: "bdBlock data = Some b"
  shows "wrote b True w w'"
proof (cases "block_taken b w")
  case True
  then have "w' = w" "storedBlockDiffers b w = None"
    using assms by (auto simp: write_block_def BeginBlockData_def Finish_def split: option.splits)
  then show ?thesis
    using True by (auto simp: wrote_def storedBlockDiffers_def block_taken_def split: option.splits if_splits)
next
  case False
  from assms(1) show ?thesis
  proof (rule write_block_cases)
    fix bs txs ls ws its ds w1
    assume w1: "w1 = w\<lparr>blocks := blocks w @ bs, transactions := transactions w @ txs, logs := logs w @ ls,
        token_transfers := token_transfers w @ map transfer_row ws, internal_transactions := internal_transactions w @ its\<rparr>"
      and w': "w' = writeSharedRows data (length bs) (length txs) (length ws) ds w1"
      and bs: "bs = (case bdBlock data of None \<Rightarrow> [] | Some b \<Rightarrow> [b])"
    have "same_rows w1 w'"
      unfolding w' by (rule same_rows_writeSharedRows)
    then show ?thesis
      using not_taken_free [OF False] by (simp add: same_rows_def w1 bs b wrote_def chain_view_def)
  next
    assume "w' = w"
    moreover have "settles w w' b"
      by (rule write_block_settles [OF assms])
    ultimately show ?thesis
      by (auto simp: wrote_def settles_def fun_eq_iff dest: spec [of _ "bNumber b"] block_atD)
  qed
qed

lemma note_day_view: "chain_view (snd (run_state (note_day written ob) w)) = chain_view w"
  by (simp add: note_day_def chain_view_def set_daily_def split: option.split)

lemma InsertBlock_wrote:
  assumes "run_state (InsertBlock b) w = (r, w')"
  shows "wrote b (r = Inr ()) w w'"
proof -
  obtain r1 w1 where run: "run_state (run_tx (\<lambda>w. case insert_block b w of Inl e \<Rightarrow> Inl e | Inr w' \<Rightarrow> Inr (\<not> block_taken b w, w'))) w = (r1, w1)"
    by fastforce
  have out: "chain_view w' = chain_view w1 \<and> (isl r1 \<longrightarrow> isl r)"
  proof (cases r1)
    case (Inr written)
    then have "run_state (note_day written (Some b)) w1 = (r, w')"
      using assms(1) run by (simp add: InsertBlock_def)
    then show ?thesis
      using note_day_view [of written "Some b" w1] Inr by simp
  qed (use assms(1) run in \<open>auto simp: InsertBlock_def\<close>)
  from run show ?thesis
  proof (cases rule: run_tx_cases)
    case (failed e)
    then show ?thesis
      using out by (auto simp: chain_view_def wrote_def)
  next
    case (ran a)
    then have "insert_block b (w\<lparr>faults := tl (faults w)\<rparr>) = Inr w1"
      by (auto split: sum.splits)
    from wrote_view [OF insert_block_wrote [OF this] _ out [THEN conjunct1]] show ?thesis
      by (rule wrote_weaken) (simp add: chain_view_def)
  qed
qed

lemma InsertBlockDataBatch_wrote:
  assumes "run_state (InsertBlockDataBatch data) w = (r, w')" and b: "bdBlock data = Some b"
  shows "wrote b (r = Inr ()) w w'"
proof -
  obtain r1 w1 where run: "run_state (run_tx (\<lambda>w. case BeginBlockData data w of Inl e \<Rightarrow> Inl e
      | Inr (bw, w') \<Rightarrow> Inr (changed bw, Finish bw w'))) w = (r1, w1)"
    by fastforce
  have out: "chain_view w' = chain_view w1 \<and> (isl r1 \<longrightarrow> isl r)"
  proof (cases r1)
    case (Inr written)
    then have "run_state (note_day written (bdBlock data)) w1 = (r, w')"
      using assms(1) run by (simp add: InsertBlockDataBatch_def)
    then show ?thesis
      using note_day_view [of written "bdBlock data" w1] Inr by simp
  qed (use assms(1) run in \<open>auto simp: InsertBlockDataBatch_def\<close>)
  from run show ?thesis
  proof (cases rule: run_tx_cases)
    case (failed e)
    then show ?thesis
      using out by (auto simp: chain_view_def wrote_def)
  next
    case (ran a)
    then have "write_block data (w\<lparr>faults := tl (faults w)\<rparr>) = Inr w1"
      by (auto simp: write_block_def split: sum.splits)
    from wrote_view [OF write_block_wrote [OF this b] _ out [THEN conjunct1]] show ?thesis
      by (rule wrote_weaken) (simp add: chain_view_def)
  qed
qed

lemma commit_block_wrote:
  assumes "run_state (commit_block cfg raw receipts) w = (r, w')"
  shows "\<exists>hex. wrote (raw_block_row hex raw) (r = Inr ()) w w'"
proof (cases "rbTransactions raw = []")
  case True
  then obtain r1 where r1: "run_state (InsertBlock (raw_block_row (Address_Hex (keccak256 w)) raw)) w = (r1, w')" "r = map_sum DbError id r1"
    using assms by (auto simp: commit_block_def insertEmptyBlock_def split: prod.splits)
  then have "(r = Inr ()) = (r1 = Inr ())"
    by (cases r1) auto
  then show ?thesis
    using InsertBlock_wrote [OF r1(1)] by auto
next
  case False
  obtain b w1 where b: "run_state (buildBlock cfg raw receipts) w = (b, w1)"
    by fastforce
  obtain r2 w2 where r2: "run_state (InsertBlockDataBatch (bbData b)) w1 = (r2, w2)"
    by fastforce
  have "bdBlock (bbData b) = Some (raw_block_row (Address_Hex (keccak256 w)) raw)"
    using b by (auto simp: buildBlock_def Let_def split: prod.splits)
  note wr = InsertBlockDataBatch_wrote [OF r2 this]
  obtain w3 where after: "run_state (afterCommit b) w2 = ((), w3)"
    by (cases "run_state (afterCommit b) w2") simp
  have "(r = Inr ()) = (r2 = Inr ()) \<and> chain_view w' = chain_view w2"
    using assms False b r2 after quietD [OF quiet_afterCommit after]
    by (cases r2) (auto simp: commit_block_def processBlockWithReceipts_def)
  then have "wrote (raw_block_row (Address_Hex (keccak256 w)) raw) (r = Inr ()) w w'"
    using wrote_view [OF wr quietD [OF quiet_buildBlock b, symmetric], of w'] by simp
  then show ?thesis
    by blast
qed

end
