(* ===== verification/Head_Chain.thy ===== *)
theory Head_Chain
  imports Head_Loop
begin

text \<open>
  The stored blocks up to the cursor are one chain.  The theorem is about the standard loop's tick, with every
  answer of the node and every failing call: whatever fork the node is on, a stored block's parent is the
  stored block below it, for the blocks up to the cursor and except next to a block moved past for its receipts.
  The two facts about the node it rests on are those of a chain of hashes: a block answered for a number has
  that number, and its hash determines its parent.
\<close>

section \<open>The invariant\<close>

definition chain_node :: "(bytes \<Rightarrow> bytes) \<Rightarrow> node \<Rightarrow> bool" where
  "chain_node parent nd \<longleftrightarrow>
     (\<forall>k n raw. nodeBlock nd k n = Inr raw \<longrightarrow> rbNumber raw \<noteq> None \<longrightarrow>
        NumberU64 raw = n \<and> is_Hash (rbHash raw) \<and> rbParentHash raw = parent (rbHash raw))"

definition of_chain :: "(bytes \<Rightarrow> bytes) \<Rightarrow> block \<Rightarrow> bool" where
  "of_chain parent b \<longleftrightarrow>
     (\<exists>h. is_Hash h \<and> h \<noteq> zero_Hash \<and> bHash b = Hash_Hex h \<and> bParentHash b = Hash_Hex (parent h))"

text \<open>Block 0 is never written by the loop, and a tick that starts after it checks no parent.\<close>

definition linked :: "u64 \<Rightarrow> world \<Rightarrow> bool" where
  "linked k w \<longleftrightarrow>
     (\<forall>b \<in> set (blocks w). \<forall>c \<in> set (blocks w).
        0 < bNumber b \<longrightarrow> bNumber c = Suc (bNumber b) \<longrightarrow> bNumber c \<le> k \<longrightarrow>
        bNumber b \<notin> mcover w \<longrightarrow> bNumber c \<notin> mcover w \<longrightarrow> bParentHash c = bHash b)"

definition one_chain :: "(bytes \<Rightarrow> bytes) \<Rightarrow> u64 \<Rightarrow> world \<Rightarrow> bool" where
  "one_chain parent k w \<longleftrightarrow>
     chain_node parent (node w) \<and> wf_blocks w \<and> (\<forall>b \<in> set (blocks w). of_chain parent b) \<and> linked k w"

text \<open>The hash the next block is checked against is that of the stored block at the cursor.\<close>

definition extends :: "bytes \<Rightarrow> u64 \<Rightarrow> world \<Rightarrow> bool" where
  "extends h k w \<longleftrightarrow> (\<forall>b \<in> set (blocks w). bNumber b = k \<longrightarrow> 0 < k \<longrightarrow> k \<notin> mcover w \<longrightarrow> h \<noteq> zero_Hash \<and> bHash b = Hash_Hex h)"

text \<open>The blocks stored above the cursor are above the block indexing starts at.\<close>

definition above_floor :: "head_config \<Rightarrow> u64 \<Rightarrow> world \<Rightarrow> bool" where
  "above_floor cfg k w \<longleftrightarrow> (\<forall>b \<in> set (blocks w). k < bNumber b \<longrightarrow> startBlock cfg \<le> bNumber b \<and> pruned_through w < bNumber b)"

section \<open>Preservation\<close>

lemma view_eqs:
  assumes "chain_view w' = chain_view w"
  shows "blocks w' = blocks w" "mcover w' = mcover w" "pruned_through w' = pruned_through w" "node w' = node w" "wf_blocks w' = wf_blocks w"
    "block_at w' = block_at w"
  using assms by (simp_all add: chain_view_def mcover_def wf_blocks_def block_at_def fun_eq_iff)

lemma view_cong:
  assumes "chain_view w' = chain_view w"
  shows "one_chain parent k w' = one_chain parent k w" "extends h k w' = extends h k w" "above_floor cfg k w' = above_floor cfg k w"
  by (simp_all add: one_chain_def linked_def extends_def above_floor_def view_eqs [OF assms])

lemma one_chain_le: "one_chain parent k w \<Longrightarrow> k' \<le> k \<Longrightarrow> one_chain parent k' w"
  by (auto simp: one_chain_def linked_def)

lemma one_chain_fewer:
  assumes "one_chain parent k w" "blocks w' = filter P (blocks w)" "mcover w \<subseteq> mcover w'" "node w' = node w"
  shows "one_chain parent k w'"
proof -
  have "linked k w'"
    using assms unfolding linked_def one_chain_def by (metis filter_is_subset subsetD)
  then show ?thesis
    using assms by (auto simp: one_chain_def wf_blocks_def distinct_map_filter)
qed

lemma extends_fewer:
  "extends h k w \<Longrightarrow> blocks w' = filter P (blocks w) \<Longrightarrow> mcover w \<subseteq> mcover w' \<Longrightarrow> extends h k w'"
  by (auto simp: extends_def)

lemma ToLower_Hash_Hex: "ToLower (Hash_Hex h) = Hash_Hex h"
proof -
  have "map to_lower_char (hex_EncodeToString h) = hex_EncodeToString h"
    by (simp add: map_idI to_lower_hex hex_encode_lower)
  then show ?thesis
    unfolding Hash_Hex_def by (subst ToLower_0x) (simp add: ToLower_def)
qed

lemma EqualFold_Hash_Hex: "EqualFold (Hash_Hex g) (Hash_Hex h) \<longleftrightarrow> g = h"
  by (simp add: EqualFold_def ToLower_Hash_Hex Hash_Hex_inject)

lemma wf_block_at:
  assumes "wf_blocks w" "b \<in> set (blocks w)"
  shows "block_at w (bNumber b) = Some b"
proof -
  have "block_at w (bNumber b) \<noteq> None"
    using assms(2) by (auto simp: block_at_None stored_number_def)
  then obtain c where c: "block_at w (bNumber b) = Some c"
    by blast
  then have "c \<in> set (blocks w)" "bNumber c = bNumber b"
    by (auto simp: block_at_def find_Some_iff)
  then show ?thesis
    using assms c by (metis wf_blocks_def distinct_map inj_onD)
qed

lemma one_chain_wrote:
  assumes inv: "one_chain parent k w" and ext: "extends h k w" and wr: "wrote (raw_block_row hex raw) ok w w'"
    and raw: "NumberU64 raw = Suc k" "is_Hash (rbHash raw)" "rbHash raw \<noteq> zero_Hash" "rbParentHash raw = parent (rbHash raw)"
    and fits: "h \<noteq> zero_Hash \<longrightarrow> rbParentHash raw = h"
  shows "one_chain parent k w'" and "ok \<Longrightarrow> one_chain parent (Suc k) w' \<and> extends (rbHash raw) (Suc k) w'"
proof -
  let ?b = "raw_block_row hex raw"
  have row: "bNumber ?b = Suc k" "bHash ?b = Hash_Hex (rbHash raw)" "bParentHash ?b = Hash_Hex (parent (rbHash raw))" "of_chain parent ?b"
    using raw by (auto simp: raw_block_row_def of_chain_def)
  have same: "bHash b = bParentHash c" if "b \<in> set (blocks w)" "bNumber b = k" "0 < k" "k \<notin> mcover w"
      "bHash c = Hash_Hex (rbHash raw)" "of_chain parent c" for b c
    using that ext fits raw(4) by (auto simp: extends_def of_chain_def Hash_Hex_inject)
  have rest: "mcover w' = mcover w" "node w' = node w"
    using wr by (auto simp: wrote_def chain_view_def mcover_def)
  consider (new) "blocks w' = blocks w @ [?b]" "\<forall>b \<in> set (blocks w). bNumber b \<noteq> Suc k"
    | (old) "blocks w' = blocks w" "ok \<longrightarrow> (\<forall>c. block_at w (Suc k) = Some c \<longrightarrow> bHash c = Hash_Hex (rbHash raw))"
  proof -
    have "bHash c = Hash_Hex (rbHash raw)" if "block_at w (Suc k) = Some c" "EqualFold (bHash c) (Hash_Hex (rbHash raw))" for c
    proof -
      have "c \<in> set (blocks w)"
        using that(1) by (auto simp: block_at_def find_Some_iff)
      then obtain g where "bHash c = Hash_Hex g"
        using inv by (auto simp: one_chain_def of_chain_def)
      then show ?thesis
        using that(2) by (simp add: EqualFold_Hash_Hex)
    qed
    note hash = this
    show ?thesis
    proof (cases "blocks w' = blocks w")
      case True
      then have "ok \<longrightarrow> (\<forall>c. block_at w (Suc k) = Some c \<longrightarrow> EqualFold (bHash c) (Hash_Hex (rbHash raw)))"
        using wr by (simp add: wrote_def row chain_view_def)
      then show ?thesis
        using old True hash by blast
    next
      case False
      then have "blocks w' = blocks w @ [?b]" "\<not> stored_number w (Suc k)"
        using wr by (simp_all add: wrote_def row chain_view_def flip: block_at_None)
      then show ?thesis
        using new by (simp add: stored_number_def)
    qed
  qed
  then have "(\<forall>b \<in> set (blocks w'). (bNumber b \<le> k \<longrightarrow> b \<in> set (blocks w)) \<and> of_chain parent b) \<and> wf_blocks w' \<and>
      (ok \<longrightarrow> (\<forall>c \<in> set (blocks w'). bNumber c = Suc k \<longrightarrow> bHash c = Hash_Hex (rbHash raw)))"
  proof cases
    case new
    then show ?thesis
      using inv row by (auto simp: one_chain_def wf_blocks_def)
  next
    case old
    have "ok \<longrightarrow> (\<forall>c \<in> set (blocks w). bNumber c = Suc k \<longrightarrow> bHash c = Hash_Hex (rbHash raw))"
      using old(2) wf_block_at [of w] inv by (metis one_chain_def)
    then show ?thesis
      using inv old(1) by (simp add: one_chain_def wf_blocks_def)
  qed
  then have rows: "\<forall>b \<in> set (blocks w'). bNumber b \<le> k \<longrightarrow> b \<in> set (blocks w)"
    "ok \<longrightarrow> (\<forall>c \<in> set (blocks w'). bNumber c = Suc k \<longrightarrow> bHash c = Hash_Hex (rbHash raw))"
    "\<forall>b \<in> set (blocks w'). of_chain parent b" "wf_blocks w'"
    by blast+
  have low: "bParentHash c = bHash b"
    if "b \<in> set (blocks w')" "c \<in> set (blocks w')" "0 < bNumber b" "bNumber c = Suc (bNumber b)" "bNumber c \<le> k"
      "bNumber b \<notin> mcover w'" "bNumber c \<notin> mcover w'" for b c
  proof -
    have "b \<in> set (blocks w)" "c \<in> set (blocks w)"
      using rows(1) that by simp_all
    then show ?thesis
      using inv that(3-7) unfolding one_chain_def linked_def rest by blast
  qed
  then show "one_chain parent k w'"
    using inv rows(3,4) by (simp add: one_chain_def linked_def rest)
  assume ok
  have "linked (Suc k) w'"
    unfolding linked_def
  proof (intro ballI impI)
    fix b c
    assume bc: "b \<in> set (blocks w')" "c \<in> set (blocks w')" "0 < bNumber b" "bNumber c = Suc (bNumber b)" "bNumber c \<le> Suc k"
      "bNumber b \<notin> mcover w'" "bNumber c \<notin> mcover w'"
    show "bParentHash c = bHash b"
    proof (cases "bNumber c = Suc k")
      case True
      then have "bNumber b = k" "b \<in> set (blocks w)"
        using bc rows(1) by simp_all
      then show ?thesis
        using same [of b c] bc rows(2,3) True \<open>ok\<close> rest(1) by simp
    next
      case False
      then have "bNumber c \<le> k"
        using bc(5) by simp
      then show ?thesis
        using low bc by blast
    qed
  qed
  then show "one_chain parent (Suc k) w' \<and> extends (rbHash raw) (Suc k) w'"
    using inv rows(2-4) \<open>ok\<close> raw(3) by (simp add: one_chain_def extends_def rest)
qed

section \<open>The steps of a tick\<close>

text \<open>A revert removes blocks and nothing else of the chain's view.\<close>

lemma handleReorg_view:
  assumes "run_state (handleReorg f) w = (r, w')"
  shows "\<exists>P. blocks w' = filter P (blocks w)" "mcover w' = mcover w" "node w' = node w" "pruned_through w' = pruned_through w"
proof -
  let ?I = "\<lambda>v. (\<exists>P. blocks v = filter P (blocks w)) \<and> missing_block_ranges v = missing_block_ranges w \<and> node v = node w \<and>
    pruned_through v = pruned_through w"
  have "keeps ?I (handleReorg f)"
  proof (rule keeps_handleReorg)
    show "process_inv ?I"
      by (simp add: process_inv_def)
    show "?I v'" if "?I v" "revert_block n v = Inr v'" for n v v'
      using that(1) revert_block_tables(1,7) [OF that(2)] revert_block_frame(4,8) [OF that(2)] by auto
  qed
  moreover have "?I w"
    using filter_True [of "blocks w" "\<lambda>_. True"] by (metis (mono_tags, lifting))
  ultimately have "?I w'"
    using keepsD [of ?I "handleReorg f" w] assms by simp
  then show "\<exists>P. blocks w' = filter P (blocks w)" "mcover w' = mcover w" "node w' = node w" "pruned_through w' = pruned_through w"
    by (auto simp: mcover_def)
qed

lemma handleReorg_chain:
  assumes "run_state (handleReorg f) w = (r, w')" "one_chain parent k w"
  shows "one_chain parent k w'"
proof -
  obtain P where "blocks w' = filter P (blocks w)"
    using handleReorg_view(1) [OF assms(1)] by blast
  then show ?thesis
    using one_chain_fewer [OF assms(2)] handleReorg_view(2,3) [OF assms(1)] by simp
qed

lemma revertStaleBlock_chain:
  assumes "run_state (revertStaleBlock e) w = (u, w')" "one_chain parent k w"
  shows "one_chain parent k w'"
proof -
  have "w' = w \<or> (\<exists>n r. run_state (handleReorg n) w = (r, w'))"
    using assms(1) by (auto simp: revertStaleBlock_def split: process_error.splits db_error.splits prod.splits)
  then show ?thesis
    using handleReorg_chain [OF _ assms(2)] assms(2) by blast
qed

lemma RequeueMissingBlock_view:
  assumes "run_state (RequeueMissingBlock n) w = (r, w')"
  shows "blocks w' = blocks w" "node w' = node w" "pruned_through w' = pruned_through w"
proof -
  let ?I = "\<lambda>v. blocks v = blocks w \<and> node v = node w \<and> pruned_through v = pruned_through w"
  have "keeps ?I (RequeueMissingBlock n)"
    unfolding RequeueMissingBlock_def
    by (rule keeps_tx_of) (auto simp: table_inv_def insert_range_or_nothing_def split: if_splits)
  then have "?I (snd (run_state (RequeueMissingBlock n) w))"
    by (rule keepsD) simp
  then show "blocks w' = blocks w" "node w' = node w" "pruned_through w' = pruned_through w"
    by (simp_all add: assms)
qed

lemma skip_block_view:
  assumes "run_state (skip_block n e s) w = ((ok, s'), w')"
  shows "blocks w' = blocks w" "node w' = node w" "mcover w \<subseteq> mcover w'" "ok \<Longrightarrow> n \<in> mcover w'"
proof -
  have "w' = w \<and> \<not> ok \<or> (\<exists>r. run_state (RequeueMissingBlock n) w = (r, w') \<and> (ok \<longrightarrow> r = Inr ()))"
    using assms by (auto simp: skip_block_def Let_def split: if_splits prod.splits sum.splits)
  then have "blocks w' = blocks w \<and> node w' = node w \<and> mcover w \<subseteq> mcover w' \<and> (ok \<longrightarrow> n \<in> mcover w')"
  proof (elim disjE exE)
    fix r
    assume r: "run_state (RequeueMissingBlock n) w = (r, w') \<and> (ok \<longrightarrow> r = Inr ())"
    have "mcover w \<subseteq> mcover w' \<and> (r = Inr () \<longrightarrow> n \<in> mcover w')"
      by (rule RequeueMissingBlock_cases [of n w]) (use r in auto)
    then show ?thesis
      using RequeueMissingBlock_view [of n w r w'] r by simp
  qed simp
  then show "blocks w' = blocks w" "node w' = node w" "mcover w \<subseteq> mcover w'" "ok \<Longrightarrow> n \<in> mcover w'"
    by simp_all
qed

lemma fetch_block_answer:
  assumes "run_state (fetchBlockAndReceipts cfg n) w = (b, w')" "fbRaw b = Some raw" "chain_node parent (node w)"
  shows "NumberU64 raw = n" "is_Hash (rbHash raw)" "rbHash raw \<noteq> zero_Hash" "rbParentHash raw = parent (rbHash raw)"
proof -
  have "nodeBlock (node w) (calls w) n = Inr raw" "rbNumber raw \<noteq> None" "rbHash raw \<noteq> zero_Hash"
    using assms(1,2)
    by (auto simp: fetchBlockAndReceipts_def RawBlockByNumber_def split: sum.splits if_splits prod.splits)
  then show "NumberU64 raw = n" "is_Hash (rbHash raw)" "rbHash raw \<noteq> zero_Hash" "rbParentHash raw = parent (rbHash raw)"
    using assms(3) unfolding chain_node_def by blast+
qed

text \<open>Where a tick starts.\<close>

lemma extends_stored:
  assumes "one_chain parent k w" "b \<in> set (blocks w)"
  shows "extends (HexToHash (bHash b)) (bNumber b) w"
proof -
  obtain h where h: "is_Hash h" "h \<noteq> zero_Hash" "bHash b = Hash_Hex h"
    using assms by (auto simp: one_chain_def of_chain_def)
  have "c = b" if "c \<in> set (blocks w)" "bNumber c = bNumber b" for c
    using that assms by (metis one_chain_def wf_block_at option.inject)
  then show ?thesis
    using h by (auto simp: extends_def)
qed

lemma extends_unstored: "\<not> stored_number w k \<Longrightarrow> extends h k w"
  by (auto simp: extends_def stored_number_def)

lemma one_chain_below:
  assumes "one_chain parent k w" "\<And>b. b \<in> set (blocks w) \<Longrightarrow> k' < bNumber b \<or> k' = 0"
  shows "one_chain parent k' w \<and> extends h k' w"
proof -
  have "linked k' w"
    unfolding linked_def by (metis assms(2) less_Suc_eq_le less_imp_not_less le_zero_eq nat.simps(3) not_less)
  moreover have "extends h k' w"
    unfolding extends_def by (metis assms(2) less_irrefl)
  ultimately show ?thesis
    using assms(1) by (simp add: one_chain_def)
qed

lemma indexingFloor_chain:
  assumes run: "run_state (indexingFloor cfg k) w = (a, w')" and inv: "one_chain parent k w" "above_floor cfg k w"
    and none: "\<forall>b \<in> set (blocks w). k < bNumber b"
  shows "one_chain parent (anFrom a) w' \<and> (anOk a \<longrightarrow> extends (anHash a) (anFrom a) w')"
proof -
  have "quiet (indexingFloor cfg k)"
    unfolding indexingFloor_def PrunedThrough_def by (intro quiet_intros)
  then have view: "chain_view w' = chain_view w"
    by (rule quietD [OF _ run])
  have "one_chain parent (anFrom a) w \<and> (anOk a \<longrightarrow> extends (anHash a) (anFrom a) w)"
  proof (rule run_query_cases [of pruned_through w])
    let ?floor = "if 0 < pruned_through w \<and> startBlock cfg < pruned_through w + 1 then pruned_through w + 1 else startBlock cfg"
    assume "fst (run_state (run_query pruned_through) w) = Inr (pruned_through (w\<lparr>faults := tl (faults w)\<rparr>))"
    then have a: "a = (if ?floor = 0 then anchored 0 zero_Hash else anchored (?floor - 1) zero_Hash)"
      using run by (auto simp: indexingFloor_def PrunedThrough_def Let_def split: prod.splits)
    have "?floor \<le> bNumber b" if "b \<in> set (blocks w)" for b
      using none inv(2) that by (auto simp: above_floor_def)
    then have "anFrom a < bNumber b \<or> anFrom a = 0" if "b \<in> set (blocks w)" for b
      using that by (force simp: a anchored_def)
    then show ?thesis
      using one_chain_below [OF inv(1)] by blast
  next
    assume "fst (run_state (run_query pruned_through) w) = Inl ConnLost"
    then have "a = unread k"
      using run by (auto simp: indexingFloor_def PrunedThrough_def split: prod.splits)
    then show ?thesis
      using inv(1) by (simp add: unread_def)
  qed
  then show ?thesis
    by (simp add: view_cong [OF view])
qed

lemma anchor_below_chain:
  assumes run: "run_state (anchor_below cfg k) w = (a, w')" and inv: "one_chain parent k w" "above_floor cfg k w"
    and none: "0 < k \<longrightarrow> \<not> stored_number w k"
  shows "one_chain parent (anFrom a) w' \<and> (anOk a \<longrightarrow> extends (anHash a) (anFrom a) w')"
proof (cases "cursorMayBeUnstored cfg")
  case True
  then have "a = anchored k zero_Hash" "w' = w"
    using run by (auto simp: anchor_below_def)
  then show ?thesis
    using inv none by (auto simp: anchored_def extends_def stored_number_def)
next
  case False
  let ?below = "\<lambda>w. case rev (sort_key bNumber (filter (\<lambda>b. bNumber b \<le> k) (blocks w))) of [] \<Rightarrow> None | b # _ \<Rightarrow> Some (bNumber b, bHash b)"
  obtain r w1 where r: "run_state (HighestBlockAtOrBelow k) w = (r, w1)"
    by fastforce
  have "quiet (HighestBlockAtOrBelow k)"
    unfolding HighestBlockAtOrBelow_def by (intro quiet_intros)
  then have view: "chain_view w1 = chain_view w"
    by (rule quietD [OF _ r])
  consider (unread) e where "r = Inl e" | (empty) "r = Inr None" "\<forall>b \<in> set (blocks w). k < bNumber b"
    | (found) b where "r = Inr (Some (bNumber b, bHash b))" "b \<in> set (blocks w)" "bNumber b \<le> k"
  proof (cases r)
    case (Inr ans)
    have ans: "ans = ?below w"
      by (rule run_query_cases [of ?below w]) (use r Inr in \<open>auto simp: HighestBlockAtOrBelow_def\<close>)
    show ?thesis
    proof (cases "rev (sort_key bNumber (filter (\<lambda>b. bNumber b \<le> k) (blocks w)))")
      case Nil
      then have "filter (\<lambda>b. bNumber b \<le> k) (blocks w) = []"
        by (metis rev_is_Nil_conv length_0_conv length_sort)
      then show ?thesis
        using empty Inr ans Nil by (force simp: filter_empty_conv)
    next
      case (Cons b bs)
      then have "b \<in> set (filter (\<lambda>b. bNumber b \<le> k) (blocks w))"
        by (metis list.set_intros(1) set_rev set_sort)
      then show ?thesis
        using found Inr ans Cons by auto
    qed
  qed
  then show ?thesis
  proof cases
    case unread
    then have "a = Head_Loop.unread k" "w' = w1"
      using run r False by (auto simp: anchor_below_def)
    then show ?thesis
      using inv(1) by (simp add: unread_def view_cong [OF view])
  next
    case empty
    then have "run_state (indexingFloor cfg k) w1 = (a, w')"
      using run r False by (simp add: anchor_below_def)
    then show ?thesis
      by (rule indexingFloor_chain) (use inv empty view_eqs [OF view] in \<open>simp_all add: view_cong [OF view]\<close>)
  next
    case found
    then have "a = anchored (bNumber b) (HexToHash (bHash b))" "w' = w1"
      using run r False by (auto simp: anchor_below_def)
    then show ?thesis
      using found one_chain_le [OF inv(1)] extends_stored [OF inv(1)] by (simp add: anchored_def view_cong [OF view])
  qed
qed

lemma anchor_chain:
  assumes run: "run_state (anchor cfg k s) w = ((a, s'), w')" and inv: "one_chain parent k w" "above_floor cfg k w"
  shows "one_chain parent (anFrom a) w' \<and> (anOk a \<longrightarrow> extends (anHash a) (anFrom a) w')"
proof (cases "k = 0")
  case True
  then consider "a = anchored 0 zero_Hash" "w' = w" | "run_state (anchor_below cfg k) w = (a, w')"
    using run by (auto simp: anchor_def Let_def split: if_splits prod.splits)
  then show ?thesis
  proof cases
    case 1
    then show ?thesis
      using inv(1) True by (auto simp: anchored_def extends_def)
  next
    case 2
    then show ?thesis
      by (rule anchor_below_chain [OF _ inv]) (simp add: True)
  qed
next
  case False
  obtain r w1 where r: "run_state (GetBlock k) w = (r, w1)"
    by fastforce
  have "quiet (GetBlock k)"
    unfolding GetBlock_def by (intro quiet_intros)
  then have view: "chain_view w1 = chain_view w"
    by (rule quietD [OF _ r])
  have ans: "x = block_at w k" if "r = Inr x" for x
    by (rule run_query_cases [of "\<lambda>w. block_at w k" w]) (use r that in \<open>auto simp: GetBlock_def\<close>)
  show ?thesis
  proof (cases "r = Inr None")
    case True
    then have none: "\<not> stored_number w k"
      using ans [of None] by (simp flip: block_at_None)
    then consider "anFrom a = k" "w' = w1" | "run_state (anchor_below cfg k) w1 = (a, w')"
      using run r True False by (auto simp: anchor_def Let_def split: if_splits prod.splits)
    then show ?thesis
    proof cases
      case 1
      then show ?thesis
        using inv(1) extends_unstored [OF none] by (simp add: view_cong [OF view])
    next
      case 2
      then show ?thesis
        by (rule anchor_below_chain) (use inv none view_eqs(1) [OF view] in \<open>simp_all add: view_cong [OF view] stored_number_def\<close>)
    qed
  next
    case some: False
    show ?thesis
    proof (cases r)
      case (Inl e)
      then have "a = unread k" "w' = w1"
        using run r False by (auto simp: anchor_def Let_def)
      then show ?thesis
        using inv(1) by (simp add: unread_def view_cong [OF view])
    next
      case (Inr x)
      then obtain b where b: "block_at w k = Some b" "r = Inr (Some b)"
        using some ans [of x] by (cases x) auto
      then have "a = anchored k (HexToHash (bHash b))" "w' = w1" "b \<in> set (blocks w)" "bNumber b = k"
        using run r False by (auto simp: anchor_def Let_def block_at_def find_Some_iff)
      then show ?thesis
        using inv(1) extends_stored [OF inv(1), of b] by (simp add: anchored_def view_cong [OF view])
    qed
  qed
qed

lemma one_chain_skipped:
  assumes "one_chain parent k w" "Suc k \<in> mcover w"
  shows "one_chain parent (Suc k) w \<and> extends h (Suc k) w"
  using assms by (auto simp: one_chain_def linked_def extends_def le_Suc_eq)

lemma skip_step:
  assumes "run_state (skip_block (Suc k) e s) w = ((ok, s'), w')" "one_chain parent k w"
  shows "one_chain parent k w'" "ok \<Longrightarrow> one_chain parent (Suc k) w' \<and> extends h (Suc k) w'"
proof -
  note view = skip_block_view [OF assms(1)]
  show inv: "one_chain parent k w'"
    by (rule one_chain_fewer [OF assms(2), where P = "\<lambda>_. True"]) (simp_all add: view(1-3))
  show "ok \<Longrightarrow> one_chain parent (Suc k) w' \<and> extends h (Suc k) w'"
    by (rule one_chain_skipped [OF inv view(4)])
qed

text \<open>A step of the loop that goes on: the block is committed, or moved past.\<close>

lemma commit_step:
  assumes "run_state (fetchBlockAndReceipts cfg (Suc k)) v = (b, w)" "fbRaw b = Some raw" "\<not> (h \<noteq> zero_Hash \<and> rbParentHash raw \<noteq> h)"
    and "run_state (commit_block cfg' raw receipts) w = (r, w')" and inv: "one_chain parent k w" "extends h k w"
  shows "one_chain parent k w'" "r = Inr () \<Longrightarrow> one_chain parent (Suc k) w' \<and> extends (rbHash raw) (Suc k) w'"
proof -
  have "chain_node parent (node v)"
    using inv(1) view_eqs(4) [OF quietD [OF quiet_fetch assms(1)]] by (simp add: one_chain_def)
  note raw = fetch_block_answer [OF assms(1,2) this]
  obtain hex where "wrote (raw_block_row hex raw) (r = Inr ()) w w'"
    using commit_block_wrote [OF assms(4)] by blast
  from one_chain_wrote [OF inv this raw] show "one_chain parent k w'"
    "r = Inr () \<Longrightarrow> one_chain parent (Suc k) w' \<and> extends (rbHash raw) (Suc k) w'"
    using assms(3) by blast+
qed

lemma commit_continues:
  assumes b: "run_state (fetchBlockAndReceipts cfg (Suc k)) v = (b, w)" "fbRaw b = Some raw" "\<not> (h \<noteq> zero_Hash \<and> rbParentHash raw \<noteq> h)"
    and inv: "one_chain parent k w" "extends h k w"
    and run: "run_state (commit_block cfg' raw receipts \<bind> case_sum
        (\<lambda>e. revertStaleBlock e \<bind> (\<lambda>_. State_Monad.return (k, s)))
        (\<lambda>_. (if Suc k mod 10 = 0 then UpdateSyncStatus (Suc k) True else State_Monad.return (Inr ())) \<bind> (\<lambda>_. next_blocks))) w
      = ((k', s'), w')"
    and rest: "\<And>u. run_state next_blocks u = ((k', s'), w') \<Longrightarrow> one_chain parent (Suc k) u \<Longrightarrow>
      extends (rbHash raw) (Suc k) u \<Longrightarrow> one_chain parent k' w'"
  shows "one_chain parent k' w'"
proof -
  obtain r w2 where r: "run_state (commit_block cfg' raw receipts) w = (r, w2)"
    by fastforce
  note step = commit_step [OF b r inv]
  note run1 = run [unfolded run_state_bind r prod.case]
  show ?thesis
  proof (cases r)
    case (Inl e)
    obtain w3 where w3: "run_state (revertStaleBlock e) w2 = ((), w3)"
      by (cases "run_state (revertStaleBlock e) w2") simp
    from run1 have "k' = k" "w' = w3"
      unfolding Inl sum.case run_state_bind w3 by simp_all
    then show ?thesis
      using revertStaleBlock_chain [OF w3 step(1)] by simp
  next
    case (Inr u)
    let ?sync = "if Suc k mod 10 = 0 then UpdateSyncStatus (Suc k) True else State_Monad.return (Inr ())"
    obtain x w3 where x: "run_state ?sync w2 = (x, w3)"
      by fastforce
    have "quiet ?sync"
      by (intro quiet_intros)
    note view = view_cong [OF quietD [OF this x]]
    show ?thesis
      by (rule rest [OF run1 [unfolded Inr sum.case run_state_bind x prod.case]]) (use step(2) Inr in \<open>simp_all add: view\<close>)
  qed
qed

text \<open>The blocks of a tick, in order.\<close>

lemma index_blocks_chain:
  assumes "run_state (index_blocks cfg [Suc k..<m] k h rem s) w = ((k', s'), w')" "one_chain parent k w" "extends h k w"
  shows "one_chain parent k' w'"
  using assms
proof (induction "m - Suc k" arbitrary: k h rem s w)
  case (Suc d)
  then have upt: "[Suc k..<m] = Suc k # [Suc (Suc k)..<m]" and d: "d = m - Suc (Suc k)"
    by (simp_all add: upt_conv_Cons)
  obtain c w0 where c: "run_state ctx_Err w = (c, w0)"
    by fastforce
  obtain b w1 where b: "run_state (fetchBlockAndReceipts cfg (Suc k)) w0 = (b, w1)"
    by fastforce
  have view0: "chain_view w0 = chain_view w"
    by (rule quietD [OF quiet_ctx c])
  have view1: "chain_view w1 = chain_view w"
    using quietD [OF quiet_fetch b] view0 by (rule trans)
  note inv0 = Suc.prems(2) [folded view_cong(1) [OF view0]]
  note inv = Suc.prems(2) [folded view_cong(1) [OF view1]] Suc.prems(3) [folded view_cong(2) [OF view1]]
  note run = Suc.prems(1) [unfolded upt index_blocks.simps run_state_bind c b prod.case]
  show ?case
  proof (cases "c \<or> fbRaw b = None")
    case True
    then show ?thesis
      using run inv0 inv(1) b by (auto split: if_splits)
  next
    case False
    then obtain raw where nc: "\<not> c" and raw: "fbRaw b = Some raw"
      by blast
    note run1 = run [unfolded if_not_P [OF nc] run_state_bind b prod.case raw option.case]
    show ?thesis
    proof (cases "h \<noteq> zero_Hash \<and> rbParentHash raw \<noteq> h")
      case True
      let ?recheck = "if rem then recheckSkipped s else State_Monad.return s"
      obtain x w2 where x: "run_state ?recheck w1 = (x, w2)"
        by fastforce
      have "quiet ?recheck"
        by (intro quiet_intros)
      note inv2 = inv(1) [folded view_cong(1) [OF quietD [OF this x]]]
      from run1 have "k' = k" "w' = w2"
        unfolding if_P [OF True] run_state_bind x by simp_all
      then show ?thesis
        using inv2 by simp
    next
      case fits: False
      note run2 = run1 [unfolded if_not_P [OF fits]]
      show ?thesis
      proof (cases "fbErr b")
        case (Some e)
        obtain ok s1 w2 where sk: "run_state (skip_block (Suc k) e s) w1 = ((ok, s1), w2)"
          by (metis prod.collapse)
        note step = skip_step [OF sk inv(1)]
        note run3 = run2 [unfolded Some option.case run_state_bind sk prod.case]
        show ?thesis
        proof (cases ok)
          case True
          show ?thesis
            by (rule Suc.hyps(1) [OF d run3 [unfolded if_P [OF True]]]) (use step(2) [OF True] in blast)+
        qed (use run3 step(1) in simp)
      next
        case None
        show ?thesis
          by (rule commit_continues [OF b raw fits inv run2 [unfolded None option.case] Suc.hyps(1) [OF d]])
      qed
    qed
  qed
qed simp

lemma indexPrefetched_chain:
  assumes run: "run_state (indexPrefetched cfg k latest s) w = ((k', s'), w')" and inv: "one_chain parent k w" "above_floor cfg k w"
  shows "one_chain parent k' w'"
proof -
  obtain a s1 w1 where a: "run_state (anchor cfg k s) w = ((a, s1), w1)"
    by (metis prod.collapse)
  note inv1 = anchor_chain [OF a inv]
  note run1 = run [unfolded indexPrefetched_def run_state_bind a prod.case]
  show ?thesis
  proof (cases "\<not> anOk a \<or> latest \<le> anFrom a")
    case True
    then show ?thesis
      using run1 [unfolded if_P [OF True]] inv1 by simp
  next
    case False
    then show ?thesis
      using index_blocks_chain [OF run1 [unfolded if_not_P [OF False] Suc_eq_plus1 [symmetric]]] inv1 by simp
  qed
qed

lemma handleReorg_above:
  assumes "run_state (handleReorg (Suc k)) w = (Inr (), w')"
  shows "above_floor cfg k w'"
  using handleReorg_prefix [OF assms] by (auto simp: above_floor_def)

section \<open>Properties\<close>

text \<open>C29. A tick of the standard loop leaves the stored blocks up to the cursor it returns one chain, whatever the
  node answers, whichever database calls fail and wherever the tick stops: of two stored neighbours the upper one
  names the lower one as its parent, the blocks recorded as missing apart.  What the node must promise is that a
  block's hash determines its parent.\<close>

theorem standardTick_keeps_one_chain:
  assumes run: "run_state (standardTick cfg k latest s) w = ((k', s'), w')"
    and inv: "one_chain parent k w" "above_floor cfg k w"
  shows "one_chain parent k' w'"
proof -
  let ?detect = "if 0 < k then detectReorg k else State_Monad.return (None, 0)"
  obtain e depth w1 where d: "run_state ?detect w = ((e, depth), w1)"
    by (metis prod.collapse)
  have "quiet ?detect"
    by (intro quiet_intros)
  note inv1 = inv [folded view_cong(1,3) [OF quietD [OF this d]]]
  note run1 = run [unfolded standardTick_def run_state_bind d prod.case]
  show ?thesis
  proof (cases "e \<noteq> None \<or> depth = 0")
    case True
    show ?thesis
    proof (cases "e \<noteq> None")
      case False
      with True have d0: "depth = 0"
        by simp
      show ?thesis
        by (rule indexPrefetched_chain [OF run1 [unfolded if_not_P [OF False] if_P [OF d0]] inv1])
    qed (use run1 inv1(1) in simp)
  next
    case False
    then have shallow: "\<not> e \<noteq> None" "depth \<noteq> 0"
      by simp_all
    obtain r w2 where r: "run_state (handleReorg (k - depth + 1)) w1 = (r, w2)"
      by fastforce
    note inv2 = handleReorg_chain [OF r inv1(1)]
    note run2 = run1 [unfolded if_not_P [OF shallow(1)] if_not_P [OF shallow(2)] run_state_bind r prod.case]
    show ?thesis
    proof (cases r)
      case (Inr u)
      show ?thesis
        by (intro indexPrefetched_chain [OF run2 [unfolded Inr sum.case] one_chain_le [OF inv2 diff_le_self]]
            handleReorg_above [OF r [unfolded Inr unit_eq [of u] Suc_eq_plus1 [symmetric]]])
    qed (use run2 inv2 in simp)
  qed
qed

text \<open>A node on one chain of empty blocks: block \<open>n\<close>'s hash is thirty-two times the byte \<open>n\<close>.\<close>

definition chain_raw :: "u64 \<Rightarrow> raw_block" where
  "chain_raw n = sample_raw\<lparr>rbNumber := Some (int n), rbHash := replicate 32 (of_nat (n + 1)), rbParentHash := replicate 32 (of_nat n),
     rbTransactions := []\<rparr>"

definition chain_world :: world where
  "chain_world = empty_world\<lparr>node := sample_node\<lparr>nodeBlock := (\<lambda>_ m. if m \<le> 2 then Inr (chain_raw m) else Inl BlockNotAvailable)\<rparr>\<rparr>"

definition head_sample :: head_config where
  "head_sample = \<lparr>hcBuilder = sample_builder, startBlock = 0, cursorMayBeUnstored = False\<rparr>"

definition fresh_skip :: receipt_skip where
  "fresh_skip = \<lparr>rsBlock = 0, rsAttempts = 0, rsSkipped = 0, rsSkippedHash = zero_Hash, rsRecorded = False\<rparr>"

definition byte_parent :: "bytes \<Rightarrow> bytes" where
  "byte_parent h = map (\<lambda>x. x - 1) h"

lemma chain_raw_fields:
  "rbHash (chain_raw n) = replicate 32 (of_nat (n + 1))" "rbParentHash (chain_raw n) = replicate 32 (of_nat n)"
  "rbNumber (chain_raw n) = Some (int n)" "rbTransactions (chain_raw n) = []"
  by (simp_all add: chain_raw_def)

lemma chain_raw_number: "n \<le> 2 \<Longrightarrow> NumberU64 (chain_raw n) = n"
  by (simp add: NumberU64_def chain_raw_fields big_Uint64_def)

lemma chain_world_ok: "one_chain byte_parent 0 chain_world" "above_floor head_sample 0 chain_world"
  by (auto simp: one_chain_def chain_node_def linked_def wf_blocks_def above_floor_def chain_world_def empty_world_def chain_raw_fields chain_raw_number
      byte_parent_def is_Hash_def HashLength_def split: if_splits)

lemma chain_world_run:
  "case run_state (standardTick head_sample 0 2 fresh_skip) chain_world of ((k, _), w) \<Rightarrow> k = 2 \<and> map bNumber (blocks w) = [1, 2]"
  by (simp add: standardTick_def indexPrefetched_def anchor_def anchored_def head_sample_def fresh_skip_def upt_conv_Cons
      fetchBlockAndReceipts_def RawBlockByNumber_def commit_block_def insertEmptyBlock_def InsertBlock_def insert_block_def block_taken_def
      run_tx_no_fault note_day_def chain_world_def empty_world_def chain_raw_fields chain_raw_number raw_block_row_def bump_def set_daily_def
      Hash_Hex_inject zero_Hash_def HashLength_def run_tx_def)

lemma standardTick_keeps_one_chain_witness:
  "case run_state (standardTick head_sample 0 2 fresh_skip) chain_world of
     ((k, _), w) \<Rightarrow> k = 2 \<and> map bNumber (blocks w) = [1, 2] \<and> one_chain byte_parent 2 w"
proof -
  obtain k s w where run: "run_state (standardTick head_sample 0 2 fresh_skip) chain_world = ((k, s), w)"
    by (metis prod.collapse)
  then show ?thesis
    using standardTick_keeps_one_chain [OF run chain_world_ok] chain_world_run by auto
qed

text \<open>
  A world that stores a stale block 1, whose node serves another block 1 without its receipts, and a block 2 on top of
  that.\<close>

definition stale_world :: world where
  "stale_world = chain_world\<lparr>
     node := (node chain_world)\<lparr>nodeBlock := (\<lambda>_ m. if m = 1 then Inr ((chain_raw 1)\<lparr>rbTransactions := [sample_tx 1]\<rparr>) else Inr (chain_raw 2))\<rparr>,
     blocks := [raw_block_row (\<lambda>_. []) ((chain_raw 1)\<lparr>rbHash := replicate 32 77\<rparr>)]\<rparr>"


end
