(* ===== verification/Missing_Retry.thy ===== *)
theory Missing_Retry
  imports Head_Chain
begin

text \<open>
  \<open>internal/indexer/standard_missing_retry.go\<close>: the standard loop's pass over the blocks recorded as missing, which
  the head loop moved past for their receipts.

  \<open>clock\<close> is \<open>time.Now\<close>, in units of a nanosecond, indexed like the node's answers by the number of calls so far.
  \<open>missingBackoff\<close>, a map in the code, is an association list with one entry per key.  The theorems: a pass
  writes only blocks that fit between their stored neighbours, and forgets no recorded block that is not stored.
\<close>

section \<open>The pauses\<close>

record missing_attempt =
  failures :: nat
  nextTry :: nat

record retry_state =
  missingRetryAt :: nat
  missingBackoff :: "(u64 \<times> missing_attempt) list"

definition time_Now :: "(nat \<Rightarrow> nat) \<Rightarrow> (world, nat) state" where
  "time_Now clock = State (\<lambda>w. (clock (calls w), w\<lparr>calls := calls w + 1\<rparr>))"

definition pausedMissing :: "(nat \<Rightarrow> nat) \<Rightarrow> (u64 \<times> missing_attempt) list \<Rightarrow> (world, u64 list) state" where
  "pausedMissing clock backoff = do {
     now \<leftarrow> time_Now clock;
     State_Monad.return (map fst (filter (\<lambda>(_, a). now < nextTry a) backoff))
   }"

definition delete_key :: "'k \<Rightarrow> ('k \<times> 'v) list \<Rightarrow> ('k \<times> 'v) list" where
  "delete_key k xs = filter (\<lambda>(k', _). k' \<noteq> k) xs"

definition backOffMissing ::
    "(nat \<Rightarrow> nat) \<Rightarrow> nat \<Rightarrow> u64 \<Rightarrow> u64 \<Rightarrow> (u64 \<times> missing_attempt) list \<Rightarrow> (world, (u64 \<times> missing_attempt) list) state" where
  "backOffMissing clock interval start block backoff =
     (let fails = (case map_of backoff start of None \<Rightarrow> 0 | Some a \<Rightarrow> failures a) + 1;
          rest = delete_key start backoff
      in do {
        now \<leftarrow> time_Now clock;
        State_Monad.return ((block, \<lparr>failures = fails, nextTry = now + interval * 2 ^ min (fails - 1) 6\<rparr>) # delete_key block rest)
      })"

section \<open>One recorded block\<close>

text \<open>The checks against the stored neighbours, and the write.\<close>

definition write_between :: "builder_config \<Rightarrow> u64 \<Rightarrow> raw_block \<Rightarrow> receipts \<Rightarrow> (world, bool) state" where
  "write_between cfg number raw receipts = do {
     below \<leftarrow> (if 0 < number then GetBlock (number - 1) else State_Monad.return (Inr None));
     case below of
       Inl _ \<Rightarrow> State_Monad.return False
     | Inr ob \<Rightarrow>
         if (case ob of None \<Rightarrow> False | Some b \<Rightarrow> \<not> EqualFold (bHash b) (Hash_Hex (rbParentHash raw)))
         then State_Monad.return False
         else do {
           above \<leftarrow> GetBlock (number + 1);
           case above of
             Inl _ \<Rightarrow> State_Monad.return False
           | Inr oc \<Rightarrow>
               if (case oc of None \<Rightarrow> False | Some c \<Rightarrow> \<not> EqualFold (bParentHash c) (Hash_Hex (rbHash raw)))
               then State_Monad.return False
               else do {
                 r \<leftarrow> commit_block cfg raw receipts;
                 State_Monad.return (\<not> isl r)
               }
         }
   }"

definition retryMissingBlock :: "builder_config \<Rightarrow> u64 \<Rightarrow> (world, bool) state" where
  "retryMissingBlock cfg number = do {
     s \<leftarrow> HasBlock number;
     case s of
       Inl _ \<Rightarrow> State_Monad.return False
     | Inr stored \<Rightarrow>
         if stored then State_Monad.return True
         else do {
           f \<leftarrow> fetchBlockAndReceipts cfg number;
           case (fbErr f, fbRaw f) of
             (None, Some raw) \<Rightarrow> write_between cfg number raw (fbReceipts f)
           | _ \<Rightarrow> State_Monad.return False
         }
   }"

section \<open>A pass\<close>

definition missingRetryBlocks :: nat where "missingRetryBlocks = 20"

text \<open>The blocks of one range: what is left of the budget, the first block not done, and whether it failed.\<close>

fun retry_range :: "builder_config \<Rightarrow> u64 \<Rightarrow> u64 \<Rightarrow> nat \<Rightarrow> u64 \<Rightarrow> (world, nat \<times> u64 \<times> bool) state" where
  "retry_range cfg toNumber lastIndexed 0 nxt = State_Monad.return (0, nxt, False)"
| "retry_range cfg toNumber lastIndexed (Suc budget) nxt =
     (if nxt \<le> toNumber \<and> nxt \<le> lastIndexed
      then do {
        ok \<leftarrow> retryMissingBlock cfg nxt;
        if ok then retry_range cfg toNumber lastIndexed budget (nxt + 1) else State_Monad.return (budget, nxt, True)
      }
      else State_Monad.return (Suc budget, nxt, False))"

fun retry_ranges ::
    "(nat \<Rightarrow> nat) \<Rightarrow> nat \<Rightarrow> builder_config \<Rightarrow> u64 \<Rightarrow> block_range list \<Rightarrow> nat \<Rightarrow> (u64 \<times> missing_attempt) list
       \<Rightarrow> (world, (u64 \<times> missing_attempt) list) state" where
  "retry_ranges clock interval cfg lastIndexed [] budget backoff = State_Monad.return backoff"
| "retry_ranges clock interval cfg lastIndexed (r # rs) budget backoff =
     (if lastIndexed < FromNumber r \<or> budget = 0 then State_Monad.return backoff
      else do {
        (left, nxt, failed) \<leftarrow> retry_range cfg (ToNumber r) lastIndexed budget (FromNumber r);
        backoff' \<leftarrow> (if failed then backOffMissing clock interval (FromNumber r) nxt backoff
                     else State_Monad.return (delete_key (FromNumber r) backoff));
        _ \<leftarrow> (if nxt = FromNumber r then State_Monad.return (Inr ()) else AdvanceMissingRange r nxt);
        retry_ranges clock interval cfg lastIndexed rs left backoff'
      })"

definition retryMissing ::
    "(nat \<Rightarrow> nat) \<Rightarrow> nat \<Rightarrow> builder_config \<Rightarrow> u64 \<Rightarrow> receipt_skip \<Rightarrow> retry_state \<Rightarrow> (world, receipt_skip \<times> retry_state) state" where
  "retryMissing clock interval cfg lastIndexed receipts st =
     (if \<not> rsRecorded receipts then State_Monad.return (receipts, st)
      else do {
        now \<leftarrow> time_Now clock;
        if now < missingRetryAt st then State_Monad.return (receipts, st)
        else do {
          now' \<leftarrow> time_Now clock;
          let st1 = st\<lparr>missingRetryAt := now' + interval\<rparr>;
          paused \<leftarrow> pausedMissing clock (missingBackoff st1);
          g \<leftarrow> GetLowestMissingRanges missingRetryBlocks paused;
          case g of
            Inl _ \<Rightarrow> State_Monad.return (receipts, st1)
          | Inr ranges \<Rightarrow>
              if length ranges = 0 \<and> length paused = 0
              then State_Monad.return (receipts\<lparr>rsRecorded := False\<rparr>, st1\<lparr>missingBackoff := []\<rparr>)
              else do {
                backoff \<leftarrow> retry_ranges clock interval cfg lastIndexed ranges missingRetryBlocks (missingBackoff st1);
                State_Monad.return (receipts, st1\<lparr>missingBackoff := backoff\<rparr>)
              }
        }
      })"

section \<open>What a pass keeps\<close>

text \<open>
  \<open>whole_chain\<close>: any two stored neighbours are parent and child.  What the node must promise is what a hash
  promises: it determines the block's parent and number.
\<close>

definition hash_row :: "(bytes \<Rightarrow> bytes) \<Rightarrow> (bytes \<Rightarrow> u64) \<Rightarrow> block \<Rightarrow> bool" where
  "hash_row parent num b \<longleftrightarrow> (\<exists>h. bHash b = Hash_Hex h \<and> bParentHash b = Hash_Hex (parent h) \<and> num h = bNumber b)"

definition whole_chain :: "(bytes \<Rightarrow> bytes) \<Rightarrow> (bytes \<Rightarrow> u64) \<Rightarrow> world \<Rightarrow> bool" where
  "whole_chain parent num w \<longleftrightarrow>
     chain_node parent (node w) \<and> (\<forall>k n raw. nodeBlock (node w) k n = Inr raw \<longrightarrow> rbNumber raw \<noteq> None \<longrightarrow> num (rbHash raw) = n) \<and>
     wf_blocks w \<and> (\<forall>b \<in> set (blocks w). hash_row parent num b) \<and>
     (\<forall>b \<in> set (blocks w). \<forall>c \<in> set (blocks w). bNumber c = Suc (bNumber b) \<longrightarrow> bParentHash c = bHash b)"

definition blocks_kept :: "world \<Rightarrow> world \<Rightarrow> bool" where
  "blocks_kept w w' \<longleftrightarrow> set (blocks w) \<subseteq> set (blocks w') \<and> missing_block_ranges w' = missing_block_ranges w \<and>
     pruned_through w' = pruned_through w \<and> ctx_done w' = ctx_done w"

lemma whole_chain_view: "chain_view w' = chain_view w \<Longrightarrow> whole_chain parent num w' = whole_chain parent num w"
  by (simp add: whole_chain_def view_eqs [of w' w])

lemma blocks_kept_view: "chain_view w' = chain_view w \<Longrightarrow> blocks_kept w w'"
  by (simp add: blocks_kept_def chain_view_def)

lemma GetBlock_answer:
  assumes "run_state (GetBlock n) w = (r, w')"
  shows "chain_view w' = chain_view w" "r = Inr ob \<Longrightarrow> ob = block_at w n"
proof -
  have "quiet (GetBlock n)"
    unfolding GetBlock_def by (intro quiet_intros)
  from quietD [OF this assms] show "chain_view w' = chain_view w" .
  show "ob = block_at w n" if "r = Inr ob"
    by (rule run_query_cases [of "\<lambda>w. block_at w n" w]) (use assms that in \<open>auto simp: GetBlock_def block_at_def\<close>)
qed

lemma HasBlock_answer:
  assumes "run_state (HasBlock n) w = (r, w')"
  shows "chain_view w' = chain_view w" "r = Inr b \<Longrightarrow> b = stored_number w n"
proof -
  have "quiet (HasBlock n)"
    unfolding HasBlock_def by (intro quiet_intros)
  from quietD [OF this assms] show "chain_view w' = chain_view w" .
  show "b = stored_number w n" if "r = Inr b"
    by (rule run_query_cases [of "\<lambda>w. stored_number w n" w]) (use assms that in \<open>auto simp: HasBlock_def stored_number_def\<close>)
qed

text \<open>A block that fits between its neighbours keeps the chain whole.\<close>

lemma whole_chain_wrote:
  assumes inv: "whole_chain parent num w" and wr: "wrote (raw_block_row hex raw) ok w w'"
    and raw: "NumberU64 raw = n" "rbParentHash raw = parent (rbHash raw)" "num (rbHash raw) = n"
    and below: "\<And>b. block_at w (n - 1) = Some b \<Longrightarrow> 0 < n \<Longrightarrow> EqualFold (bHash b) (Hash_Hex (rbParentHash raw))"
    and above: "\<And>c. block_at w (n + 1) = Some c \<Longrightarrow> EqualFold (bParentHash c) (Hash_Hex (rbHash raw))"
  shows "whole_chain parent num w'" "blocks_kept w w'" "ok \<Longrightarrow> stored_number w' n"
proof -
  let ?b = "raw_block_row hex raw"
  have row: "bNumber ?b = n" "bHash ?b = Hash_Hex (rbHash raw)" "bParentHash ?b = Hash_Hex (parent (rbHash raw))" "hash_row parent num ?b"
    using raw by (auto simp: raw_block_row_def hash_row_def)
  have at: "block_at w (bNumber b) = Some b" if "b \<in> set (blocks w)" for b
    using wf_block_at that inv by (simp add: whole_chain_def)
  have hashes: "hash_row parent num b" if "b \<in> set (blocks w)" for b
    using that inv by (simp add: whole_chain_def)
  consider (new) "blocks w' = blocks w @ [?b]" "\<not> stored_number w n" | (old) "blocks w' = blocks w" "ok \<Longrightarrow> stored_number w n"
  proof -
    have "stored_number w n" if "c \<in> set (blocks w)" "bNumber c = n \<or> bHash c = Hash_Hex (rbHash raw)" for c
      using that hashes [OF that(1)] raw(3) by (auto simp: stored_number_def hash_row_def Hash_Hex_inject)
    then show ?thesis
      using wr new old unfolding wrote_def row chain_view_def by (metis block_at_None prod.inject)
  qed
  then have "whole_chain parent num w' \<and> (ok \<longrightarrow> stored_number w' n)"
  proof cases
    case new
    have low: "bParentHash ?b = bHash b" if "b \<in> set (blocks w)" "Suc (bNumber b) = n" for b
    proof -
      have "EqualFold (bHash b) (Hash_Hex (rbParentHash raw))"
        using below [of b] at [OF that(1)] that(2) by auto
      then show ?thesis
        using hashes [OF that(1)] raw(2) by (auto simp: row hash_row_def EqualFold_Hash_Hex)
    qed
    have high: "bParentHash c = bHash ?b" if "c \<in> set (blocks w)" "bNumber c = Suc n" for c
    proof -
      have "EqualFold (bParentHash c) (Hash_Hex (rbHash raw))"
        using above [of c] at [OF that(1)] that(2) by simp
      then show ?thesis
        using hashes [OF that(1)] by (auto simp: row hash_row_def EqualFold_Hash_Hex)
    qed
    have fresh: "n \<notin> bNumber ` set (blocks w)"
      using new(2) by (auto simp: stored_number_def)
    then have "wf_blocks w'"
      using inv new(1) row(1) by (simp add: whole_chain_def wf_blocks_def)
    moreover have "node w' = node w"
      using wr by (auto simp: wrote_def chain_view_def)
    ultimately show ?thesis
      using inv new(1) low high row fresh by (auto simp: whole_chain_def stored_number_def)
  next
    case old
    then show ?thesis
      using inv wr by (auto simp: whole_chain_def wf_blocks_def wrote_def chain_view_def stored_number_def)
  qed
  then show "whole_chain parent num w'" "ok \<Longrightarrow> stored_number w' n"
    by blast+
  show "blocks_kept w w'"
    using wr by (auto simp: blocks_kept_def wrote_def chain_view_def)
qed

text \<open>The answers of the reads of a block.\<close>

lemma spec_GetBlock: "spec (\<lambda>v. chain_view v = chain_view w) (GetBlock n) (\<lambda>r v. chain_view v = chain_view w \<and> (\<forall>ob. r = Inr ob \<longrightarrow> ob = block_at w n))"
  using GetBlock_answer view_eqs(6) by (intro spec_run) metis

lemma spec_HasBlock: "spec (\<lambda>v. chain_view v = chain_view w) (HasBlock n) (\<lambda>r v. chain_view v = chain_view w \<and> (\<forall>b. r = Inr b \<longrightarrow> b = stored_number w n))"
  using HasBlock_answer view_eqs(1) by (intro spec_run) (metis stored_number_def)

lemma spec_fetch:
  assumes "whole_chain parent num w"
  shows "spec (\<lambda>v. chain_view v = chain_view w) (fetchBlockAndReceipts cfg n)
    (\<lambda>f v. chain_view v = chain_view w \<and> (\<forall>raw. fbRaw f = Some raw \<longrightarrow> NumberU64 raw = n \<and> rbParentHash raw = parent (rbHash raw) \<and> num (rbHash raw) = n))"
proof (rule spec_run)
  fix v f v'
  assume v: "chain_view v = chain_view w" and f: "run_state (fetchBlockAndReceipts cfg n) v = (f, v')"
  have node: "chain_node parent (node v)" "\<forall>k n raw. nodeBlock (node v) k n = Inr raw \<longrightarrow> rbNumber raw \<noteq> None \<longrightarrow> num (rbHash raw) = n"
    using assms view_eqs(4) [OF v] by (simp_all add: whole_chain_def)
  have "num (rbHash raw) = n" if "fbRaw f = Some raw" for raw
  proof -
    have "nodeBlock (node v) (calls v) n = Inr raw" "rbNumber raw \<noteq> None"
      using f that by (auto simp: fetchBlockAndReceipts_def RawBlockByNumber_def split: sum.splits if_splits prod.splits)
    then show ?thesis
      using node(2) by blast
  qed
  then show "chain_view v' = chain_view w \<and>
      (\<forall>raw. fbRaw f = Some raw \<longrightarrow> NumberU64 raw = n \<and> rbParentHash raw = parent (rbHash raw) \<and> num (rbHash raw) = n)"
    using fetch_block_answer [OF f _ node(1)] quietD [OF quiet_fetch f] v by auto
qed

lemma spec_commit:
  assumes inv: "whole_chain parent num w"
    and raw: "NumberU64 raw = n" "rbParentHash raw = parent (rbHash raw)" "num (rbHash raw) = n"
    and fits: "\<And>b. block_at w (n - 1) = Some b \<Longrightarrow> 0 < n \<Longrightarrow> EqualFold (bHash b) (Hash_Hex (rbParentHash raw))"
        "\<And>c. block_at w (n + 1) = Some c \<Longrightarrow> EqualFold (bParentHash c) (Hash_Hex (rbHash raw))"
  shows "spec (\<lambda>v. chain_view v = chain_view w) (commit_block cfg raw rs \<bind> (\<lambda>r. State_Monad.return (\<not> isl r)))
    (\<lambda>ok v. whole_chain parent num v \<and> blocks_kept w v \<and> (ok \<longrightarrow> stored_number v n))"
proof (rule spec_run)
  fix v ok v'
  assume v: "chain_view v = chain_view w" and c: "run_state (commit_block cfg raw rs \<bind> (\<lambda>r. State_Monad.return (\<not> isl r))) v = (ok, v')"
  obtain r v1 where r: "run_state (commit_block cfg raw rs) v = (r, v1)"
    by fastforce
  then have "v' = v1" "ok = (r = Inr ())"
    using c by (cases r; simp)+
  then obtain hex where "wrote (raw_block_row hex raw) ok v v'"
    using commit_block_wrote [OF r] by blast
  then have wr: "wrote (raw_block_row hex raw) ok w v'"
    by (rule wrote_view) (simp_all add: v)
  show "whole_chain parent num v' \<and> blocks_kept w v' \<and> (ok \<longrightarrow> stored_number v' n)"
    using whole_chain_wrote [OF inv wr raw fits] by blast
qed

lemma spec_write_between:
  assumes inv: "whole_chain parent num w"
    and raw: "NumberU64 raw = n" "rbParentHash raw = parent (rbHash raw)" "num (rbHash raw) = n"
  shows "spec (\<lambda>v. chain_view v = chain_view w) (write_between cfg n raw rs)
    (\<lambda>ok v. whole_chain parent num v \<and> blocks_kept w v \<and> (ok \<longrightarrow> stored_number v n))" (is "spec ?P _ ?Q")
proof -
  let ?unlike = "\<lambda>get h. case_option False (\<lambda>b. \<not> EqualFold (get b) (Hash_Hex h))"
  have stop: "spec ?P (State_Monad.return False) ?Q"
    by (rule spec_return) (simp add: inv whole_chain_view blocks_kept_view)
  have above: "spec ?P (GetBlock (n + 1) \<bind> case_sum (\<lambda>_. State_Monad.return False) (\<lambda>oc.
      if ?unlike bParentHash (rbHash raw) oc then State_Monad.return False
      else commit_block cfg raw rs \<bind> (\<lambda>r. State_Monad.return (\<not> isl r)))) ?Q"
    if fits: "0 < n \<longrightarrow> \<not> ?unlike bHash (rbParentHash raw) (block_at w (n - 1))"
  proof (intro spec_bind [OF spec_GetBlock] spec_pure)
    fix r :: "db_error + block option"
    assume r: "\<forall>oc. r = Inr oc \<longrightarrow> oc = block_at w (n + 1)"
    have "spec ?P (commit_block cfg raw rs \<bind> (\<lambda>r. State_Monad.return (\<not> isl r))) ?Q"
      if "\<not> ?unlike bParentHash (rbHash raw) (block_at w (n + 1))"
      by (rule spec_commit [OF inv raw]) (use fits that in simp_all)
    then show "spec ?P (case_sum (\<lambda>_. State_Monad.return False) (\<lambda>oc. if ?unlike bParentHash (rbHash raw) oc then State_Monad.return False
        else commit_block cfg raw rs \<bind> (\<lambda>r. State_Monad.return (\<not> isl r))) r) ?Q"
      using stop r by (cases r) simp_all
  qed
  have below: "spec ?P (if 0 < n then GetBlock (n - 1) else State_Monad.return (Inr None))
      (\<lambda>r v. ?P v \<and> (\<forall>ob. r = Inr ob \<longrightarrow> 0 < n \<longrightarrow> ob = block_at w (n - 1)))"
    using spec_GetBlock [of w "n - 1"] by (auto simp: spec_def)
  show ?thesis
    unfolding write_between_def
    using stop above by (intro spec_bind [OF below] spec_pure) (auto split: sum.split)
qed

lemma retryMissingBlock_fits:
  assumes run: "run_state (retryMissingBlock cfg n) w = (ok, w')" and inv: "whole_chain parent num w"
  shows "whole_chain parent num w' \<and> blocks_kept w w' \<and> (ok \<longrightarrow> stored_number w' n)"
proof -
  let ?P = "\<lambda>v. chain_view v = chain_view w" and ?Q = "\<lambda>ok v. whole_chain parent num v \<and> blocks_kept w v \<and> (ok \<longrightarrow> stored_number v n)"
  have stop: "spec ?P (State_Monad.return ok) ?Q" if "ok \<longrightarrow> stored_number w n" for ok
    by (rule spec_return) (use that in \<open>auto simp: inv whole_chain_view blocks_kept_view stored_number_def chain_view_def\<close>)
  have fetch: "spec ?P (fetchBlockAndReceipts cfg n \<bind> (\<lambda>f. case (fbErr f, fbRaw f) of
      (None, Some raw) \<Rightarrow> write_between cfg n raw (fbReceipts f) | _ \<Rightarrow> State_Monad.return False)) ?Q"
    using stop [of False] spec_write_between [OF inv]
    by (intro spec_bind [OF spec_fetch [OF inv]] spec_pure) (auto split: option.split)
  have "spec ?P (retryMissingBlock cfg n) ?Q"
    unfolding retryMissingBlock_def
    using stop fetch by (intro spec_bind [OF spec_HasBlock] spec_pure) (auto split: sum.split)
  from specD [OF this _ run] show ?thesis
    by simp
qed

section \<open>A pass forgets nothing\<close>

lemma blocks_kept_trans: "blocks_kept u v \<Longrightarrow> blocks_kept v w \<Longrightarrow> blocks_kept u w"
  by (auto simp: blocks_kept_def)

lemma stored_kept: "blocks_kept w w' \<Longrightarrow> stored_number w n \<Longrightarrow> stored_number w' n"
  by (auto simp: blocks_kept_def stored_number_def)

lemma retry_range_fits:
  assumes "run_state (retry_range cfg t l budget a) w = ((left, nxt, failed), w')" "whole_chain parent num w"
  shows "whole_chain parent num w' \<and> blocks_kept w w' \<and> a \<le> nxt \<and> (\<forall>m. a \<le> m \<and> m < nxt \<longrightarrow> stored_number w' m)"
  using assms
proof (induction budget arbitrary: a w)
  case (Suc budget)
  show ?case
  proof (cases "a \<le> t \<and> a \<le> l")
    case True
    obtain ok w1 where ok: "run_state (retryMissingBlock cfg a) w = (ok, w1)"
      by fastforce
    note fits = retryMissingBlock_fits [OF ok Suc.prems(2)]
    show ?thesis
    proof (cases ok)
      case True
      then have "run_state (retry_range cfg t l budget (a + 1)) w1 = ((left, nxt, failed), w')"
        using Suc.prems(1) ok \<open>a \<le> t \<and> a \<le> l\<close> by simp
      from Suc.IH [OF this] fits True show ?thesis
        using blocks_kept_trans stored_kept by (metis Suc_eq_plus1 Suc_leD le_antisym not_less_eq_eq)
    next
      case False
      then show ?thesis
        using Suc.prems(1) ok \<open>a \<le> t \<and> a \<le> l\<close> fits by auto
    qed
  next
    case False
    then show ?thesis
      using Suc.prems by (auto simp: blocks_kept_def)
  qed
qed (auto simp: blocks_kept_def)

text \<open>
  \<open>read_row h r v\<close>: the table's row that \<open>r\<close> was read from, if it is still there, is as it was read, with its start
  not clipped.  \<open>remembered M h v\<close>: every number of \<open>M\<close> from \<open>h\<close> up is recorded or stored.
\<close>

definition read_row :: "nat \<Rightarrow> block_range \<Rightarrow> world \<Rightarrow> bool" where
  "read_row h r v \<longleftrightarrow> (\<forall>q \<in> set (missing_block_ranges v). rID q = rID r \<longrightarrow> ToNumber q = ToNumber r \<and> max (FromNumber q) h = FromNumber r)"

definition remembered :: "nat set \<Rightarrow> nat \<Rightarrow> world \<Rightarrow> bool" where
  "remembered M h v \<longleftrightarrow> (\<forall>n \<in> M. h \<le> n \<longrightarrow> n \<in> mcover v \<or> stored_number v n)"

lemma remembered_kept: "remembered M h v \<Longrightarrow> blocks_kept v v' \<Longrightarrow> remembered M h v'"
  using stored_kept [of v v'] unfolding remembered_def by (auto simp: blocks_kept_def mcover_def)

lemma advance_range_remembers:
  assumes "advance_range r nxt v = Inr v'" "read_row h r v" "FromNumber r < nxt" "remembered M h v"
    and stored: "\<And>m. FromNumber r \<le> m \<Longrightarrow> m < nxt \<Longrightarrow> stored_number v m"
  shows "remembered M h v'"
proof -
  have blocks: "blocks v' = blocks v"
    using assms(1) by (auto simp: advance_range_def delete_ranges_def split: if_splits)
  have "n \<in> mcover v' \<or> stored_number v n" if n: "n \<in> mcover v" "h \<le> n" for n
  proof (cases "nxt \<le> n")
    case True
    then show ?thesis
      using advance_range_mcover [OF assms(1) _ n(1)] assms(2,3) by (fastforce simp: read_row_def)
  next
    case False
    obtain q where q: "q \<in> set (missing_block_ranges v)" "FromNumber q \<le> n" "n \<le> ToNumber q"
      using n(1) by (auto simp: mcover_iff)
    show ?thesis
    proof (cases "rID q = rID r")
      case True
      then have "FromNumber r \<le> n"
        using assms(2) q n(2) by (auto simp: read_row_def)
      then show ?thesis
        using stored False by simp
    next
      case other: False
      then show ?thesis
        using assms(1) q by (force simp: advance_range_def delete_ranges_def mcover_iff split: if_splits)
    qed
  qed
  then show ?thesis
    using assms(4) blocks by (auto simp: remembered_def stored_number_def)
qed

lemma advance_range_rows: "advance_range r nxt v = Inr v' \<Longrightarrow> read_row h r' v \<Longrightarrow> rID r' \<noteq> rID r \<Longrightarrow> read_row h r' v'"
  by (auto simp: advance_range_def delete_ranges_def read_row_def split: if_splits)

lemma AdvanceMissingRange_remembers:
  assumes "run_state (AdvanceMissingRange r nxt) w = (a, w')" "read_row h r w" "FromNumber r < nxt" "remembered M h w"
    and "\<And>m. FromNumber r \<le> m \<Longrightarrow> m < nxt \<Longrightarrow> stored_number w m" "whole_chain parent num w"
  shows "remembered M h w' \<and> whole_chain parent num w' \<and> (\<forall>r'. rID r' \<noteq> rID r \<longrightarrow> read_row h r' w \<longrightarrow> read_row h r' w') \<and>
    pruned_through w' = pruned_through w"
proof -
  let ?w = "w\<lparr>faults := tl (faults w)\<rparr>"
  have same: "remembered M h ?w = remembered M h w" "whole_chain parent num ?w = whole_chain parent num w"
    "read_row h r' ?w = read_row h r' w" "stored_number ?w m = stored_number w m" for r' m
    by (simp_all add: remembered_def whole_chain_def wf_blocks_def read_row_def stored_number_def)
  have moved: "remembered M h v \<and> whole_chain parent num v \<and> (\<forall>r'. rID r' \<noteq> rID r \<longrightarrow> read_row h r' w \<longrightarrow> read_row h r' v) \<and>
      pruned_through v = pruned_through w" if v: "advance_range r nxt ?w = Inr v" for v
  proof -
    have frame: "blocks v = blocks w" "node v = node w" "pruned_through v = pruned_through w"
      using v by (auto simp: advance_range_def delete_ranges_def split: if_splits)
    then show ?thesis
      using advance_range_remembers [OF v, of h M] advance_range_rows [OF v, of h] assms(2-6)
      by (simp add: same whole_chain_def wf_blocks_def)
  qed
  show ?thesis
    by (rule tx_of_cases [of "advance_range r nxt" w])
      (use assms(1,2,4,6) moved same in \<open>auto simp: AdvanceMissingRange_def\<close>)
qed

lemma time_Now_view: "run_state (time_Now clock) w = (a, w') \<Longrightarrow> chain_view w' = chain_view w"
  by (auto simp: time_Now_def chain_view_def)

lemma backOffMissing_view: "run_state (backOffMissing clock i f b bo) w = (a, w') \<Longrightarrow> chain_view w' = chain_view w"
  by (auto simp: backOffMissing_def Let_def time_Now_def chain_view_def)

lemma read_row_kept: "blocks_kept v v' \<Longrightarrow> read_row h r v' = read_row h r v"
  by (simp add: read_row_def blocks_kept_def)

lemma retry_ranges_fits:
  assumes "run_state (retry_ranges clock i cfg l rs budget bo) w = (bo', w')" "whole_chain parent num w" "remembered M h w"
    and "distinct (map rID rs)" "\<forall>r \<in> set rs. read_row h r w"
  shows "whole_chain parent num w' \<and> remembered M h w'"
  using assms
proof (induction rs arbitrary: budget bo w)
  case (Cons r rs)
  show ?case
  proof (cases "l < FromNumber r \<or> budget = 0")
    case False
    obtain left nxt failed w1 where r: "run_state (retry_range cfg (ToNumber r) l budget (FromNumber r)) w = ((left, nxt, failed), w1)"
      by (metis prod_cases3 surj_pair)
    note fits = retry_range_fits [OF r Cons.prems(2)]
    let ?b = "if failed then backOffMissing clock i (FromNumber r) nxt bo else State_Monad.return (delete_key (FromNumber r) bo)"
    obtain bo1 w2 where b: "run_state ?b w1 = (bo1, w2)"
      by fastforce
    then have view: "chain_view w2 = chain_view w1"
      by (cases failed) (auto dest: backOffMissing_view)
    let ?a = "if nxt = FromNumber r then State_Monad.return (Inr ()) else AdvanceMissingRange r nxt"
    obtain x w3 where a: "run_state ?a w2 = (x, w3)"
      by fastforce
    have kept: "blocks_kept w w2"
      using fits blocks_kept_trans blocks_kept_view [OF view] by blast
    have inv2: "whole_chain parent num w2" "remembered M h w2" "\<forall>q \<in> set (r # rs). read_row h q w2"
      "\<And>m. FromNumber r \<le> m \<Longrightarrow> m < nxt \<Longrightarrow> stored_number w2 m"
      using fits Cons.prems(3,5) remembered_kept [OF _ kept] read_row_kept [OF kept] stored_kept [OF blocks_kept_view [OF view]]
      by (simp_all add: whole_chain_view [OF view])
    have inv3: "whole_chain parent num w3 \<and> remembered M h w3 \<and> (\<forall>q \<in> set rs. read_row h q w3)"
    proof (cases "nxt = FromNumber r")
      case False
      then have lt: "FromNumber r < nxt" and adv: "run_state (AdvanceMissingRange r nxt) w2 = (x, w3)"
        using fits a by auto
      have "\<forall>q \<in> set rs. rID q \<noteq> rID r"
        using Cons.prems(4) by (metis distinct.simps(2) image_eqI list.set_map list.simps(9))
      then show ?thesis
        using AdvanceMissingRange_remembers [OF adv _ lt inv2(2) inv2(4) inv2(1)] inv2(3) by auto
    qed (use a inv2 in auto)
    have "run_state (retry_ranges clock i cfg l rs left bo1) w3 = (bo', w')"
      using Cons.prems(1) unfolding retry_ranges.simps if_not_P [OF False] run_state_bind r prod.case b a .
    then show ?thesis
      by (rule Cons.IH) (use inv3 Cons.prems(4) in auto)
  qed (use Cons.prems in auto)
qed auto

lemma lowest_rows:
  assumes "wf_missing w" and rs_def: "rs = take limit (sort_key FromNumber (filter (\<lambda>r. FromNumber r \<notin> set skip)
    (map (clip_from (history_from w)) (filter (\<lambda>r. history_from w \<le> ToNumber r) (missing_block_ranges w)))))"
  shows "distinct (map rID rs)" "\<forall>r \<in> set rs. read_row (history_from w) r w"
proof -
  let ?rows = "filter (\<lambda>r. FromNumber r \<notin> set skip) (map (clip_from (history_from w)) (filter (\<lambda>r. history_from w \<le> ToNumber r) (missing_block_ranges w)))"
  have ids: "map rID (map (clip_from (history_from w)) qs) = map rID qs" for qs
    by (simp add: clip_from_def)
  have "distinct (map rID (map (clip_from (history_from w)) (filter (\<lambda>r. history_from w \<le> ToNumber r) (missing_block_ranges w))))"
    unfolding ids using assms(1) by (simp add: wf_missing_def distinct_map_filter)
  then have "distinct (map rID ?rows)"
    by (rule distinct_map_filter)
  then have "distinct (map rID (sort_key FromNumber ?rows))"
    by (simp add: distinct_map)
  then show "distinct (map rID rs)"
    by (simp add: rs_def take_map [symmetric])
  have "read_row (history_from w) (clip_from (history_from w) q) w" if "q \<in> set (missing_block_ranges w)" for q
    using wf_missing_row_unique [OF assms(1) _ that] by (auto simp: read_row_def clip_from_def)
  then show "\<forall>r \<in> set rs. read_row (history_from w) r w"
    by (auto simp: rs_def dest!: in_set_takeD)
qed

lemma spec_lowest:
  assumes "wf_missing w"
  shows "spec (\<lambda>v. chain_view v = chain_view w) (GetLowestMissingRanges k skip) (\<lambda>g v. chain_view v = chain_view w \<and>
      (\<forall>rs. g = Inr rs \<longrightarrow> distinct (map rID rs) \<and> (\<forall>r \<in> set rs. read_row (history_from w) r w)))"
proof (rule spec_run)
  fix v g v'
  assume v: "chain_view v = chain_view w" and g: "run_state (GetLowestMissingRanges k skip) v = (g, v')"
  let ?rows = "\<lambda>w. take k (sort_key FromNumber (filter (\<lambda>r. FromNumber r \<notin> set skip)
    (map (clip_from (history_from w)) (filter (\<lambda>r. history_from w \<le> ToNumber r) (missing_block_ranges w)))))"
  have same: "?rows (v\<lparr>faults := fs\<rparr>) = ?rows w" for fs
    using v by (simp add: chain_view_def history_from_def)
  have "chain_view v' = chain_view v \<and> (\<forall>rs. g = Inr rs \<longrightarrow> rs = ?rows w)"
    by (rule run_query_cases [of ?rows v]) (use g same in \<open>auto simp: GetLowestMissingRanges_def chain_view_def\<close>)
  then show "chain_view v' = chain_view w \<and>
      (\<forall>rs. g = Inr rs \<longrightarrow> distinct (map rID rs) \<and> (\<forall>r \<in> set rs. read_row (history_from w) r w))"
    using v lowest_rows [OF assms] by auto
qed

section \<open>Properties\<close>

text \<open>C35. A pass over the recorded blocks writes only blocks that fit: if any two stored neighbours were parent and child,
  they still are, whatever the node answers and whatever calls fail.  And it forgets nothing: every number
  recorded as missing (above what retention pruned) is afterwards still recorded, or stored.\<close>

theorem retryMissing_fits_and_forgets_nothing:
  assumes run: "run_state (retryMissing clock interval cfg lastIndexed receipts st) w = (out, w')"
    and inv: "whole_chain parent num w" "wf_missing w" and n: "n \<in> mcover w" "history_from w \<le> n"
  shows "whole_chain parent num w' \<and> (n \<in> mcover w' \<or> stored_number w' n)"
proof -
  let ?Q = "\<lambda>v. whole_chain parent num v \<and> remembered (mcover w) (history_from w) v"
  have start: "?Q v" if "chain_view v = chain_view w" for v
    using inv(1) view_eqs(2) [OF that] by (simp add: whole_chain_view [OF that] remembered_def)
  have now: "spec (\<lambda>v. chain_view v = chain_view w) (time_Now clock) (\<lambda>_ v. chain_view v = chain_view w)"
    by (auto intro!: spec_run dest: time_Now_view)
  have stop: "spec (\<lambda>v. chain_view v = chain_view w) (State_Monad.return x) (\<lambda>_. ?Q)" for x :: "receipt_skip \<times> retry_state"
    by (rule spec_return) (rule start)
  have paused: "spec (\<lambda>v. chain_view v = chain_view w) (pausedMissing clock bo) (\<lambda>_ v. chain_view v = chain_view w)" for bo
    unfolding pausedMissing_def by (intro spec_bind [OF now] spec_return)
  have get: "spec (\<lambda>v. chain_view v = chain_view w) (GetLowestMissingRanges k skip) (\<lambda>g v. chain_view v = chain_view w \<and>
      (\<forall>rs. g = Inr rs \<longrightarrow> distinct (map rID rs) \<and> (\<forall>r \<in> set rs. read_row (history_from w) r w)))" for k skip
    by (rule spec_lowest [OF inv(2)])
  have ranges: "spec (\<lambda>v. chain_view v = chain_view w) (retry_ranges clock i cfg lastIndexed rs k bo \<bind> (\<lambda>b. State_Monad.return (g b))) (\<lambda>_. ?Q)"
    if "distinct (map rID rs)" "\<forall>r \<in> set rs. read_row (history_from w) r w" for i rs k bo and g :: "_ \<Rightarrow> receipt_skip \<times> retry_state"
  proof (rule spec_bind [where R = "\<lambda>_. ?Q"])
    show "spec (\<lambda>v. chain_view v = chain_view w) (retry_ranges clock i cfg lastIndexed rs k bo) (\<lambda>_. ?Q)"
    proof (rule spec_run)
      fix v b v'
      assume v: "chain_view v = chain_view w" and run: "run_state (retry_ranges clock i cfg lastIndexed rs k bo) v = (b, v')"
      have "\<forall>r \<in> set rs. read_row (history_from w) r v"
        using that(2) v by (simp add: read_row_def chain_view_def)
      from retry_ranges_fits [OF run _ _ that(1) this] show "?Q v'"
        using start [OF v] by blast
    qed
  qed (rule spec_return)
  have "spec (\<lambda>v. chain_view v = chain_view w) (retryMissing clock interval cfg lastIndexed receipts st) (\<lambda>_. ?Q)"
    unfolding retryMissing_def Let_def
    using stop ranges by (auto intro!: spec_bind [OF now] spec_bind [OF paused] spec_bind [OF get] spec_pure split: sum.split)
  from specD [OF this refl run] show ?thesis
    using n by (auto simp: remembered_def)
qed

definition gap_world :: world where
  "gap_world = chain_world\<lparr>missing_block_ranges := [\<lparr>rID = 1, FromNumber = 1, ToNumber = 1, rCreatedAt = 0\<rparr>], missing_seq := 2,
     blocks := [raw_block_row (\<lambda>_. []) (chain_raw 2)]\<rparr>"

definition byte_number :: "bytes \<Rightarrow> u64" where
  "byte_number h = unat (hd h) - 1"

lemma chain_raw_byte: "n \<le> 2 \<Longrightarrow> byte_number (rbHash (chain_raw n)) = n \<and> byte_parent (rbHash (chain_raw n)) = rbParentHash (chain_raw n)"
  by (simp add: byte_number_def byte_parent_def chain_raw_fields unat_of_nat take_bit_eq_mod del: of_nat_Suc of_nat_add) simp

lemma retryMissing_fits_and_forgets_nothing_witness:
  "case run_state (retryMissing (\<lambda>k. k) 5 sample_builder 2 (fresh_skip\<lparr>rsRecorded := True\<rparr>) \<lparr>missingRetryAt = 0, missingBackoff = []\<rparr>) gap_world of
     (_, w) \<Rightarrow> whole_chain byte_parent byte_number w \<and> (1 \<in> mcover w \<or> stored_number w 1)"
proof -
  have "hash_row byte_parent byte_number (raw_block_row (\<lambda>_. []) (chain_raw 2))"
    using chain_raw_byte [of 2] by (auto simp: hash_row_def raw_block_row_def chain_raw_number)
  moreover have "chain_node byte_parent (node gap_world)"
    using chain_world_ok(1) by (simp add: gap_world_def one_chain_def)
  ultimately have ok: "whole_chain byte_parent byte_number gap_world" "wf_missing gap_world" "1 \<in> mcover gap_world" "history_from gap_world \<le> 1"
    using chain_raw_byte
    by (auto simp: whole_chain_def gap_world_def chain_world_def empty_world_def wf_blocks_def wf_missing_def mcover_def history_from_def split: if_splits)
  obtain out w where "run_state (retryMissing (\<lambda>k. k) 5 sample_builder 2 (fresh_skip\<lparr>rsRecorded := True\<rparr>) \<lparr>missingRetryAt = 0, missingBackoff = []\<rparr>)
      gap_world = (out, w)"
    by fastforce
  then show ?thesis
    using retryMissing_fits_and_forgets_nothing [OF _ ok] by simp
qed

end
