(* ===== verification/Catch_Up.thy ===== *)
theory Catch_Up
  imports Range_Collector Missing_Retry
begin

text \<open>
  \<open>internal/indexer/catchup.go\<close>: the workers that index the blocks of the recorded missing ranges.

  The producer reads a batch of ranges and queues their blocks; a worker takes a block, stores it, and removes every
  recorded range that holds it, or records the block alone as missing again.  The model runs the queued blocks one
  after the other (\<open>catchup_pass\<close>), which is one order of the workers.  The loop that records a block until it
  succeeds terminates because the faults are finite (\<open>requeue_until\<close>).  Waiting, yielding to the head and the
  progress log do not change the tables and are left out.
\<close>

section \<open>One block\<close>

definition catchupAttempts :: nat where "catchupAttempts = 5"

record catchup_config =
  hasCollector :: bool
  cuBuilder :: builder_config

definition catchup_processBlockRaw :: "catchup_config \<Rightarrow> u64 \<Rightarrow> (world, process_error + unit) state" where
  "catchup_processBlockRaw cfg number = do {
     r \<leftarrow> RawBlockByNumber number;
     case r of
       Inl e \<Rightarrow> State_Monad.return (Inl (NodeError e))
     | Inr raw \<Rightarrow>
         if rbTransactions raw \<noteq> [] then processBlockParallelRaw (cuBuilder cfg) raw else processBlockRaw (cuBuilder cfg) number
   }"

definition tryBlock :: "catchup_config \<Rightarrow> u64 \<Rightarrow> (world, bool) state" where
  "tryBlock cfg blockNum = do {
     s \<leftarrow> HasBlock blockNum;
     case s of
       Inl _ \<Rightarrow> State_Monad.return False
     | Inr exist \<Rightarrow>
         if exist then do {
           _ \<leftarrow> (if hasCollector cfg then MarkBlockProcessed blockNum else State_Monad.return (Inr ()));
           State_Monad.return True
         }
         else do {
           p \<leftarrow> catchup_processBlockRaw cfg blockNum;
           case p of
             Inl _ \<Rightarrow> do {
               q \<leftarrow> RequeueMissingBlock blockNum;
               State_Monad.return (\<not> isl q)
             }
           | Inr _ \<Rightarrow> do {
               _ \<leftarrow> (if hasCollector cfg then MarkBlockProcessed blockNum else DeleteMissingRangeByBlock blockNum);
               State_Monad.return True
             }
         }
   }"

text \<open>A failed record of the block used up a fault, so the loop ends; or the context has.\<close>

lemma RequeueMissingBlock_error:
  "run_state (RequeueMissingBlock n) w = (Inl e, w') \<Longrightarrow> length (faults w') < length (faults w)"
  unfolding RequeueMissingBlock_def
  by (rule tx_of_cases [of "insert_range_or_nothing n n" w]) (auto simp: insert_range_or_nothing_def split: if_splits)

function requeue_until :: "u64 \<Rightarrow> world \<Rightarrow> world" where
  "requeue_until n w =
     (case run_state (RequeueMissingBlock n) w of
        (Inr _, w') \<Rightarrow> w'
      | (Inl _, w') \<Rightarrow> (case run_state ctx_Err w' of (cancelled, w'') \<Rightarrow> if cancelled then w'' else requeue_until n w''))"
  by pat_completeness auto
termination
  by (relation "measure (\<lambda>(_, w). length (faults w))") (auto dest: RequeueMissingBlock_error [OF sym])

declare requeue_until.simps [simp del]

fun try_attempts :: "catchup_config \<Rightarrow> u64 \<Rightarrow> nat \<Rightarrow> (world, unit) state" where
  "try_attempts cfg n 0 = State_Monad.update (requeue_until n)"
| "try_attempts cfg n (Suc left) = do {
     ok \<leftarrow> tryBlock cfg n;
     if ok then State_Monad.return ()
     else do {
       cancelled \<leftarrow> ctx_Err;
       if cancelled then State_Monad.return () else try_attempts cfg n left
     }
   }"

definition indexBlock :: "catchup_config \<Rightarrow> u64 \<Rightarrow> (world, unit) state" where
  "indexBlock cfg blockNum = try_attempts cfg blockNum catchupAttempts"

section \<open>The queue\<close>

fun index_queue :: "catchup_config \<Rightarrow> u64 list \<Rightarrow> (world, unit) state" where
  "index_queue cfg [] = State_Monad.return ()"
| "index_queue cfg (n # ns) = do { indexBlock cfg n; index_queue cfg ns }"

definition range_blocks :: "block_range \<Rightarrow> u64 list" where
  "range_blocks r = [FromNumber r..<ToNumber r + 1]"

definition catchup_pass :: "catchup_config \<Rightarrow> nat \<Rightarrow> (world, unit) state" where
  "catchup_pass cfg configured = do {
     let batchSize = (if configured = 0 then 100 else configured);
     g \<leftarrow> GetMissingRangesBatch batchSize;
     case g of
       Inl _ \<Rightarrow> State_Monad.return ()
     | Inr ranges \<Rightarrow> index_queue cfg (concat (map range_blocks ranges))
   }"

section \<open>What a worker leaves\<close>

text \<open>What the node must promise: a block answered for a number has it, and its hash determines the number.\<close>

definition numbered :: "(bytes \<Rightarrow> u64) \<Rightarrow> world \<Rightarrow> bool" where
  "numbered num w \<longleftrightarrow>
     (\<forall>k n raw. nodeBlock (node w) k n = Inr raw \<longrightarrow> rbNumber raw \<noteq> None \<longrightarrow> NumberU64 raw = n \<and> num (rbHash raw) = n) \<and>
     (\<forall>b \<in> set (blocks w). \<exists>h. bHash b = Hash_Hex h \<and> num h = bNumber b)"

lemma numbered_view: "chain_view w' = chain_view w \<Longrightarrow> numbered num w' = numbered num w"
  by (simp add: numbered_def chain_view_def)

lemma numbered_wrote:
  assumes inv: "numbered num w" and wr: "wrote (raw_block_row hex raw) ok w w'" and raw: "NumberU64 raw = n" "num (rbHash raw) = n"
  shows "numbered num w' \<and> blocks_kept w w' \<and> (ok \<longrightarrow> stored_number w' n)"
proof -
  let ?b = "raw_block_row hex raw"
  have row: "bNumber ?b = n" "bHash ?b = Hash_Hex (rbHash raw)"
    using raw by (simp_all add: raw_block_row_def)
  have "stored_number w n" if c: "c \<in> set (blocks w)" "bNumber c = n \<or> bHash c = Hash_Hex (rbHash raw)" for c
  proof -
    obtain h where "bHash c = Hash_Hex h" "num h = bNumber c"
      using c(1) inv unfolding numbered_def by blast
    then show ?thesis
      using c raw(2) by (auto simp: stored_number_def Hash_Hex_inject)
  qed
  then show ?thesis
    using wr inv raw(2) row unfolding wrote_def
    by (auto simp: chain_view_def numbered_def blocks_kept_def stored_number_def Hash_Hex_inject)
qed

lemma spec_raw:
  assumes "numbered num w"
  shows "spec (\<lambda>v. chain_view v = chain_view w) (RawBlockByNumber n)
    (\<lambda>r v. chain_view v = chain_view w \<and> (\<forall>raw. r = Inr raw \<longrightarrow> NumberU64 raw = n \<and> num (rbHash raw) = n))"
proof (rule spec_run)
  fix v r v'
  assume v: "chain_view v = chain_view w" and r: "run_state (RawBlockByNumber n) v = (r, v')"
  have "nodeBlock (node v) (calls v) n = Inr raw \<and> rbNumber raw \<noteq> None" if "r = Inr raw" for raw
    using r that by (auto simp: RawBlockByNumber_def split: sum.splits if_splits prod.splits)
  moreover have "chain_view v' = chain_view v"
    using r by (auto simp: RawBlockByNumber_def chain_view_def split: sum.splits if_splits prod.splits)
  ultimately show "chain_view v' = chain_view w \<and> (\<forall>raw. r = Inr raw \<longrightarrow> NumberU64 raw = n \<and> num (rbHash raw) = n)"
    using v assms view_eqs(4) [OF v] by (auto simp: numbered_def)
qed

lemma spec_commit_numbered:
  assumes "numbered num w" "NumberU64 raw = n" "num (rbHash raw) = n"
  shows "spec (\<lambda>v. chain_view v = chain_view w) (commit_block cfg raw rs)
    (\<lambda>r v. numbered num v \<and> blocks_kept w v \<and> (r = Inr () \<longrightarrow> stored_number v n))"
proof (rule spec_run)
  fix v r v'
  assume v: "chain_view v = chain_view w" and r: "run_state (commit_block cfg raw rs) v = (r, v')"
  obtain hex where "wrote (raw_block_row hex raw) (r = Inr ()) v v'"
    using commit_block_wrote [OF r] by blast
  then have "wrote (raw_block_row hex raw) (r = Inr ()) w v'"
    by (rule wrote_view) (simp_all add: v)
  from numbered_wrote [OF assms(1) this assms(2,3)] show "numbered num v' \<and> blocks_kept w v' \<and> (r = Inr () \<longrightarrow> stored_number v' n)" .
qed

lemma spec_process:
  assumes inv: "numbered num w"
  shows "spec (\<lambda>v. chain_view v = chain_view w) (catchup_processBlockRaw cfg n)
    (\<lambda>r v. numbered num v \<and> blocks_kept w v \<and> (r = Inr () \<longrightarrow> stored_number v n))" (is "spec ?P _ ?Q")
proof -
  have stop: "spec ?P (State_Monad.return (Inl e)) ?Q" for e
    by (rule spec_return) (simp add: inv numbered_view blocks_kept_view)
  have empty: "spec ?P (insertEmptyBlock raw) ?Q" if "NumberU64 raw = n" "num (rbHash raw) = n" "rbTransactions raw = []" for raw
    using spec_commit_numbered [OF inv that(1,2), of "cuBuilder cfg" Map.empty] that(3) by (simp add: commit_block_def)
  have fetch: "spec ?P (FetchReceiptsBatch hs k) (\<lambda>_. ?P)" for hs k
  proof (rule spec_run)
    fix v r v'
    assume v: "?P v" and r: "run_state (FetchReceiptsBatch hs k) v = (r, v')"
    have "quiet (FetchReceiptsBatch hs k)"
      unfolding node_read_defs by (intro quiet_intros)
    from quietD [OF this r] show "?P v'"
      using v by simp
  qed
  have txs: "spec ?P (processBlockParallelRaw (cuBuilder cfg) raw) ?Q"
    if "NumberU64 raw = n" "num (rbHash raw) = n" "rbTransactions raw \<noteq> []" for raw
  proof -
    have "spec ?P (processBlockWithReceipts (cuBuilder cfg) raw rs) ?Q" for rs
      using spec_commit_numbered [OF inv that(1,2), of "cuBuilder cfg" rs] that(3) by (simp add: commit_block_def)
    then show ?thesis
      unfolding processBlockParallelRaw_def using stop by (intro spec_bind [OF fetch]) (auto split: sum.split)
  qed
  have again: "spec ?P (processBlockRaw (cuBuilder cfg) n) ?Q"
    unfolding processBlockRaw_def using stop empty txs by (intro spec_bind [OF spec_raw [OF inv]] spec_pure) (auto split: sum.split)
  show ?thesis
    unfolding catchup_processBlockRaw_def using stop txs again
    by (intro spec_bind [OF spec_raw [OF inv]] spec_pure) (auto split: sum.split)
qed

text \<open>
  \<open>settled n w w'\<close>: block \<open>n\<close> is stored or recorded alone, no stored block is gone, and no recorded range that
  does not hold \<open>n\<close> is.
\<close>

definition range_kept :: "u64 \<Rightarrow> world \<Rightarrow> world \<Rightarrow> bool" where
  "range_kept n w w' \<longleftrightarrow> set (blocks w) \<subseteq> set (blocks w') \<and> ctx_done w' = ctx_done w \<and>
     (\<forall>q \<in> set (missing_block_ranges w). \<not> (FromNumber q \<le> n \<and> n \<le> ToNumber q) \<longrightarrow> q \<in> set (missing_block_ranges w'))"

definition noted :: "u64 \<Rightarrow> world \<Rightarrow> bool" where
  "noted n w \<longleftrightarrow> stored_number w n \<or> has_range n n w"

lemma range_kept_trans: "range_kept n u v \<Longrightarrow> range_kept n v w \<Longrightarrow> range_kept n u w"
  by (auto simp: range_kept_def)

lemma blocks_kept_range: "blocks_kept w w' \<Longrightarrow> range_kept n w w'"
  by (simp add: blocks_kept_def range_kept_def)

lemma requeue_step:
  assumes "run_state (RequeueMissingBlock n) w = (r, w')" "numbered num w"
  shows "numbered num w' \<and> range_kept n w w' \<and> (\<not> isl r \<longrightarrow> noted n w')"
  by (rule tx_of_cases [of "insert_range_or_nothing n n" w])
    (use assms in \<open>auto simp: RequeueMissingBlock_def insert_range_or_nothing_def has_range_def new_range_def numbered_def range_kept_def noted_def
      split: if_splits\<close>)

lemma delete_step:
  assumes "run_state (DeleteMissingRangeByBlock n) w = (r, w')" "numbered num w" "stored_number w n"
  shows "numbered num w' \<and> range_kept n w w' \<and> noted n w'"
  by (rule tx_of_cases [of "\<lambda>w. Inr (delete_ranges (\<lambda>r. FromNumber r \<le> n \<and> n \<le> ToNumber r) w)" w])
    (use assms in \<open>auto simp: DeleteMissingRangeByBlock_def delete_ranges_def numbered_def range_kept_def noted_def stored_number_def\<close>)

lemma tryBlock_step:
  assumes "run_state (tryBlock cfg n) w = (ok, w')" and inv: "numbered num w"
  shows "numbered num w' \<and> range_kept n w w' \<and> (ok \<longrightarrow> noted n w')"
proof -
  let ?P = "\<lambda>v. chain_view v = chain_view w" and ?Q = "\<lambda>ok v. numbered num v \<and> range_kept n w v \<and> (ok \<longrightarrow> noted n v)"
  let ?R = "\<lambda>st v. numbered num v \<and> blocks_kept w v \<and> (st \<longrightarrow> stored_number v n)"
  have view: "?R (stored_number w n) v" if "?P v" for v
    using that inv numbered_view [OF that] blocks_kept_view [OF that] by (simp add: stored_number_def chain_view_def)
  have del: "spec (?R True) (DeleteMissingRangeByBlock n) (\<lambda>_. ?Q True)"
    using delete_step blocks_kept_range range_kept_trans by (intro spec_run) blast
  have req: "spec (?R False) (RequeueMissingBlock n) (\<lambda>r. ?Q (\<not> isl r))"
    using requeue_step blocks_kept_range range_kept_trans by (intro spec_run) blast
  have out: "spec (?Q ok) (State_Monad.return ok) ?Q" for ok
    by (rule spec_return)
  have kept: "spec (?R True) (State_Monad.return x) (\<lambda>_. ?Q True)" for x :: "db_error + unit"
    by (rule spec_return) (auto simp: noted_def blocks_kept_range)
  have fail: "spec ?P (State_Monad.return False) ?Q"
    by (rule spec_return) (use view in \<open>auto simp: blocks_kept_range\<close>)
  have weak: "spec ?P m X" if "spec (?R (stored_number w n)) m X" for m :: "(world, 'x) state" and X
    using that view by (auto simp: spec_def)
  have found: "spec ?P ((if hasCollector cfg then MarkBlockProcessed n else State_Monad.return (Inr ())) \<bind> (\<lambda>_. State_Monad.return True)) ?Q"
    if "stored_number w n"
    using weak [of _ "\<lambda>_. ?Q True"] del kept that by (intro spec_bind [OF _ out]) (auto simp: MarkBlockProcessed_def)
  have fresh: "spec ?P (catchup_processBlockRaw cfg n \<bind> case_sum (\<lambda>_. RequeueMissingBlock n \<bind> (\<lambda>q. State_Monad.return (\<not> isl q)))
      (\<lambda>_. (if hasCollector cfg then MarkBlockProcessed n else DeleteMissingRangeByBlock n) \<bind> (\<lambda>_. State_Monad.return True))) ?Q"
  proof (rule spec_bind [OF spec_process [OF inv]])
    fix r :: "process_error + unit"
    have "spec (?R False) (RequeueMissingBlock n \<bind> (\<lambda>q. State_Monad.return (\<not> isl q))) ?Q"
      by (rule spec_bind [OF req out])
    moreover have "spec (?R True) ((if hasCollector cfg then MarkBlockProcessed n else DeleteMissingRangeByBlock n) \<bind> (\<lambda>_. State_Monad.return True)) ?Q"
      by (rule spec_bind [OF _ out [of True]]) (use del in \<open>simp add: MarkBlockProcessed_def\<close>)
    ultimately show "spec (?R (r = Inr ())) (case_sum (\<lambda>_. RequeueMissingBlock n \<bind> (\<lambda>q. State_Monad.return (\<not> isl q)))
      (\<lambda>_. (if hasCollector cfg then MarkBlockProcessed n else DeleteMissingRangeByBlock n) \<bind> (\<lambda>_. State_Monad.return True)) r) ?Q"
      by (cases r) simp_all
  qed
  have "spec ?P (tryBlock cfg n) ?Q"
    unfolding tryBlock_def
  proof (rule spec_bind [OF spec_HasBlock], rule spec_pure)
    fix s :: "db_error + bool"
    assume "\<forall>b. s = Inr b \<longrightarrow> b = stored_number w n"
    then consider e where "s = Inl e" | "s = Inr True" "stored_number w n" | "s = Inr False"
      by (cases s) auto
    then show "spec ?P (case s of Inl _ \<Rightarrow> State_Monad.return False | Inr exist \<Rightarrow> if exist
        then (if hasCollector cfg then MarkBlockProcessed n else State_Monad.return (Inr ())) \<bind> (\<lambda>_. State_Monad.return True)
        else catchup_processBlockRaw cfg n \<bind> case_sum (\<lambda>_. RequeueMissingBlock n \<bind> (\<lambda>q. State_Monad.return (\<not> isl q)))
          (\<lambda>_. (if hasCollector cfg then MarkBlockProcessed n else DeleteMissingRangeByBlock n) \<bind> (\<lambda>_. State_Monad.return True))) ?Q"
      by cases (simp_all only: sum.case if_True if_False fail found fresh)
  qed
  from specD [OF this refl assms(1)] show ?thesis .
qed

lemma requeue_until_step:
  "numbered num w \<Longrightarrow> ctx_done w = (\<lambda>_. False) \<Longrightarrow>
   numbered num (requeue_until n w) \<and> range_kept n w (requeue_until n w) \<and> noted n (requeue_until n w)"
proof (induction n w rule: requeue_until.induct)
  case (1 n w)
  obtain r w1 where r: "run_state (RequeueMissingBlock n) w = (r, w1)"
    by fastforce
  note step = requeue_step [OF r "1.prems"(1)]
  show ?case
  proof (cases r)
    case (Inr u)
    then show ?thesis
      using step r by (simp add: requeue_until.simps [of n w])
  next
    case (Inl e)
    let ?w = "w1\<lparr>calls := calls w1 + 1\<rparr>"
    have ctx: "ctx_done w1 = (\<lambda>_. False)"
      using step "1.prems"(2) by (simp add: range_kept_def)
    then have unfold: "requeue_until n w = requeue_until n ?w"
      using r Inl by (simp add: requeue_until.simps [of n w])
    have "numbered num ?w" "ctx_done ?w = (\<lambda>_. False)" "range_kept n w ?w"
      using step ctx by (simp_all add: numbered_def range_kept_def)
    then show ?thesis
      using "1.IH" [OF r [symmetric] Inl, of False ?w] ctx range_kept_trans unfolding unfold by auto
  qed
qed

lemma try_attempts_step:
  assumes "run_state (try_attempts cfg n left) w = (u, w')" "numbered num w" "ctx_done w = (\<lambda>_. False)"
  shows "numbered num w' \<and> range_kept n w w' \<and> noted n w'"
  using assms
proof (induction left arbitrary: w)
  case 0
  then show ?case
    using requeue_until_step [of num w n] by simp
next
  case (Suc left)
  obtain ok w1 where ok: "run_state (tryBlock cfg n) w = (ok, w1)"
    by fastforce
  note step = tryBlock_step [OF ok Suc.prems(2)]
  show ?case
  proof (cases ok)
    case True
    then show ?thesis
      using Suc.prems(1) ok step by simp
  next
    case False
    let ?w = "w1\<lparr>calls := calls w1 + 1\<rparr>"
    have ctx: "ctx_done w1 = (\<lambda>_. False)"
      using step Suc.prems(3) by (simp add: range_kept_def)
    then have "run_state (try_attempts cfg n left) ?w = (u, w')" "numbered num ?w" "ctx_done ?w = (\<lambda>_. False)" "range_kept n w ?w"
      using Suc.prems(1) ok False step by (simp_all add: numbered_def range_kept_def)
    then show ?thesis
      using Suc.IH [of ?w] range_kept_trans by blast
  qed
qed

text \<open>What a worker settled stays settled while others go on.\<close>

lemma noted_kept: "noted m w \<Longrightarrow> range_kept n w w' \<Longrightarrow> noted n w' \<Longrightarrow> noted m w'"
  by (cases "m = n") (auto simp: noted_def range_kept_def stored_number_def has_range_def)

lemma index_queue_step:
  assumes "run_state (index_queue cfg ns) w = (u, w')" "numbered num w" "ctx_done w = (\<lambda>_. False)"
  shows "(\<forall>m. m \<in> set ns \<or> noted m w \<longrightarrow> noted m w') \<and>
    (\<forall>q \<in> set (missing_block_ranges w). {FromNumber q..ToNumber q} \<inter> set ns = {} \<longrightarrow> q \<in> set (missing_block_ranges w'))"
  using assms
proof (induction ns arbitrary: w)
  case (Cons n ns)
  obtain w1 where w1: "run_state (indexBlock cfg n) w = ((), w1)"
    by (cases "run_state (indexBlock cfg n) w") simp
  note step = try_attempts_step [OF w1 [unfolded indexBlock_def] Cons.prems(2,3)]
  have "run_state (index_queue cfg ns) w1 = (u, w')"
    using Cons.prems(1) w1 by simp
  note rest = Cons.IH [OF this]
  have "numbered num w1" "ctx_done w1 = (\<lambda>_. False)"
    using step Cons.prems(3) by (simp_all add: range_kept_def)
  note rest = rest [OF this]
  have "q \<in> set (missing_block_ranges w1)" if "q \<in> set (missing_block_ranges w)" "{FromNumber q..ToNumber q} \<inter> set (n # ns) = {}" for q
    using step that by (auto simp: range_kept_def)
  then show ?case
    using rest step noted_kept by auto
qed simp

lemma batch_answer:
  assumes "run_state (GetMissingRangesBatch k) w = (g, w')"
  shows "chain_view w' = chain_view w" "g = Inr rs \<Longrightarrow> \<exists>qs. set qs \<subseteq> set (missing_block_ranges w) \<and> rs = map (clip_from (history_from w)) qs"
proof -
  let ?rows = "\<lambda>w. map (clip_from (history_from w)) (take k (rev (sort_key FromNumber
         (filter (\<lambda>r. history_from w \<le> ToNumber r) (missing_block_ranges w)))))"
  have same: "?rows (w\<lparr>faults := fs\<rparr>) = ?rows w" for fs
    by (simp add: history_from_def)
  have "chain_view w' = chain_view w \<and> (\<forall>rs. g = Inr rs \<longrightarrow> rs = ?rows w)"
    by (rule run_query_cases [of ?rows w]) (use assms same in \<open>auto simp: GetMissingRangesBatch_def chain_view_def\<close>)
  moreover have "set (take k (rev (sort_key FromNumber (filter (\<lambda>r. history_from w \<le> ToNumber r) (missing_block_ranges w))))) \<subseteq> set (missing_block_ranges w)"
    by (auto dest: in_set_takeD)
  ultimately show "chain_view w' = chain_view w" "g = Inr rs \<Longrightarrow> \<exists>qs. set qs \<subseteq> set (missing_block_ranges w) \<and> rs = map (clip_from (history_from w)) qs"
    by blast+
qed

section \<open>Properties\<close>

text \<open>C36. A catch-up pass loses no recorded block, whatever the node answers and whatever calls fail: when the recorded
  ranges do not overlap, every recorded number (above what retention pruned) is afterwards recorded or stored.  In
  particular the loop that records a block again returns.\<close>

theorem catchup_pass_loses_nothing:
  assumes run: "run_state (catchup_pass cfg batch) w = (u, w')" and inv: "numbered num w" "ctx_done w = (\<lambda>_. False)"
    and apart: "\<forall>q \<in> set (missing_block_ranges w). \<forall>p \<in> set (missing_block_ranges w). q \<noteq> p \<longrightarrow>
      {FromNumber q..ToNumber q} \<inter> {FromNumber p..ToNumber p} = {}"
    and n: "n \<in> mcover w" "history_from w \<le> n"
  shows "n \<in> mcover w' \<or> stored_number w' n"
proof -
  obtain g w1 where g: "run_state (GetMissingRangesBatch (if batch = 0 then 100 else batch)) w = (g, w1)"
    by fastforce
  note answer = batch_answer [OF g]
  have inv1: "numbered num w1" "ctx_done w1 = (\<lambda>_. False)" "missing_block_ranges w1 = missing_block_ranges w"
    using inv answer(1) numbered_view [OF answer(1)] by (simp_all add: chain_view_def)
  obtain q where q: "q \<in> set (missing_block_ranges w)" "FromNumber q \<le> n" "n \<le> ToNumber q"
    using n(1) by (auto simp: mcover_iff)
  show ?thesis
  proof (cases g)
    case (Inl e)
    then show ?thesis
      using run g q inv1(3) by (auto simp: catchup_pass_def Let_def mcover_iff)
  next
    case (Inr rs)
    obtain qs where qs: "set qs \<subseteq> set (missing_block_ranges w)" "rs = map (clip_from (history_from w)) qs"
      using answer(2) [OF Inr] by blast
    have queue: "run_state (index_queue cfg (concat (map range_blocks rs))) w1 = (u, w')"
      using run g Inr by (simp add: catchup_pass_def Let_def)
    note all = index_queue_step [OF queue inv1(1,2)]
    have blocks: "set (concat (map range_blocks rs)) = (\<Union>p \<in> set qs. {max (FromNumber p) (history_from w)..ToNumber p})"
      by (auto simp: qs(2) range_blocks_def clip_from_def)
    show ?thesis
    proof (cases "q \<in> set qs")
      case True
      then have "noted n w'"
        using all q n(2) unfolding blocks by auto
      then show ?thesis
        by (auto simp: noted_def has_range_def mcover_iff)
    next
      case False
      have "{FromNumber q..ToNumber q} \<inter> {FromNumber p..ToNumber p} = {}" if "p \<in> set qs" for p
        using apart q(1) qs(1) that False by (metis subsetD)
      then have "{FromNumber q..ToNumber q} \<inter> set (concat (map range_blocks rs)) = {}"
        unfolding blocks by fastforce
      then have "q \<in> set (missing_block_ranges w')"
        using all q(1) inv1(3) by simp
      then show ?thesis
        using q by (auto simp: mcover_iff)
    qed
  qed
qed

lemma catchup_pass_loses_nothing_witness:
  "case run_state (catchup_pass \<lparr>hasCollector = True, cuBuilder = sample_builder\<rparr> 0) (gap_world\<lparr>faults := [Fine, Fine, Refused]\<rparr>) of
     (_, w) \<Rightarrow> 1 \<in> mcover w \<or> stored_number w 1"
proof -
  let ?w = "gap_world\<lparr>faults := [Fine, Fine, Refused]\<rparr>"
  have "\<exists>h. bHash b = Hash_Hex h \<and> byte_number h = bNumber b" if "b \<in> set (blocks ?w)" for b
    using that chain_raw_byte [of 2] by (auto simp: gap_world_def raw_block_row_def chain_raw_number)
  then have "numbered byte_number ?w"
    using chain_raw_byte chain_raw_number by (auto simp: numbered_def gap_world_def chain_world_def split: if_splits)
  moreover have "ctx_done ?w = (\<lambda>_. False)" "\<forall>q \<in> set (missing_block_ranges ?w). \<forall>p \<in> set (missing_block_ranges ?w). q \<noteq> p \<longrightarrow>
      {FromNumber q..ToNumber q} \<inter> {FromNumber p..ToNumber p} = {}" "1 \<in> mcover ?w" "history_from ?w \<le> 1"
    by (auto simp: gap_world_def chain_world_def empty_world_def mcover_iff history_from_def)
  ultimately have "1 \<in> mcover w' \<or> stored_number w' 1"
    if "run_state (catchup_pass \<lparr>hasCollector = True, cuBuilder = sample_builder\<rparr> 0) ?w = (u, w')" for u w'
    by (rule catchup_pass_loses_nothing [OF that])
  then show ?thesis
    by (rule case_prodI2)
qed


end
