(* ===== verification/Eth_Rlp.thy ===== *)
theory Eth_Rlp
  imports Eth_Common
begin

text \<open>
  \<open>pkg/eth/rlp\<close>: the RLP encoder the deposit hashes are built with, and its reference.

  \<open>rlp_value\<close> is what \<open>reflect\<close> shows the encoder of a Go value; \<open>encode\<close> and its helpers follow the
  source branch by branch, errors included.  The reference is the Ethereum yellow paper's RLP on
  items (\<open>rlp_item\<close>, \<open>rlp_ref\<close>) with a decoder (\<open>dec_item\<close>, \<open>dec_list\<close>).  The lemmas show that the encoder computes
  the reference encoding of the value's item (\<open>encode_refines\<close>) and that the reference decodes.
\<close>

section \<open>The encoder\<close>

datatype rlp_error =
    UnsupportedSlice | UnsupportedArray | UnsupportedType | ZeroValuePanic | RlpField string rlp_error

datatype rlp_value =
    RInterface "rlp_value option"
  | RBigInt "int option"
  | RPtr "rlp_value option"
  | RStruct "(string \<times> bool \<times> rlp_value) list"
  | RByteSlice bytes
  | ROtherSlice
  | RByteArray bytes
  | ROtherArray
  | RUint64 "64 word"
  | RBool bool
  | ROther

text \<open>\<open>putUintBE\<close>: the eight bytes of a \<open>uint64\<close>, from the first that is not zero.\<close>

fun first_nonzero :: "bytes \<Rightarrow> bytes" where
  "first_nonzero [] = []"
| "first_nonzero (b # bs) = (if b \<noteq> 0 then b # bs else first_nonzero bs)"

definition putUintBE :: "64 word \<Rightarrow> bytes" where
  "putUintBE v = first_nonzero
     [ucast (drop_bit 56 v), ucast (drop_bit 48 v), ucast (drop_bit 40 v), ucast (drop_bit 32 v),
      ucast (drop_bit 24 v), ucast (drop_bit 16 v), ucast (drop_bit 8 v), ucast v]"

definition encodeStringHeader :: "nat \<Rightarrow> bytes" where
  "encodeStringHeader n =
     (if n \<le> 55 then [word_of_nat (128 + n)]
      else let lenBytes = putUintBE (word_of_nat n)
           in word_of_nat (183 + length lenBytes) # lenBytes)"

definition encodeBytes :: "bytes \<Rightarrow> bytes" where
  "encodeBytes b =
     (if length b = 1 \<and> b ! 0 \<le> 127 then [b ! 0] else encodeStringHeader (length b) @ b)"

definition appendListHeader :: "bytes \<Rightarrow> bytes" where
  "appendListHeader payload =
     (let n = length payload in
      if n \<le> 55 then word_of_nat (192 + n) # payload
      else let lenBytes = putUintBE (word_of_nat n)
           in word_of_nat (247 + length lenBytes) # lenBytes @ payload)"

text \<open>\<open>big.Int.Bytes\<close>: the absolute value, big-endian, with no leading zero byte.\<close>

fun be_bytes :: "nat \<Rightarrow> bytes" where
  "be_bytes n = (if n = 0 then [] else be_bytes (n div 256) @ [word_of_nat n])"

declare be_bytes.simps [simp del]

definition big_Bytes :: "int \<Rightarrow> bytes" where
  "big_Bytes i = be_bytes (nat \<bar>i\<bar>)"

definition encodeBigInt :: "int \<Rightarrow> bytes" where
  "encodeBigInt i = (if i = 0 then [128] else encodeBytes (big_Bytes i))"

definition encodeUint64 :: "64 word \<Rightarrow> bytes" where
  "encodeUint64 v = (if v = 0 then [128] else encodeBytes (putUintBE v))"

definition encodeBool :: "bool \<Rightarrow> bytes" where
  "encodeBool b = (if b then [1] else [128])"

text \<open>
  \<open>encode\<close>, \<open>encodePtr\<close> and \<open>encodeStruct\<close> are mutually recursive through the value;
  \<open>encodeFields\<close> is the loop of \<open>encodeStruct\<close> with the payload it has so far, and skips the fields
  that are not exported.
\<close>

fun encode :: "rlp_value \<Rightarrow> rlp_error + bytes"
  and encodeFields :: "bytes \<Rightarrow> (string \<times> bool \<times> rlp_value) list \<Rightarrow> rlp_error + bytes" where
  "encode (RInterface None) = Inl ZeroValuePanic"
| "encode (RInterface (Some v)) = encode v"
| "encode (RBigInt None) = Inr [128]"
| "encode (RBigInt (Some i)) = Inr (encodeBigInt i)"
| "encode (RPtr None) = Inr [128]"
| "encode (RPtr (Some v)) = encode v"
| "encode (RStruct fs) =
     (case encodeFields [] fs of Inl e \<Rightarrow> Inl e | Inr payload \<Rightarrow> Inr (appendListHeader payload))"
| "encode (RByteSlice b) = Inr (encodeBytes b)"
| "encode ROtherSlice = Inl UnsupportedSlice"
| "encode (RByteArray b) = Inr (encodeBytes b)"
| "encode ROtherArray = Inl UnsupportedArray"
| "encode (RUint64 v) = Inr (encodeUint64 v)"
| "encode (RBool b) = Inr (encodeBool b)"
| "encode ROther = Inl UnsupportedType"
| "encodeFields payload [] = Inr payload"
| "encodeFields payload ((name, exported, v) # fs) =
     (if \<not> exported then encodeFields payload fs
      else case encode v of
             Inl e \<Rightarrow> Inl (RlpField name e)
           | Inr b \<Rightarrow> encodeFields (payload @ b) fs)"

definition EncodeToBytes :: "rlp_value \<Rightarrow> rlp_error + bytes" where
  "EncodeToBytes val = (case encode val of Inl e \<Rightarrow> Inl e | Inr b \<Rightarrow> Inr b)"

section \<open>Big-endian numbers\<close>

fun be_nat :: "bytes \<Rightarrow> nat" where
  "be_nat [] = 0"
| "be_nat (b # bs) = unat b * 256 ^ length bs + be_nat bs"

lemma be_nat_append: "be_nat (a @ b) = be_nat a * 256 ^ length b + be_nat b"
  by (induction a) (auto simp: algebra_simps power_add)

lemma be_nat_be_bytes [simp]: "be_nat (be_bytes n) = n"
proof (induction n rule: less_induct)
  case (less n)
  show ?case
  proof (cases "n = 0")
    case False
    then have "be_nat (be_bytes (n div 256)) = n div 256"
      by (intro less) simp
    then show ?thesis
      using False
      by (simp add: be_bytes.simps [of n] be_nat_append unat_of_nat take_bit_eq_mod)
  qed (simp add: be_bytes.simps)
qed

lemma be_nat_bound: "be_nat bs < 256 ^ length bs"
proof (induction bs)
  case (Cons b bs)
  have "unat b * 256 ^ length bs + be_nat bs < (unat b + 1) * 256 ^ length bs"
    using Cons by simp
  also have "\<dots> \<le> 256 * 256 ^ length bs"
    using unat_byte_bound [of b] by (intro mult_right_mono) (auto simp del: unat_byte_bound)
  finally show ?case by simp
qed simp

lemma first_nonzero_dropWhile: "first_nonzero bs = dropWhile (\<lambda>b. b = 0) bs"
  by (induction bs) auto

lemma be_nat_first_nonzero [simp]: "be_nat (first_nonzero bs) = be_nat bs"
  by (induction bs) auto

lemma be_bytes_snoc: "be_bytes (n * 256 + unat b) = (if n = 0 \<and> b = 0 then [] else be_bytes n @ [b])"
proof (cases "n * 256 + unat b = 0")
  case True
  then show ?thesis by (auto simp: be_bytes.simps unat_eq_zero)
next
  case False
  have "(n * 256 + unat b) div 256 = n"
    by simp
  moreover have "word_of_nat (n * 256 + unat b) = b"
  proof -
    have z: "(256 :: byte) = 0" by code_simp
    have "word_of_nat (n * 256 + unat b) = word_of_nat n * 256 + b" by simp
    also have "\<dots> = b" unfolding z by simp
    finally show ?thesis .
  qed
  ultimately show ?thesis
    using False by (auto simp: be_bytes.simps [of "n * 256 + unat b"] unat_eq_zero)
qed

text \<open>The bytes of a number without leading zeros are the number's minimal bytes.\<close>

lemma be_bytes_be_nat: "be_bytes (be_nat bs) = first_nonzero bs"
proof (induction bs rule: rev_induct)
  case (snoc b bs)
  have "be_nat bs = 0 \<longleftrightarrow> first_nonzero bs = []"
    by (metis be_bytes.simps be_nat_be_bytes be_nat.simps(1) snoc append_is_Nil_conv not_Cons_self2)
  then show ?case
    using snoc by (auto simp: be_nat_append be_bytes_snoc first_nonzero_dropWhile dropWhile_append)
qed (simp add: be_bytes.simps)

lemma unat_ucast_drop_bit: "unat (ucast (drop_bit k v) :: byte) = unat (v :: 64 word) div 2 ^ k mod 256"
  by (simp add: unsigned_ucast_eq take_bit_eq_mod unat_drop_bit_eq drop_bit_eq_div [of k "unat v"])

lemma horner_byte: "x div (256 * m) * 256 + x div m mod 256 = x div (m :: nat)"
  by (simp add: div_mult2_eq mult.commute [of 256])

lemma horner_byte_pow:
  "x div 2 ^ 56 * 256 + x div 2 ^ 48 mod 256 = x div (2 ^ 48 :: nat)"
  "x div 2 ^ 48 * 256 + x div 2 ^ 40 mod 256 = x div (2 ^ 40 :: nat)"
  "x div 2 ^ 40 * 256 + x div 2 ^ 32 mod 256 = x div (2 ^ 32 :: nat)"
  "x div 2 ^ 32 * 256 + x div 2 ^ 24 mod 256 = x div (2 ^ 24 :: nat)"
  "x div 2 ^ 24 * 256 + x div 2 ^ 16 mod 256 = x div (2 ^ 16 :: nat)"
  "x div 2 ^ 16 * 256 + x div 2 ^ 8 mod 256 = x div (2 ^ 8 :: nat)"
  "x div 2 ^ 8 * 256 + x div 1 mod 256 = x div (1 :: nat)"
  using horner_byte [of x "2 ^ 48"] horner_byte [of x "2 ^ 40"] horner_byte [of x "2 ^ 32"]
    horner_byte [of x "2 ^ 24"] horner_byte [of x "2 ^ 16"] horner_byte [of x "2 ^ 8"]
  by simp_all

text \<open>\<open>putUintBE\<close> computes the minimal big-endian bytes of its argument.\<close>

lemma putUintBE_be_bytes: "putUintBE v = be_bytes (unat v)"
proof -
  let ?bs = "[ucast (drop_bit 56 v), ucast (drop_bit 48 v), ucast (drop_bit 40 v), ucast (drop_bit 32 v),
      ucast (drop_bit 24 v), ucast (drop_bit 16 v), ucast (drop_bit 8 v), ucast v] :: bytes"
  let ?x = "unat v"
  have x: "?x < 2 ^ 64" using unsigned_less [of v] by simp
  have "be_nat ?bs = (((((((?x div 2 ^ 56 mod 256) * 256 + ?x div 2 ^ 48 mod 256) * 256
      + ?x div 2 ^ 40 mod 256) * 256 + ?x div 2 ^ 32 mod 256) * 256 + ?x div 2 ^ 24 mod 256) * 256
      + ?x div 2 ^ 16 mod 256) * 256 + ?x div 2 ^ 8 mod 256) * 256 + ?x div 1 mod 256"
    using unat_ucast_drop_bit [of 0 v]
    by (simp add: unat_ucast_drop_bit)
  also have "?x div 2 ^ 56 mod 256 = ?x div 2 ^ 56"
    using x by (intro mod_less less_mult_imp_div_less) simp
  finally have "be_nat ?bs = ?x div 1"
    by (simp only: horner_byte_pow)
  then show ?thesis
    unfolding putUintBE_def be_bytes_be_nat [symmetric] by simp
qed

section \<open>The reference: RLP on items\<close>

datatype rlp_item = Str bytes | Lst "rlp_item list"

definition len_prefix :: "nat \<Rightarrow> nat \<Rightarrow> bytes" where
  "len_prefix off n =
     (if n \<le> 55 then [word_of_nat (off + n)]
      else word_of_nat (off + 55 + length (be_bytes n)) # be_bytes n)"

fun rlp_ref :: "rlp_item \<Rightarrow> bytes" where
  "rlp_ref (Str b) = (if length b = 1 \<and> hd b < 128 then b else len_prefix 128 (length b) @ b)"
| "rlp_ref (Lst is) =
     (let p = concat (map rlp_ref is) in len_prefix 192 (length p) @ p)"

text \<open>The item a Go value stands for; \<open>None\<close> where the encoder refuses the value.\<close>

fun item_of :: "rlp_value \<Rightarrow> rlp_item option"
  and items_of :: "(string \<times> bool \<times> rlp_value) list \<Rightarrow> rlp_item list option" where
  "item_of (RInterface None) = None"
| "item_of (RInterface (Some v)) = item_of v"
| "item_of (RBigInt None) = Some (Str [])"
| "item_of (RBigInt (Some i)) = Some (Str (be_bytes (nat \<bar>i\<bar>)))"
| "item_of (RPtr None) = Some (Str [])"
| "item_of (RPtr (Some v)) = item_of v"
| "item_of (RStruct fs) = map_option Lst (items_of fs)"
| "item_of (RByteSlice b) = Some (Str b)"
| "item_of ROtherSlice = None"
| "item_of (RByteArray b) = Some (Str b)"
| "item_of ROtherArray = None"
| "item_of (RUint64 v) = Some (Str (be_bytes (unat v)))"
| "item_of (RBool b) = Some (Str (if b then [1] else []))"
| "item_of ROther = None"
| "items_of [] = Some []"
| "items_of ((name, exported, v) # fs) =
     (if \<not> exported then items_of fs
      else case item_of v of
             None \<Rightarrow> None
           | Some i \<Rightarrow> map_option (\<lambda>is. i # is) (items_of fs))"

lemma putUintBE_length: "n < 2 ^ 64 \<Longrightarrow> putUintBE (word_of_nat n) = be_bytes n"
  by (simp add: putUintBE_be_bytes unat_of_nat take_bit_eq_mod)

lemma encodeStringHeader_ref: "n < 2 ^ 64 \<Longrightarrow> encodeStringHeader n = len_prefix 128 n"
  by (simp add: encodeStringHeader_def len_prefix_def putUintBE_length Let_def del: of_nat_add)

lemma byte_le_127: "(b :: byte) \<le> 127 \<longleftrightarrow> b < 128"
  by (simp add: word_le_nat_alt word_less_nat_alt) arith

lemma encodeBytes_ref: "length b < 2 ^ 64 \<Longrightarrow> encodeBytes b = rlp_ref (Str b)"
  by (cases b) (auto simp: encodeBytes_def encodeStringHeader_ref byte_le_127)

lemma appendListHeader_ref:
  "length p < 2 ^ 64 \<Longrightarrow> appendListHeader p = len_prefix 192 (length p) @ p"
  by (simp add: appendListHeader_def len_prefix_def putUintBE_length Let_def del: of_nat_add)

lemma rlp_ref_empty: "rlp_ref (Str []) = [128]"
  by (simp add: len_prefix_def)

lemma length_rlp_ref_Str: "length b \<le> length (rlp_ref (Str b))"
  by auto

lemma be_bytes_eq_Nil: "be_bytes n = [] \<longleftrightarrow> n = 0"
  by (subst be_bytes.simps) auto

lemma encodeBigInt_ref:
  "length (rlp_ref (Str (be_bytes (nat \<bar>i\<bar>)))) < 2 ^ 64 \<Longrightarrow>
   encodeBigInt i = rlp_ref (Str (be_bytes (nat \<bar>i\<bar>)))"
  using length_rlp_ref_Str [of "be_bytes (nat \<bar>i\<bar>)"]
  by (auto simp: encodeBigInt_def big_Bytes_def rlp_ref_empty be_bytes.simps [of 0] encodeBytes_ref
      simp del: rlp_ref.simps)

lemma encodeUint64_ref:
  "length (rlp_ref (Str (be_bytes (unat v)))) < 2 ^ 64 \<Longrightarrow>
   encodeUint64 v = rlp_ref (Str (be_bytes (unat v)))"
  using length_rlp_ref_Str [of "be_bytes (unat v)"]
  by (auto simp: encodeUint64_def putUintBE_be_bytes rlp_ref_empty be_bytes.simps [of 0] encodeBytes_ref
      simp del: rlp_ref.simps)

lemma encodeBool_ref: "encodeBool b = rlp_ref (Str (if b then [1] else []))"
  by (simp add: encodeBool_def len_prefix_def)

lemma length_len_prefix: "1 \<le> length (len_prefix off n)"
  by (simp add: len_prefix_def)

lemma rlp_ref_not_Nil [simp]: "rlp_ref i \<noteq> []"
  using length_len_prefix by (cases i) (auto simp: Let_def len_prefix_def)

text \<open>The encoder fails exactly on the values that stand for no item.\<close>

lemma encode_error_iff:
  "(item_of v = None) = (\<exists>e. encode v = Inl e)"
  "(items_of fs = None) = (\<exists>e. encodeFields payload fs = Inl e)"
proof (induction v and payload fs rule: encode_encodeFields.induct)
  case (7 fs)
  then show ?case by (cases "encodeFields [] fs") auto
next
  case (16 payload name exported v fs)
  then show ?case by (cases "encode v"; cases "item_of v") auto
qed auto

text \<open>On every other value it computes the reference encoding of the value's item.\<close>

lemma encode_refines:
  "item_of v = Some it \<Longrightarrow> length (rlp_ref it) < 2 ^ 64 \<Longrightarrow> encode v = Inr (rlp_ref it)"
  "items_of fs = Some its \<Longrightarrow> length (concat (map rlp_ref its)) < 2 ^ 64 \<Longrightarrow>
   encodeFields payload fs = Inr (payload @ concat (map rlp_ref its))"
proof (induction v and payload fs arbitrary: it and its rule: encode_encodeFields.induct)
  case (4 i)
  then show ?case by (auto simp: encodeBigInt_ref simp del: rlp_ref.simps)
next
  case (7 fs)
  then obtain its where its: "items_of fs = Some its" "it = Lst its"
    by auto
  with 7 have "length (concat (map rlp_ref its)) < 2 ^ 64"
    by (simp add: Let_def)
  with 7 its show ?case
    by (simp add: appendListHeader_ref Let_def)
next
  case (8 b)
  then show ?case using length_rlp_ref_Str [of b] by (auto simp: encodeBytes_ref simp del: rlp_ref.simps)
next
  case (10 b)
  then show ?case using length_rlp_ref_Str [of b] by (auto simp: encodeBytes_ref simp del: rlp_ref.simps)
next
  case (12 v)
  then show ?case by (auto simp: encodeUint64_ref simp del: rlp_ref.simps)
next
  case (13 b)
  then show ?case by (auto simp: encodeBool_ref simp del: rlp_ref.simps)
next
  case (16 payload name exported v fs)
  show ?case
  proof (cases exported)
    case True
    then obtain i is' where i: "item_of v = Some i" "items_of fs = Some is'" "its = i # is'"
      using "16.prems" by (auto split: option.splits)
    have v: "encode v = Inr (rlp_ref i)"
      using True i "16.prems" "16.IH"(2) by simp
    have "encodeFields (payload @ rlp_ref i) fs = Inr ((payload @ rlp_ref i) @ concat (map rlp_ref is'))"
      using True i "16.prems" "16.IH"(3) [of "rlp_ref i"] v by simp
    then show ?thesis
      using True v i by simp
  next
    case False
    then show ?thesis
      using "16.prems" "16.IH"(1) by simp
  qed
qed (auto simp: rlp_ref_empty simp del: rlp_ref.simps)

section \<open>Decoding\<close>

text \<open>
  A decoder for the reference, with fuel: an item's own call and one per element of a list.
  \<open>fuel_item\<close> is enough (\<open>dec_rlp_ref\<close>).
\<close>

fun dec_item :: "nat \<Rightarrow> bytes \<Rightarrow> (rlp_item \<times> bytes) option"
  and dec_list :: "nat \<Rightarrow> bytes \<Rightarrow> rlp_item list option" where
  "dec_item 0 bs = None"
| "dec_item (Suc f) [] = None"
| "dec_item (Suc f) (b # bs) =
     (let k = unat b in
      if k < 128 then Some (Str [b], bs)
      else if k \<le> 183 then Some (Str (take (k - 128) bs), drop (k - 128) bs)
      else if k \<le> 191 then
        (let l = k - 183; n = be_nat (take l bs) in Some (Str (take n (drop l bs)), drop (l + n) bs))
      else if k \<le> 247 then
        map_option (\<lambda>is. (Lst is, drop (k - 192) bs)) (dec_list f (take (k - 192) bs))
      else
        (let l = k - 247; n = be_nat (take l bs)
         in map_option (\<lambda>is. (Lst is, drop (l + n) bs)) (dec_list f (take n (drop l bs)))))"
| "dec_list 0 bs = None"
| "dec_list (Suc f) bs =
     (if bs = [] then Some []
      else case dec_item f bs of
             None \<Rightarrow> None
           | Some (i, rest) \<Rightarrow> map_option (\<lambda>is. i # is) (dec_list f rest))"

fun fuel_item :: "rlp_item \<Rightarrow> nat" where
  "fuel_item (Str b) = 1"
| "fuel_item (Lst is) = 2 + sum_list (map (\<lambda>i. 1 + fuel_item i) is)"

lemma length_be_bytes_bound: "n < 256 ^ k \<Longrightarrow> length (be_bytes n) \<le> k"
proof (induction k arbitrary: n)
  case (Suc k)
  then have "n div 256 < 256 ^ k"
    by (simp add: less_mult_imp_div_less mult.commute)
  then have "length (be_bytes (n div 256)) \<le> k"
    by (rule Suc.IH)
  then show ?case
    by (subst be_bytes.simps) simp
qed (simp add: be_bytes.simps)

lemma length_be_bytes_u64: "n < 2 ^ 64 \<Longrightarrow> length (be_bytes n) \<le> 8"
  by (rule length_be_bytes_bound) simp

lemma unat_byte_of_nat: "n < 256 \<Longrightarrow> unat (word_of_nat n :: byte) = n"
  by (simp add: unat_of_nat take_bit_eq_mod)

lemma length_be_bytes_pos: "0 < n \<Longrightarrow> 1 \<le> length (be_bytes n)"
  by (subst be_bytes.simps) simp

lemma dec_item_Str:
  assumes "length b < 2 ^ 64"
  shows "dec_item (Suc f) (rlp_ref (Str b) @ rest) = Some (Str b, rest)"
proof (cases "length b = 1 \<and> hd b < 128")
  case True
  then obtain c where "b = [c]" "c < 128"
    by (cases b) auto
  then show ?thesis
    by (simp add: word_less_nat_alt)
next
  case ref: False
  show ?thesis
  proof (cases "length b \<le> 55")
    case True
    then have "unat (word_of_nat (128 + length b) :: byte) = 128 + length b"
      by (intro unat_byte_of_nat) simp
    then show ?thesis
      using ref True by (auto simp: len_prefix_def Let_def simp del: of_nat_add)
  next
    case False
    let ?l = "length (be_bytes (length b))"
    have l: "1 \<le> ?l" "?l \<le> 8"
      using False assms by (auto intro!: length_be_bytes_u64 length_be_bytes_pos [simplified])
    then have "unat (word_of_nat (183 + ?l) :: byte) = 183 + ?l"
      by (intro unat_byte_of_nat) simp
    then show ?thesis
      using ref False l by (auto simp: len_prefix_def Let_def simp del: of_nat_add)
  qed
qed

lemma dec_item_Lst:
  assumes p: "p = concat (map rlp_ref is)" and "length p < 2 ^ 64" and "dec_list f p = Some is"
  shows "dec_item (Suc f) (rlp_ref (Lst is) @ rest) = Some (Lst is, rest)"
proof (cases "length p \<le> 55")
  case True
  then have "unat (word_of_nat (192 + length p) :: byte) = 192 + length p"
    by (intro unat_byte_of_nat) simp
  then show ?thesis
    using assms(3) True by (simp add: len_prefix_def Let_def p [symmetric] del: of_nat_add)
next
  case False
  let ?l = "length (be_bytes (length p))"
  have l: "1 \<le> ?l" "?l \<le> 8"
    using False assms(2) by (auto intro!: length_be_bytes_u64 length_be_bytes_pos [simplified])
  then have "unat (word_of_nat (247 + ?l) :: byte) = 247 + ?l"
    by (intro unat_byte_of_nat) simp
  then show ?thesis
    using assms(3) False l by (auto simp add: len_prefix_def Let_def p [symmetric] simp del: of_nat_add)
qed

text \<open>The reference decodes to its item, whatever follows it.\<close>

lemma dec_rlp_ref:
  "length (rlp_ref i) < 2 ^ 64 \<Longrightarrow> fuel_item i \<le> f \<Longrightarrow> dec_item f (rlp_ref i @ rest) = Some (i, rest)"
proof (induction i arbitrary: f rest)
  case (Str b)
  then obtain f' where "f = Suc f'"
    by (cases f) auto
  then show ?case
    using Str length_rlp_ref_Str [of b] by (simp add: dec_item_Str del: rlp_ref.simps)
next
  case (Lst its)
  then obtain f' where f: "f = Suc f'" "1 + sum_list (map (\<lambda>i. 1 + fuel_item i) its) \<le> f'"
    by (cases f) auto
  have len: "length (concat (map rlp_ref its)) < 2 ^ 64"
    using Lst.prems by (simp add: Let_def)
  have "dec_list g (concat (map rlp_ref js)) = Some js"
    if "set js \<subseteq> set its" "length (concat (map rlp_ref js)) < 2 ^ 64"
      "1 + sum_list (map (\<lambda>i. 1 + fuel_item i) js) \<le> g" for js g
    using that
  proof (induction js arbitrary: g)
    case Nil
    then show ?case by (cases g) auto
  next
    case (Cons j js)
    then obtain g' where g: "g = Suc g'" "fuel_item j \<le> g'" "1 + sum_list (map (\<lambda>i. 1 + fuel_item i) js) \<le> g'"
      by (cases g) auto
    then show ?case
      using Cons Lst.IH [of j g' "concat (map rlp_ref js)"] by auto
  qed
  then have "dec_list f' (concat (map rlp_ref its)) = Some its"
    using len f by simp
  then show ?case
    unfolding f(1) by (intro dec_item_Lst [OF refl len])
qed

lemma rlp_ref_inj:
  assumes "rlp_ref i = rlp_ref j" and "length (rlp_ref i) < 2 ^ 64"
  shows "i = j"
  using dec_rlp_ref [of i "fuel_item i + fuel_item j" "[]"] dec_rlp_ref [of j "fuel_item i + fuel_item j" "[]"]
    assms by simp

text \<open>C5. The encoder implements RLP: it fails exactly on the values that stand for no item, and encodes
  every other value as the reference encoding of its item, for every encoding of fewer than $2^{64}$
  bytes.\<close>

theorem EncodeToBytes_implements_rlp:
  assumes "\<And>it. item_of v = Some it \<Longrightarrow> length (rlp_ref it) < 2 ^ 64"
  shows "case item_of v of None \<Rightarrow> \<exists>e. EncodeToBytes v = Inl e | Some it \<Rightarrow> EncodeToBytes v = Inr (rlp_ref it)"
proof (cases "item_of v")
  case None
  then show ?thesis
    using encode_error_iff(1) [of v] by (auto simp: EncodeToBytes_def)
next
  case (Some it)
  then show ?thesis
    using encode_refines(1) [OF Some assms [OF Some]] by (simp add: EncodeToBytes_def)
qed

definition sample_deposit :: rlp_value where
  "sample_deposit = RStruct [(''To'', True, RPtr None), (''Mint'', True, RBigInt (Some 1000)), (''gas'', False, ROther)]"

lemma EncodeToBytes_implements_rlp_witness: "EncodeToBytes sample_deposit = Inr [196, 128, 130, 3, 232]"
proof -
  have "item_of sample_deposit = Some (Lst [Str [], Str [3, 232]])" "rlp_ref (Lst [Str [], Str [3, 232]]) = [196, 128, 130, 3, 232]"
    by code_simp+
  then show ?thesis
    using EncodeToBytes_implements_rlp [of sample_deposit] by (auto simp del: rlp_ref.simps)
qed

text \<open>C6. The encoding is unambiguous: two values with the same encoding stand for the same item.\<close>

theorem EncodeToBytes_unambiguous:
  assumes "EncodeToBytes u = Inr b" and "EncodeToBytes v = Inr b"
    and "\<And>it. item_of u = Some it \<or> item_of v = Some it \<Longrightarrow> length (rlp_ref it) < 2 ^ 64"
  shows "item_of u = item_of v"
proof -
  obtain i j where ij: "item_of u = Some i" "item_of v = Some j"
    using assms(1,2) encode_error_iff(1) [of u] encode_error_iff(1) [of v]
    by (cases "item_of u"; cases "item_of v") (auto simp: EncodeToBytes_def split: sum.splits)
  have "encode u = Inr b" "encode v = Inr b"
    using assms(1,2) by (auto simp: EncodeToBytes_def split: sum.splits)
  then have "rlp_ref i = rlp_ref j"
    using encode_refines(1) [OF ij(1)] encode_refines(1) [OF ij(2)] assms(3) ij by simp
  then show ?thesis
    using rlp_ref_inj [of i j] assms(3) ij by simp
qed

lemma EncodeToBytes_unambiguous_witness:
  "item_of (RByteSlice [3, 232]) = item_of (RUint64 1000)"
proof (rule EncodeToBytes_unambiguous [where b = "[130, 3, 232]"])
  show "EncodeToBytes (RByteSlice [3, 232]) = Inr [130, 3, 232]" "EncodeToBytes (RUint64 1000) = Inr [130, 3, 232]"
    by code_simp+
  have *: "item_of (RByteSlice [3, 232]) = Some (Str [3, 232])" "item_of (RUint64 1000) = Some (Str [3, 232])"
    "length (rlp_ref (Str [3, 232])) = 3"
    by code_simp+
  show "length (rlp_ref it) < 2 ^ 64"
    if "item_of (RByteSlice [3, 232]) = Some it \<or> item_of (RUint64 1000) = Some it" for it
    using that * by (auto simp del: item_of.simps rlp_ref.simps)
qed

end
