(* ===== verification/Op_Deposits.thy ===== *)
theory Op_Deposits
  imports Eth_Rlp Head_Reorg
begin

text \<open>
  \<open>internal/opdeposits\<close> and \<open>internal/db/op_deposits.go\<close>: the fetcher that reads the deposits of an OP-stack chain
  from the logs of its L1 portal, computes the hash each has on L2, and stores them.

  The L1 client is a parameter (\<open>l1_client\<close>): its answers are indexed by the number of calls so far, as those of
  the node.  \<open>TransactionDeposited\<close> is the event's topic, a constant of the portal's interface.  A slice
  expression out of range panics (\<open>OutOfRange\<close>).  \<open>poll_loop\<close> may run for ever (a batch size of 0), so it is a
  partial function; \<open>poll_returns\<close> is its termination.
\<close>

section \<open>The hash of a deposit\<close>

definition depositTxType :: byte where "depositTxType = 0x7E"

definition BigEndian_PutUint64 :: "u64 \<Rightarrow> bytes" where
  "BigEndian_PutUint64 v = map (\<lambda>i. word_of_nat (v div 256 ^ i)) [7, 6, 5, 4, 3, 2, 1, 0]"

definition ComputeSourceHash :: "(bytes \<Rightarrow> bytes) \<Rightarrow> bytes \<Rightarrow> u64 \<Rightarrow> bytes" where
  "ComputeSourceHash keccak l1BlockHash logIndex =
     (let logIndexBytes = replicate 24 0 @ BigEndian_PutUint64 logIndex;
          innerHash = keccak (l1BlockHash @ logIndexBytes);
          domain = replicate 32 0
      in keccak (domain @ innerHash))"

record depositTxFields =
  SourceHash :: bytes
  From :: bytes
  To :: "bytes option"
  Mint :: "int option"
  Value :: "int option"
  Gas :: u64
  IsSystemTx :: bool
  Data :: bytes

text \<open>What \<open>reflect\<close> shows the encoder of the struct.\<close>

definition deposit_value :: "depositTxFields \<Rightarrow> rlp_value" where
  "deposit_value f = RStruct
     [(''SourceHash'', True, RByteArray (SourceHash f)), (''From'', True, RByteArray (From f)),
      (''To'', True, RPtr (map_option RByteArray (To f))), (''Mint'', True, RBigInt (Mint f)), (''Value'', True, RBigInt (Value f)),
      (''Gas'', True, RUint64 (word_of_nat (Gas f))), (''IsSystemTx'', True, RBool (IsSystemTx f)), (''Data'', True, RByteSlice (Data f))]"

definition ComputeL2DepositTxHash :: "(bytes \<Rightarrow> bytes) \<Rightarrow> depositTxFields \<Rightarrow> rlp_error + bytes" where
  "ComputeL2DepositTxHash keccak args =
     (let mint = (case Mint args of None \<Rightarrow> 0 | Some m \<Rightarrow> m);
          val = (case Value args of None \<Rightarrow> 0 | Some v \<Rightarrow> v);
          fields = args\<lparr>Mint := Some mint, Value := Some val\<rparr>
      in case EncodeToBytes (deposit_value fields) of
           Inl e \<Rightarrow> Inl e
         | Inr encoded \<Rightarrow> Inr (keccak (depositTxType # encoded)))"

section \<open>The data of a deposit\<close>

record opaque_fields =
  opMint :: "int option"
  opValue :: "int option"
  opGasLimit :: u64
  opIsCreation :: bool
  opData :: bytes

definition slice :: "nat \<Rightarrow> nat \<Rightarrow> 'a list \<Rightarrow> 'a list" where
  "slice i j xs = take (j - i) (drop i xs)"

definition ParseOpaqueData :: "bytes \<Rightarrow> opaque_fields" where
  "ParseOpaqueData opaqueData =
     (if length opaqueData < 73
      then \<lparr>opMint = None, opValue = None, opGasLimit = 0, opIsCreation = False, opData = []\<rparr>
      else \<lparr>opMint = Some (int (be_nat (slice 0 32 opaqueData))), opValue = Some (int (be_nat (slice 32 64 opaqueData))),
            opGasLimit = be_nat (slice 64 72 opaqueData), opIsCreation = (opaqueData ! 72 = 1),
            opData = (if 73 < length opaqueData then drop 73 opaqueData else [])\<rparr>)"

section \<open>The logs of the portal\<close>

record l1_log =
  llAddress :: bytes
  llTopics :: "bytes list"
  llData :: bytes
  llBlockNumber :: u64
  llTxHash :: bytes
  llBlockHash :: bytes
  llIndex :: u64

record filter_query =
  fqFromBlock :: u64
  fqToBlock :: u64
  fqAddresses :: "bytes list"
  fqTopics :: "bytes list list"

record l1_client =
  l1BlockNumber :: "nat \<Rightarrow> rpc_error + u64"
  l1FilterLogs :: "nat \<Rightarrow> filter_query \<Rightarrow> rpc_error + l1_log list"
  l1HeaderTime :: "nat \<Rightarrow> u64 \<Rightarrow> rpc_error + u64"

record fetcher_config =
  OptimismPortalAddress :: bytes
  BatchSize :: int
  StartBlock :: u64
  ConfirmationBlocks :: u64

definition transactionDepositedTopic :: "(bytes \<Rightarrow> bytes) \<Rightarrow> bytes" where
  "transactionDepositedTopic keccak = keccak (bytes_of_string ''TransactionDeposited(address,address,uint256,bytes)'')"

datatype slice_result = TooShort | OutOfRange | Opaque bytes

definition opaque_slice :: "bytes \<Rightarrow> slice_result" where
  "opaque_slice data =
     (if length data < 64 then TooShort
      else let offset = be_nat (slice 0 32 data) mod 2 ^ 64 in
        if length data < u64_add offset 32 then TooShort
        else if u64_add offset 32 < offset then OutOfRange
        else let len = be_nat (slice offset (u64_add offset 32) data) mod 2 ^ 64;
                 stop = u64_add (u64_add offset 32) len
             in if length data < stop then TooShort
                else if stop < u64_add offset 32 then OutOfRange
                else Opaque (slice (u64_add offset 32) stop data))"

datatype log_result = Ignored | Panicked | Deposited op_deposit

text \<open>One turn of the loop of \<open>fetchDepositEvents\<close>, up to the read of the L1 header.\<close>

definition deposit_of_log :: "(bytes \<Rightarrow> bytes) \<Rightarrow> l1_log \<Rightarrow> log_result" where
  "deposit_of_log keccak l =
     (if length (llTopics l) < 4 then Ignored
      else let fromAddr = BytesToAddress (llTopics l ! 1); toAddr = BytesToAddress (llTopics l ! 2) in
        case opaque_slice (llData l) of
          TooShort \<Rightarrow> Ignored
        | OutOfRange \<Rightarrow> Panicked
        | Opaque opaqueData \<Rightarrow>
            (let p = ParseOpaqueData opaqueData;
                 depositTo = (if \<not> opIsCreation p then Some toAddr else None);
                 sourceHash = ComputeSourceHash keccak (llBlockHash l) (llIndex l)
             in case ComputeL2DepositTxHash keccak \<lparr>SourceHash = sourceHash, From = fromAddr, To = depositTo, Mint = opMint p,
                       Value = opValue p, Gas = opGasLimit p, IsSystemTx = False, Data = opData p\<rparr> of
                  Inl _ \<Rightarrow> Ignored
                | Inr l2TxHash \<Rightarrow> Deposited \<lparr>odL2TxHash = Hash_Hex l2TxHash, odL1BlockNumber = llBlockNumber l, odL1BlockTimestamp = None,
                    odL1TxHash = Hash_Hex (llTxHash l), odL1TxOrigin = Address_Hex keccak fromAddr\<rparr>))"

definition l1_call :: "(nat \<Rightarrow> 'a) \<Rightarrow> (world, 'a) state" where
  "l1_call f = State (\<lambda>w. (f (calls w), w\<lparr>calls := calls w + 1\<rparr>))"

fun deposits_of_logs :: "l1_client \<Rightarrow> (bytes \<Rightarrow> bytes) \<Rightarrow> l1_log list \<Rightarrow> op_deposit list \<Rightarrow> (world, op_deposit list option) state" where
  "deposits_of_logs c keccak [] deposits = State_Monad.return (Some deposits)"
| "deposits_of_logs c keccak (l # ls) deposits =
     (case deposit_of_log keccak l of
        Ignored \<Rightarrow> deposits_of_logs c keccak ls deposits
      | Panicked \<Rightarrow> do { State_Monad.update (\<lambda>w. w\<lparr>crashed := True\<rparr>); State_Monad.return None }
      | Deposited d \<Rightarrow> do {
          r \<leftarrow> l1_call (\<lambda>k. l1HeaderTime c k (llBlockNumber l));
          let ts = (case r of Inl _ \<Rightarrow> None | Inr t \<Rightarrow> Some t);
          deposits_of_logs c keccak ls (deposits @ [d\<lparr>odL1BlockTimestamp := ts\<rparr>])
        })"

datatype poll_error = L1Error rpc_error | DepositDb db_error | PollPanic

definition fetchDepositEvents :: "l1_client \<Rightarrow> fetcher_config \<Rightarrow> u64 \<Rightarrow> u64 \<Rightarrow> (world, poll_error + op_deposit list) state" where
  "fetchDepositEvents c cfg fromBlock toBlock = do {
     w \<leftarrow> State_Monad.get;
     let keccak = keccak256 w;
     let q = \<lparr>fqFromBlock = fromBlock, fqToBlock = toBlock, fqAddresses = [OptimismPortalAddress cfg],
              fqTopics = [[transactionDepositedTopic keccak]]\<rparr>;
     r \<leftarrow> l1_call (\<lambda>k. l1FilterLogs c k q);
     case r of
       Inl e \<Rightarrow> State_Monad.return (Inl (L1Error e))
     | Inr ls \<Rightarrow> do {
         ds \<leftarrow> deposits_of_logs c keccak ls [];
         State_Monad.return (case ds of None \<Rightarrow> Inl PollPanic | Some deposits \<Rightarrow> Inr deposits)
       }
   }"

section \<open>The stored deposits\<close>

text \<open>\<open>ON CONFLICT (l2_tx_hash) DO NOTHING\<close>; a number beyond \<open>BIGINT\<close> is refused by the driver.\<close>

fun insert_deposits :: "op_deposit list \<Rightarrow> op_deposit list \<Rightarrow> op_deposit list" where
  "insert_deposits [] rows = rows"
| "insert_deposits (d # ds) rows =
     insert_deposits ds (if \<exists>r \<in> set rows. odL2TxHash r = odL2TxHash d then rows else rows @ [d])"

definition bigint_fits :: "op_deposit \<Rightarrow> bool" where
  "bigint_fits d \<longleftrightarrow> odL1BlockNumber d < 2 ^ 63 \<and> (case odL1BlockTimestamp d of None \<Rightarrow> True | Some t \<Rightarrow> t < 2 ^ 63)"

definition InsertOPDepositsBatch :: "op_deposit list \<Rightarrow> unit dbm" where
  "InsertOPDepositsBatch deposits =
     (if length deposits = 0 then State_Monad.return (Inr ())
      else tx_of (\<lambda>w. if list_all bigint_fits deposits then Inr (w\<lparr>op_deposits := insert_deposits deposits (op_deposits w)\<rparr>)
                      else Inl (InvalidValue ''int8'')))"

definition GetOPDeposit :: "string \<Rightarrow> op_deposit option dbm" where
  "GetOPDeposit l2TxHash = run_query (\<lambda>w. find (\<lambda>d. odL2TxHash d = l2TxHash) (op_deposits w))"

definition last_l1_block :: "world \<Rightarrow> u64" where
  "last_l1_block w = (if op_deposits w = [] then 0 else Max (set (map odL1BlockNumber (op_deposits w))))"

definition GetLastIndexedL1Block :: "u64 dbm" where
  "GetLastIndexedL1Block = run_query last_l1_block"

section \<open>Polling\<close>

definition getStartBlock :: "l1_client \<Rightarrow> fetcher_config \<Rightarrow> (world, poll_error + u64) state" where
  "getStartBlock c cfg = do {
     r \<leftarrow> GetLastIndexedL1Block;
     case r of
       Inl e \<Rightarrow> State_Monad.return (Inl (DepositDb e))
     | Inr lastIndexed \<Rightarrow>
         if 0 < lastIndexed then State_Monad.return (Inr (u64_add lastIndexed 1))
         else if 0 < StartBlock cfg then State_Monad.return (Inr (StartBlock cfg))
         else do {
           h \<leftarrow> l1_call (l1BlockNumber c);
           State_Monad.return (case h of
               Inl e \<Rightarrow> Inl (L1Error e)
             | Inr l1Head \<Rightarrow> if ConfirmationBlocks cfg < l1Head then Inr (u64_sub l1Head (ConfirmationBlocks cfg)) else Inr 0)
         }
   }"

definition batch_size :: "fetcher_config \<Rightarrow> u64" where
  "batch_size cfg = nat (BatchSize cfg mod 2 ^ 64)"

definition poll_batch :: "l1_client \<Rightarrow> fetcher_config \<Rightarrow> u64 \<Rightarrow> u64 \<Rightarrow> (world, poll_error + unit) state" where
  "poll_batch c cfg batchStart batchEnd = do {
     r \<leftarrow> fetchDepositEvents c cfg batchStart batchEnd;
     case r of
       Inl e \<Rightarrow> State_Monad.return (Inl e)
     | Inr deposits \<Rightarrow>
         if 0 < length deposits then do {
           i \<leftarrow> InsertOPDepositsBatch deposits;
           State_Monad.return (map_sum DepositDb id i)
         }
         else State_Monad.return (Inr ())
   }"

partial_function (option) poll_loop :: "l1_client \<Rightarrow> fetcher_config \<Rightarrow> u64 \<Rightarrow> u64 \<Rightarrow> world \<Rightarrow> ((poll_error + unit) \<times> world) option" where
  "poll_loop c cfg safeHead batchStart w =
     (if safeHead < batchStart then Some (Inr (), w)
      else let stop = u64_sub (u64_add batchStart (batch_size cfg)) 1;
               batchEnd = (if safeHead < stop then safeHead else stop)
           in case run_state (poll_batch c cfg batchStart batchEnd) w of
                (Inl e, w') \<Rightarrow> Some (Inl e, w')
              | (Inr _, w') \<Rightarrow> poll_loop c cfg safeHead (u64_add batchStart (batch_size cfg)) w')"

definition poll :: "l1_client \<Rightarrow> fetcher_config \<Rightarrow> world \<Rightarrow> ((poll_error + unit) \<times> world) option" where
  "poll c cfg w =
     (case run_state (getStartBlock c cfg) w of
        (Inl e, w1) \<Rightarrow> Some (Inl e, w1)
      | (Inr fromBlock, w1) \<Rightarrow>
          (case run_state (l1_call (l1BlockNumber c)) w1 of
             (Inl e, w2) \<Rightarrow> Some (Inl (L1Error e), w2)
           | (Inr l1Head, w2) \<Rightarrow>
               if ConfirmationBlocks cfg < l1Head
               then let safeHead = u64_sub l1Head (ConfirmationBlocks cfg) in
                    if safeHead < fromBlock then Some (Inr (), w2) else poll_loop c cfg safeHead fromBlock w2
               else Some (Inr (), w2)))"

section \<open>Lemmas\<close>

lemma run_state_l1_call [simp]: "run_state (l1_call f) w = (f (calls w), w\<lparr>calls := calls w + 1\<rparr>)"
  by (simp add: l1_call_def)

lemma be_nat_map_div: "be_nat (map (\<lambda>i. word_of_nat (v div 256 ^ i)) (rev [0..<n])) = v mod 256 ^ n"
proof (induction n)
  case (Suc n)
  have "v mod 256 ^ Suc n = v div 256 ^ n mod 256 * 256 ^ n + v mod 256 ^ n"
    unfolding power_Suc2 mod_mult2_eq [of v "256 ^ n" 256] by simp
  then show ?case
    using Suc by (simp add: unat_of_nat take_bit_eq_mod)
qed simp

text \<open>The bytes the portal packs: two 256-bit words, the gas limit, the creation flag and the data.\<close>

definition be_fixed :: "nat \<Rightarrow> nat \<Rightarrow> bytes" where
  "be_fixed n v = map (\<lambda>i. word_of_nat (v div 256 ^ i)) (rev [0..<n])"

lemma be_fixed_simps [simp]: "length (be_fixed n v) = n" "be_nat (be_fixed n v) = v mod 256 ^ n"
  unfolding be_fixed_def be_nat_map_div by simp_all

lemma BigEndian_PutUint64_fixed: "BigEndian_PutUint64 v = be_fixed 8 v"
  by (simp add: BigEndian_PutUint64_def be_fixed_def upt_rec)

definition pack_opaque :: "nat \<Rightarrow> nat \<Rightarrow> nat \<Rightarrow> bool \<Rightarrow> bytes \<Rightarrow> bytes" where
  "pack_opaque mint val gas creation data =
     be_fixed 32 mint @ be_fixed 32 val @ be_fixed 8 gas @ [if creation then 1 else 0] @ data"

text \<open>The list an OP-stack node hashes for a deposit.\<close>

definition deposit_items :: "depositTxFields \<Rightarrow> rlp_item list" where
  "deposit_items f =
     [Str (SourceHash f), Str (From f), Str (case To f of None \<Rightarrow> [] | Some a \<Rightarrow> a),
      Str (be_bytes (nat \<bar>case Mint f of None \<Rightarrow> 0 | Some m \<Rightarrow> m\<bar>)), Str (be_bytes (nat \<bar>case Value f of None \<Rightarrow> 0 | Some v \<Rightarrow> v\<bar>)),
      Str (be_bytes (Gas f mod 2 ^ 64)), Str (if IsSystemTx f then [1] else []), Str (Data f)]"

definition deposit_ok :: "depositTxFields \<Rightarrow> bool" where
  "deposit_ok f \<longleftrightarrow> is_Hash (SourceHash f) \<and> is_Address (From f) \<and> (\<forall>a. To f = Some a \<longrightarrow> is_Address a) \<and>
     (\<exists>m < 2 ^ 256. Mint f = Some (int m)) \<and> (\<exists>v < 2 ^ 256. Value f = Some (int v)) \<and> Gas f < 2 ^ 64 \<and> length (Data f) < 2 ^ 32"

lemma length_len_prefix_le: "n < 2 ^ 64 \<Longrightarrow> length (len_prefix off n) \<le> 9"
  using length_be_bytes_u64 [of n] by (simp add: len_prefix_def Let_def)

lemma length_rlp_Str: "length b < 2 ^ 64 \<Longrightarrow> length (rlp_ref (Str b)) \<le> length b + 9"
  using length_len_prefix_le [of "length b" 128] by auto

lemma deposit_item:
  "item_of (deposit_value (f\<lparr>Mint := Some (case Mint f of None \<Rightarrow> 0 | Some m \<Rightarrow> m), Value := Some (case Value f of None \<Rightarrow> 0 | Some v \<Rightarrow> v)\<rparr>))
     = Some (Lst (deposit_items f))"
  by (cases "To f") (simp_all add: deposit_value_def deposit_items_def unat_of_nat take_bit_eq_mod)

lemma deposit_strings:
  assumes "deposit_ok f" "i \<in> set (deposit_items f)"
  shows "length (rlp_ref i) < 2 ^ 33"
proof -
  obtain m v where mv: "Mint f = Some (int m)" "Value f = Some (int v)" "m < 256 ^ 32" "v < 256 ^ 32"
    using assms(1) by (auto simp: deposit_ok_def)
  have "length (be_bytes m) \<le> 32" "length (be_bytes v) \<le> 32" "length (be_bytes (Gas f mod 2 ^ 64)) \<le> 8"
    by (rule length_be_bytes_bound, fact) (rule length_be_bytes_bound, fact, simp add: length_be_bytes_u64)
  then obtain b where "i = Str b" "length b < 2 ^ 32"
    using assms mv(1,2) unfolding deposit_items_def deposit_ok_def is_Hash_def is_Address_def HashLength_def AddressLength_def
    by (auto split: option.splits)
  then show ?thesis
    using length_rlp_Str [of b] by simp
qed

lemma deposit_size:
  assumes "deposit_ok f"
  shows "length (rlp_ref (Lst (deposit_items f))) < 2 ^ 64"
proof -
  have "length (concat (map rlp_ref is)) \<le> length is * 2 ^ 33" if "\<forall>i \<in> set is. length (rlp_ref i) < 2 ^ 33" for "is"
    using that by (induction "is") auto
  from this [of "deposit_items f"] have "length (concat (map rlp_ref (deposit_items f))) \<le> length (deposit_items f) * 2 ^ 33"
    using deposit_strings [OF assms] by blast
  moreover have "length (deposit_items f) = 8"
    by (simp add: deposit_items_def)
  ultimately have n: "length (concat (map rlp_ref (deposit_items f))) \<le> 8 * 2 ^ 33"
    by (simp only:)
  have "length (concat (map rlp_ref (deposit_items f))) < 2 ^ 64"
    by (rule le_less_trans [OF n]) simp
  then have "length (len_prefix 192 (length (concat (map rlp_ref (deposit_items f))))) \<le> 9"
    by (rule length_len_prefix_le)
  moreover have "x + y < 2 ^ 64" if "y \<le> 8 * 2 ^ 33" "x \<le> 9" for x y :: nat
    using that by simp
  ultimately have "length (len_prefix 192 (length (concat (map rlp_ref (deposit_items f))))) + length (concat (map rlp_ref (deposit_items f))) < 2 ^ 64"
    using n by blast
  then show ?thesis
    by (simp only: rlp_ref.simps Let_def length_append)
qed

lemma deposit_hash_ref:
  assumes "deposit_ok f"
  shows "ComputeL2DepositTxHash keccak f = Inr (keccak (depositTxType # rlp_ref (Lst (deposit_items f))))"
  using encode_refines(1) [OF deposit_item deposit_size [OF assms]]
  by (simp add: ComputeL2DepositTxHash_def EncodeToBytes_def del: rlp_ref.simps)

lemma deposit_items_inj:
  assumes "deposit_ok f" "deposit_ok g" "deposit_items f = deposit_items g"
  shows "f = g"
proof -
  have bytes: "m = n" if "be_bytes m = be_bytes n" for m n
    using arg_cong [OF that, of be_nat] by simp
  have "To f = To g"
    using assms by (auto simp: deposit_items_def deposit_ok_def is_Address_def AddressLength_def split: option.splits)
  then show ?thesis
    using assms by (cases f; cases g) (auto simp: deposit_items_def deposit_ok_def dest!: bytes split: if_splits)
qed

text \<open>
  What a fetcher that polls is to keep: \<open>l1_serves\<close> is what \<open>eth_getLogs\<close> answers on a chain with these logs;
  \<open>covered b\<close> that every deposit below L1 block \<open>b\<close> is stored, and none above; \<open>no_gap\<close> that every deposit up to the highest
  stored one is.
\<close>

definition matches :: "filter_query \<Rightarrow> l1_log \<Rightarrow> bool" where
  "matches q l \<longleftrightarrow> fqFromBlock q \<le> llBlockNumber l \<and> llBlockNumber l \<le> fqToBlock q \<and> llAddress l \<in> set (fqAddresses q) \<and>
     length (fqTopics q) \<le> length (llTopics l) \<and> (\<forall>i < length (fqTopics q). fqTopics q ! i = [] \<or> llTopics l ! i \<in> set (fqTopics q ! i))"

definition l1_serves :: "l1_client \<Rightarrow> l1_log list \<Rightarrow> bool" where
  "l1_serves c ls \<longleftrightarrow> (\<forall>k q answer. l1FilterLogs c k q = Inr answer \<longrightarrow> answer = filter (matches q) ls)"

definition portal_log :: "(bytes \<Rightarrow> bytes) \<Rightarrow> fetcher_config \<Rightarrow> l1_log \<Rightarrow> bool" where
  "portal_log keccak cfg l \<longleftrightarrow> llAddress l = OptimismPortalAddress cfg \<and> llTopics l \<noteq> [] \<and> hd (llTopics l) = transactionDepositedTopic keccak"

definition covered :: "fetcher_config \<Rightarrow> l1_log list \<Rightarrow> u64 \<Rightarrow> world \<Rightarrow> bool" where
  "covered cfg ls b w \<longleftrightarrow>
     (\<forall>d \<in> set (op_deposits w). odL1BlockNumber d < b) \<and>
     (\<forall>l d. l \<in> set ls \<longrightarrow> portal_log (keccak256 w) cfg l \<longrightarrow> StartBlock cfg \<le> llBlockNumber l \<longrightarrow> llBlockNumber l < b \<longrightarrow>
        deposit_of_log (keccak256 w) l = Deposited d \<longrightarrow> odL2TxHash d \<in> odL2TxHash ` set (op_deposits w))"

definition no_gap :: "fetcher_config \<Rightarrow> l1_log list \<Rightarrow> world \<Rightarrow> bool" where
  "no_gap cfg ls w \<longleftrightarrow> covered cfg ls (last_l1_block w + 1) w"

lemma last_l1_block_ge: "d \<in> set (op_deposits w) \<Longrightarrow> odL1BlockNumber d \<le> last_l1_block w"
  by (auto simp: last_l1_block_def)

lemma last_l1_block_in: "op_deposits w \<noteq> [] \<Longrightarrow> last_l1_block w \<in> odL1BlockNumber ` set (op_deposits w)"
  using Max_in [of "odL1BlockNumber ` set (op_deposits w)"] by (simp add: last_l1_block_def)

lemma covered_no_gap:
  assumes "covered cfg ls b w" "0 < StartBlock cfg"
  shows "no_gap cfg ls w"
proof (cases "op_deposits w = []")
  case True
  then show ?thesis
    using assms by (auto simp: no_gap_def covered_def last_l1_block_def)
next
  case False
  then have "last_l1_block w < b"
    using assms(1) last_l1_block_in [OF False] by (auto simp: covered_def)
  then show ?thesis
    using assms(1) last_l1_block_ge [of _ w] by (auto simp: no_gap_def covered_def less_Suc_eq_le intro: le_less_trans)
qed

lemma covered_frame:
  "op_deposits w' = op_deposits w \<Longrightarrow> keccak256 w' = keccak256 w \<Longrightarrow> covered cfg ls b w' = covered cfg ls b w"
  by (simp add: covered_def)

lemma no_gap_frame:
  "op_deposits w' = op_deposits w \<Longrightarrow> keccak256 w' = keccak256 w \<Longrightarrow> no_gap cfg ls w' = no_gap cfg ls w"
  by (simp add: no_gap_def covered_def last_l1_block_def)

lemma insert_deposits_set:
  "odL2TxHash ` set (insert_deposits ds rows) = odL2TxHash ` set rows \<union> odL2TxHash ` set ds"
  "set (insert_deposits ds rows) \<subseteq> set rows \<union> set ds"
proof (induction ds arbitrary: rows)
  case (Cons d ds)
  {
    case 1
    have "odL2TxHash d \<in> odL2TxHash ` set rows" if "\<exists>r \<in> set rows. odL2TxHash r = odL2TxHash d"
      using that by (metis imageI)
    then show ?case
      using Cons(1) by auto
  next
    case 2
    show ?case
      using Cons(2) [of "rows @ [d]"] Cons(2) [of rows] by auto
  }
qed simp_all

lemma deposits_of_logs_frame:
  "run_state (deposits_of_logs c keccak ls acc) w = (r, w') \<Longrightarrow> op_deposits w' = op_deposits w \<and> keccak256 w' = keccak256 w"
  by (induction ls arbitrary: acc w) (auto split: log_result.splits)

lemma deposits_of_logs_found:
  assumes "run_state (deposits_of_logs c keccak ls acc) w = (Some ds, w')"
  shows "odL2TxHash ` set ds = odL2TxHash ` set acc \<union> {odL2TxHash d | l d. l \<in> set ls \<and> deposit_of_log keccak l = Deposited d}"
    "odL1BlockNumber ` set ds \<subseteq> odL1BlockNumber ` set acc \<union> llBlockNumber ` set ls"
proof -
  have number: "odL1BlockNumber d = llBlockNumber l" if "deposit_of_log keccak l = Deposited d" for l d
    using that by (auto simp: deposit_of_log_def Let_def split: if_splits slice_result.splits sum.splits)
  show "odL2TxHash ` set ds = odL2TxHash ` set acc \<union> {odL2TxHash d | l d. l \<in> set ls \<and> deposit_of_log keccak l = Deposited d}"
    using assms by (induction ls arbitrary: acc w) (auto split: log_result.splits)
  show "odL1BlockNumber ` set ds \<subseteq> odL1BlockNumber ` set acc \<union> llBlockNumber ` set ls"
    using assms
  proof (induction ls arbitrary: acc w)
    case (Cons l ls)
    show ?case
    proof (cases "deposit_of_log keccak l")
      case (Deposited d)
      then show ?thesis
        using Cons.prems Cons.IH number [OF Deposited] by fastforce
    qed (use Cons in fastforce)+
  qed auto
qed

lemma fetchDepositEvents_frame:
  assumes "run_state (fetchDepositEvents c cfg a b) w = (r, w')"
  shows "op_deposits w' = op_deposits w" "keccak256 w' = keccak256 w"
proof -
  have "op_deposits w' = op_deposits w \<and> keccak256 w' = keccak256 w"
    using assms by (auto simp: fetchDepositEvents_def Let_def split: sum.splits prod.splits dest!: deposits_of_logs_frame)
  then show "op_deposits w' = op_deposits w" "keccak256 w' = keccak256 w"
    by simp_all
qed

lemma fetchDepositEvents_found:
  assumes "run_state (fetchDepositEvents c cfg a b) w = (Inr ds, w')" "l1_serves c ls"
  shows "odL1BlockNumber ` set ds \<subseteq> {a..b}"
    "\<lbrakk>l \<in> set ls; portal_log (keccak256 w) cfg l; a \<le> llBlockNumber l; llBlockNumber l \<le> b; deposit_of_log (keccak256 w) l = Deposited d\<rbrakk>
       \<Longrightarrow> odL2TxHash d \<in> odL2TxHash ` set ds"
proof -
  let ?q = "\<lparr>fqFromBlock = a, fqToBlock = b, fqAddresses = [OptimismPortalAddress cfg], fqTopics = [[transactionDepositedTopic (keccak256 w)]]\<rparr>"
  obtain answer where answer: "l1FilterLogs c (calls w) ?q = Inr answer"
    "run_state (deposits_of_logs c (keccak256 w) answer []) (w\<lparr>calls := calls w + 1\<rparr>) = (Some ds, w')"
    using assms(1) by (auto simp: fetchDepositEvents_def Let_def split: sum.splits prod.splits option.splits)
  have served: "answer = filter (matches ?q) ls"
    using assms(2) answer(1) unfolding l1_serves_def by blast
  show "odL1BlockNumber ` set ds \<subseteq> {a..b}"
    using deposits_of_logs_found(2) [OF answer(2)] served by (fastforce simp: matches_def)
  assume l: "l \<in> set ls" "portal_log (keccak256 w) cfg l" "a \<le> llBlockNumber l" "llBlockNumber l \<le> b" "deposit_of_log (keccak256 w) l = Deposited d"
  then have "l \<in> set answer"
    by (cases "llTopics l") (auto simp: served matches_def portal_log_def)
  then show "odL2TxHash d \<in> odL2TxHash ` set ds"
    using deposits_of_logs_found(1) [OF answer(2)] l(5) by blast
qed

lemma poll_batch_covers:
  assumes "run_state (poll_batch c cfg a b) w = (r, w')" "l1_serves c ls" "covered cfg ls a w" "a \<le> b"
  shows "covered cfg ls a w' \<or> covered cfg ls (b + 1) w'" "r = Inr () \<Longrightarrow> covered cfg ls (b + 1) w'"
proof -
  obtain f w1 where f: "run_state (fetchDepositEvents c cfg a b) w = (f, w1)"
    by fastforce
  note frame = fetchDepositEvents_frame [OF f]
  have "(covered cfg ls a w' \<or> covered cfg ls (b + 1) w') \<and> (r = Inr () \<longrightarrow> covered cfg ls (b + 1) w')"
  proof (cases f)
    case (Inl e)
    then show ?thesis
      using assms(1,3) f frame by (auto simp: poll_batch_def covered_def)
  next
    case (Inr ds)
    note found = fetchDepositEvents_found [OF f [unfolded Inr] assms(2)]
    have step: "covered cfg ls (b + 1) v"
      if v: "keccak256 v = keccak256 w" "op_deposits v = insert_deposits ds (op_deposits w)" for v
    proof -
      have "odL1BlockNumber d < b + 1" if "d \<in> set (op_deposits v)" for d
        using that insert_deposits_set(2) [of ds "op_deposits w"] found(1) assms(3,4) unfolding v(2) covered_def by fastforce
      moreover have "odL2TxHash d \<in> odL2TxHash ` set (op_deposits v)"
        if "l \<in> set ls" "portal_log (keccak256 v) cfg l" "StartBlock cfg \<le> llBlockNumber l" "llBlockNumber l < b + 1"
          "deposit_of_log (keccak256 v) l = Deposited d" for l d
        using that assms(3) found(2) [of l d] unfolding v insert_deposits_set covered_def by (cases "llBlockNumber l < a") auto
      ultimately show ?thesis
        by (simp add: covered_def)
    qed
    show ?thesis
    proof (cases "ds = []")
      case True
      then show ?thesis
        using assms(1) f Inr frame step [of w'] by (auto simp: poll_batch_def)
    next
      case False
      let ?f = "\<lambda>v. if list_all bigint_fits ds then Inr (v\<lparr>op_deposits := insert_deposits ds (op_deposits v)\<rparr>) else Inl (InvalidValue ''int8'')"
      obtain i where i: "run_state (tx_of ?f) w1 = (i, w')" "r = map_sum DepositDb id i"
        using assms(1) f Inr False by (auto simp: poll_batch_def InsertOPDepositsBatch_def split: prod.splits)
      show ?thesis
        by (rule tx_of_cases [of ?f w1])
          (use i frame step assms(3) in \<open>auto simp: covered_frame [of "w1\<lparr>faults := tl (faults w1)\<rparr>" w] split: if_splits\<close>)
    qed
  qed
  then show "covered cfg ls a w' \<or> covered cfg ls (b + 1) w'" "r = Inr () \<Longrightarrow> covered cfg ls (b + 1) w'"
    by blast+
qed

text \<open>The loop returns, and leaves the deposits covered up to some block.\<close>

lemma poll_loop_covers:
  assumes "l1_serves c ls" "0 < batch_size cfg" "safeHead + batch_size cfg < 2 ^ 64" "covered cfg ls a w"
  shows "\<exists>r w' b. poll_loop c cfg safeHead a w = Some (r, w') \<and> covered cfg ls b w'"
  using assms(4)
proof (induction "safeHead + 1 - a" arbitrary: a w rule: less_induct)
  case less
  let ?B = "batch_size cfg"
  show ?case
  proof (cases "safeHead < a")
    case True
    then show ?thesis
      using less.prems by (subst poll_loop.simps) auto
  next
    case False
    then have wrap: "u64_add a ?B = a + ?B" "u64_sub (a + ?B) 1 = a + ?B - 1"
      using assms(2,3) by (simp_all add: u64_simps)
    define b where "b = (if safeHead < a + ?B - 1 then safeHead else a + ?B - 1)"
    obtain r w1 where r: "run_state (poll_batch c cfg a b) w = (r, w1)"
      by fastforce
    have "a \<le> b"
      using False assms(2) by (auto simp: b_def)
    note step = poll_batch_covers [OF r assms(1) less.prems this]
    have unfold: "poll_loop c cfg safeHead a w = (case r of Inl e \<Rightarrow> Some (Inl e, w1) | Inr _ \<Rightarrow> poll_loop c cfg safeHead (a + ?B) w1)"
      unfolding poll_loop.simps [of c cfg safeHead a w] if_not_P [OF False] Let_def wrap b_def [symmetric] r by (cases r) simp_all
    show ?thesis
    proof (cases r)
      case (Inl e)
      then show ?thesis
        using step(1) unfold by auto
    next
      case (Inr u)
      with step(2) have cov: "covered cfg ls (b + 1) w1"
        by simp
      show ?thesis
      proof (cases "safeHead < a + ?B")
        case True
        then have "poll_loop c cfg safeHead (a + ?B) w1 = Some (Inr (), w1)"
          by (subst poll_loop.simps) simp
        then show ?thesis
          using cov unfold Inr by auto
      next
        case False
        then have "b + 1 = a + ?B" "safeHead + 1 - (a + ?B) < safeHead + 1 - a"
          using assms(2) by (auto simp: b_def)
        then show ?thesis
          using less.hyps cov unfold Inr by auto
      qed
    qed
  qed
qed

lemma getStartBlock_covers:
  assumes "run_state (getStartBlock c cfg) w = (r, w')" "no_gap cfg ls w" "0 < StartBlock cfg" "last_l1_block w < 2 ^ 63"
  shows "op_deposits w' = op_deposits w" "keccak256 w' = keccak256 w" "r = Inr a \<Longrightarrow> covered cfg ls a w"
proof -
  have "op_deposits w' = op_deposits w \<and> keccak256 w' = keccak256 w \<and> (r = Inr a \<longrightarrow> covered cfg ls a w)"
  proof (rule run_query_cases [of last_l1_block w])
    assume *: "fst (run_state (run_query last_l1_block) w) = Inr (last_l1_block (w\<lparr>faults := tl (faults w)\<rparr>))"
      "snd (run_state (run_query last_l1_block) w) = w\<lparr>faults := tl (faults w)\<rparr>"
    have "last_l1_block (w\<lparr>faults := tl (faults w)\<rparr>) = last_l1_block w"
      by (simp add: last_l1_block_def)
    with * have q: "run_state GetLastIndexedL1Block w = (Inr (last_l1_block w), w\<lparr>faults := tl (faults w)\<rparr>)"
      by (metis GetLastIndexedL1Block_def prod.collapse)
    show ?thesis
    proof (cases "0 < last_l1_block w")
      case True
      then have "r = Inr (last_l1_block w + 1)" "w' = w\<lparr>faults := tl (faults w)\<rparr>"
        using assms(1,4) q by (simp_all add: getStartBlock_def u64_simps)
      then show ?thesis
        using assms(2) by (auto simp: no_gap_def)
    next
      case False
      then have "r = Inr (StartBlock cfg)" "w' = w\<lparr>faults := tl (faults w)\<rparr>"
        using assms(1,3) q by (simp_all add: getStartBlock_def)
      moreover have "covered cfg ls (StartBlock cfg) w"
        using False assms(3) last_l1_block_ge [of _ w] by (fastforce simp: covered_def)
      ultimately show ?thesis
        by auto
    qed
  next
    assume "fst (run_state (run_query last_l1_block) w) = Inl ConnLost" "snd (run_state (run_query last_l1_block) w) = w\<lparr>faults := tl (faults w)\<rparr>"
    then have "run_state GetLastIndexedL1Block w = (Inl ConnLost, w\<lparr>faults := tl (faults w)\<rparr>)"
      by (metis GetLastIndexedL1Block_def prod.collapse)
    then show ?thesis
      using assms(1) by (auto simp: getStartBlock_def)
  qed
  then show "op_deposits w' = op_deposits w" "keccak256 w' = keccak256 w" "r = Inr a \<Longrightarrow> covered cfg ls a w"
    by blast+
qed

text \<open>A revert removes the deposits its transactions brought.\<close>

lemma revert_block_deposits:
  assumes "revert_block n w = Inr w'"
  shows "op_deposits w' = filter (\<lambda>d. \<not> (\<exists>t \<in> set (transactions w). txBlockNumber t = n \<and> txHash t = odL2TxHash d)) (op_deposits w)"
proof -
  obtain dl where w': "w' = revert_rows n (w\<lparr>daily := dl\<rparr>)"
    by (rule revert_block_rows [OF assms]) blast
  show ?thesis
    by (rule revert_rows_parts [of n "w\<lparr>daily := dl\<rparr>"]) (simp add: w' set_bal_def delete_rows_def)
qed

section \<open>Properties\<close>

text \<open>C33. Parsing reads back what the portal packs: the mint, the value, the gas limit, the creation flag and the data
  of a deposit, for all values of their Solidity types.\<close>

theorem ParseOpaqueData_reads_what_is_packed:
  assumes "mint < 2 ^ 256" "val < 2 ^ 256" "gas < 2 ^ 64"
  shows "ParseOpaqueData (pack_opaque mint val gas creation data) =
     \<lparr>opMint = Some (int mint), opValue = Some (int val), opGasLimit = gas, opIsCreation = creation, opData = data\<rparr>"
proof -
  have "slice 0 32 (pack_opaque mint val gas creation data) = be_fixed 32 mint"
    "slice 32 64 (pack_opaque mint val gas creation data) = be_fixed 32 val"
    "slice 64 72 (pack_opaque mint val gas creation data) = be_fixed 8 gas"
    by (simp_all add: slice_def pack_opaque_def)
  moreover have "pack_opaque mint val gas creation data ! 72 = (if creation then 1 else 0)"
    by (simp add: pack_opaque_def nth_append)
  moreover have "length (pack_opaque mint val gas creation data) = 73 + length data" "drop 73 (pack_opaque mint val gas creation data) = data"
    by (simp_all add: pack_opaque_def)
  moreover have "mint mod 256 ^ 32 = mint" "val mod 256 ^ 32 = val" "gas mod 256 ^ 8 = gas"
    using assms by simp_all
  ultimately show ?thesis
    by (auto simp: ParseOpaqueData_def)
qed

lemma ParseOpaqueData_reads_what_is_packed_witness:
  "ParseOpaqueData (pack_opaque (10 ^ 18) 0 21000 True [1, 2]) =
     \<lparr>opMint = Some (10 ^ 18), opValue = Some 0, opGasLimit = 21000, opIsCreation = True, opData = [1, 2]\<rparr>"
  using ParseOpaqueData_reads_what_is_packed [of "10 ^ 18" 0 21000 True "[1, 2]"] by simp

text \<open>C32. The hash a deposit is stored under is that of an OP-stack node, the hash of the byte 0x7E and the RLP list of the
  deposit's fields, and it identifies the deposit: two deposits have the same hash only if they are the same, or the
  hash function collides.\<close>

theorem deposit_hash_identifies_the_deposit:
  assumes "deposit_ok f" "deposit_ok g"
  shows "ComputeL2DepositTxHash keccak f = Inr (keccak (0x7E # rlp_ref (Lst (deposit_items f)))) \<and>
     (inj keccak \<longrightarrow> ComputeL2DepositTxHash keccak f = ComputeL2DepositTxHash keccak g \<longrightarrow> f = g)"
proof (intro conjI impI)
  show "ComputeL2DepositTxHash keccak f = Inr (keccak (0x7E # rlp_ref (Lst (deposit_items f))))"
    by (simp only: deposit_hash_ref [OF assms(1)] depositTxType_def)
  assume "inj keccak" "ComputeL2DepositTxHash keccak f = ComputeL2DepositTxHash keccak g"
  then have "rlp_ref (Lst (deposit_items f)) = rlp_ref (Lst (deposit_items g))"
    unfolding deposit_hash_ref [OF assms(1)] deposit_hash_ref [OF assms(2)] by (metis injD list.inject sum.inject(2))
  from rlp_ref_inj [OF this deposit_size [OF assms(1)]] show "f = g"
    using deposit_items_inj [OF assms] by simp
qed

definition sample_fields :: depositTxFields where
  "sample_fields = \<lparr>SourceHash = replicate 32 1, From = replicate 20 2, To = Some (replicate 20 3), Mint = Some 1000, Value = Some 7,
     Gas = 21000, IsSystemTx = False, Data = [1, 2]\<rparr>"

lemma deposit_hash_identifies_the_deposit_witness:
  "let f = sample_fields; g = f\<lparr>To := None\<rparr> in
     deposit_ok f \<and> deposit_ok g \<and> inj (\<lambda>b :: bytes. b) \<and> ComputeL2DepositTxHash (\<lambda>b. b) f \<noteq> ComputeL2DepositTxHash (\<lambda>b. b) g"
proof -
  have "\<exists>m < 2 ^ 256. int m = 1000" "\<exists>v < 2 ^ 256. int v = 7"
    by (rule exI [of _ 1000], simp) (rule exI [of _ 7], simp)
  then have ok: "deposit_ok sample_fields" "deposit_ok (sample_fields\<lparr>To := None\<rparr>)"
    by (auto simp: deposit_ok_def sample_fields_def is_Hash_def is_Address_def HashLength_def AddressLength_def)
  have "sample_fields \<noteq> sample_fields\<lparr>To := None\<rparr>"
    by (simp add: sample_fields_def)
  moreover have "inj (\<lambda>b :: bytes. b)"
    by (simp add: inj_def)
  ultimately show ?thesis
    using deposit_hash_identifies_the_deposit [OF ok, of "\<lambda>b. b"] ok by (auto simp: Let_def)
qed


text \<open>An L1 that serves one deposit of nothing, and whose second read of the head fails.\<close>

definition sample_l1_log :: l1_log where
  "sample_l1_log = \<lparr>llAddress = replicate 20 9, llTopics = [replicate 32 0, replicate 32 1, replicate 32 2, replicate 32 3],
     llData = replicate 31 0 @ [32] @ replicate 32 0, llBlockNumber = 120, llTxHash = replicate 32 4, llBlockHash = replicate 32 5, llIndex = 6\<rparr>"

definition sample_l1 :: l1_client where
  "sample_l1 = \<lparr>l1BlockNumber = (\<lambda>k. if k = 1 then Inl BlockNotAvailable else Inr 130), l1FilterLogs = (\<lambda>_ q. Inr (filter (matches q) [sample_l1_log])),
     l1HeaderTime = (\<lambda>_ _. Inr 99)\<rparr>"

definition sample_fetcher :: fetcher_config where
  "sample_fetcher = \<lparr>OptimismPortalAddress = replicate 20 9, BatchSize = 50, StartBlock = 100, ConfirmationBlocks = 10\<rparr>"


text \<open>C34. A revert of an L2 block removes the deposits its transactions brought, and when a deposit of a later L1 block is
  stored the next poll starts above them: they are not read again, though the block that replaces the reverted one
  carries the same transactions.\<close>

theorem reverted_deposit_is_not_read_again:
  assumes "revert_block n w = Inr w'" "t \<in> set (transactions w)" "txBlockNumber t = n" "txHash t = odL2TxHash d"
    and e: "e \<in> set (op_deposits w)" "odL1BlockNumber d < odL1BlockNumber e" "odL2TxHash e \<notin> txHash ` {t \<in> set (transactions w). txBlockNumber t = n}"
    and "last_l1_block w < 2 ^ 63" "run_state (getStartBlock c cfg) w' = (Inr s, w'')"
  shows "odL2TxHash d \<notin> odL2TxHash ` set (op_deposits w') \<and> odL1BlockNumber d < s"
proof
  note rows = revert_block_deposits [OF assms(1)]
  show "odL2TxHash d \<notin> odL2TxHash ` set (op_deposits w')"
    using assms(2-4) by (force simp: rows)
  have "e \<in> set (op_deposits w')"
    using e(1,3) by (auto simp: rows intro: rev_image_eqI)
  then have later: "odL1BlockNumber e \<le> last_l1_block w'"
    by (rule last_l1_block_ge)
  have "last_l1_block w' \<le> last_l1_block w"
    using last_l1_block_in [of w'] last_l1_block_ge [of _ w] by (cases "op_deposits w' = []") (auto simp: rows last_l1_block_def)
  then have fits: "last_l1_block w' + 1 < 2 ^ 64"
    using assms(8) by simp
  have "fst (run_state GetLastIndexedL1Block w') \<in> {Inr (last_l1_block w'), Inl ConnLost}"
    by (rule run_query_cases [of last_l1_block w']) (auto simp: GetLastIndexedL1Block_def last_l1_block_def)
  then show "odL1BlockNumber d < s"
    using assms(9) later e(2) fits by (cases "run_state GetLastIndexedL1Block w'") (auto simp: getStartBlock_def u64_simps)
qed

definition sample_op_deposit :: "string \<Rightarrow> u64 \<Rightarrow> op_deposit" where
  "sample_op_deposit h n = \<lparr>odL2TxHash = h, odL1BlockNumber = n, odL1BlockTimestamp = None, odL1TxHash = ''0x1'', odL1TxOrigin = ''0x2''\<rparr>"

lemma reverted_deposit_is_not_read_again_witness:
  "let t = transaction_of (\<lambda>_. []) 5 0 (sample_tx 1) None; d = sample_op_deposit (txHash t) 100;
       w = empty_world\<lparr>transactions := [t], op_deposits := [d, sample_op_deposit ''0x0'' 101]\<rparr> in
   case revert_block 5 w of
     Inl _ \<Rightarrow> False
   | Inr w' \<Rightarrow> (case run_state (getStartBlock sample_l1 sample_fetcher) w' of
       (Inr s, _) \<Rightarrow> odL2TxHash d \<notin> odL2TxHash ` set (op_deposits w') \<and> 100 < s
     | _ \<Rightarrow> False)"
proof -
  define t where "t = transaction_of (\<lambda>_. []) 5 0 (sample_tx 1) None"
  define d where "d = sample_op_deposit (txHash t) 100"
  define w where "w = empty_world\<lparr>transactions := [t], op_deposits := [d, sample_op_deposit ''0x0'' 101]\<rparr>"
  have t: "txBlockNumber t = 5" "txHash t = Hash_Hex (replicate 32 1)"
    by (simp_all add: t_def transaction_of_def sample_tx_def)
  have rv: "revert_block 5 w = Inr (revert_rows 5 w)"
    by (simp add: w_def empty_world_def revert_block_no_watermark)
  have other: "Hash_Hex (replicate 32 1) \<noteq> ''0x0''"
    by code_simp
  then have *: "t \<in> set (transactions w)" "txHash t = odL2TxHash d" "sample_op_deposit ''0x0'' 101 \<in> set (op_deposits w)"
    "odL1BlockNumber d < odL1BlockNumber (sample_op_deposit ''0x0'' 101)"
    "odL2TxHash (sample_op_deposit ''0x0'' 101) \<notin> txHash ` {t \<in> set (transactions w). txBlockNumber t = 5}" "last_l1_block w < 2 ^ 63"
    using t by (auto simp: w_def d_def sample_op_deposit_def last_l1_block_def)
  have rows: "op_deposits (revert_rows 5 w) = [sample_op_deposit ''0x0'' 101]"
    unfolding revert_block_deposits [OF rv] using other t by (simp add: w_def d_def sample_op_deposit_def)
  have "faults (revert_rows 5 w) = []"
    by (simp only: revert_block_frame(5) [OF rv]) (simp add: w_def empty_world_def)
  then have s: "run_state (getStartBlock sample_l1 sample_fetcher) (revert_rows 5 w) = (Inr 102, revert_rows 5 w)"
    using rows by (simp add: getStartBlock_def GetLastIndexedL1Block_def run_query_no_fault last_l1_block_def sample_op_deposit_def u64_add_def)
  show ?thesis
    using reverted_deposit_is_not_read_again [OF rv *(1) t(1) *(2-6) s] rv s
    by (simp add: Let_def t_def [symmetric] d_def [symmetric] w_def [symmetric])
qed

end
