(* ===== verification/Spec2Isabelle.thy ===== *)
theory Spec2Isabelle
  imports Catch_Up Op_Deposits
begin

text \<open>
  Placeholder header.
\<close>

end
